(* ===== verification/Prelude.thy ===== *)
theory Prelude
  imports Main "HOL-Library.Word" "HOL-Library.Monad_Syntax"
begin

text \<open>
  Shared vocabulary of the development.

  The crate is modelled for a 64-bit target. A \<open>usize\<close> (a size or an address) is a natural
  number below \<open>2 ^ 64\<close>; every operation of the source that can leave that range is written out:
  \<^item> \<open>+\<close> and \<open>-\<close> are \<open>add_usize\<close> and \<open>sub_usize\<close>, which return
    \<^const>\<open>None\<close> where Rust panics (overflow checks on) or where pointer arithmetic would be
    undefined;
  \<^item> \<open>wrapping_add\<close>, \<open>wrapping_sub\<close>, \<open>checked_add\<close>, \<open>checked_sub\<close>,
    \<open>saturating_sub\<close>, \<open>!x\<close>, \<open>rotate_right\<close>, \<open>leading_zeros\<close> and
    \<open>trailing_zeros\<close> are the methods of the primitive type.

  Every function that can panic, fail a \<open>debug_assert!\<close>, reach \<open>unreachable_unchecked()\<close>
  or touch memory it may not touch returns an \<open>option\<close> whose \<^const>\<open>None\<close> stands for that
  fault. A Rust \<open>Option\<close> result is an \<open>option\<close> inside it.
\<close>

unbundle bit_operations_syntax

named_theorems usize_simps \<open>evaluation rules of machine arithmetic\<close>
named_theorems cell_simps \<open>distinctness and alignment of header cells\<close>
named_theorems mem_simps \<open>evaluation rules of loads and stores\<close>
named_theorems run_simps \<open>rules that run a program of the option monad whose steps are known\<close>

section \<open>Machine integers\<close>

type_synonym usize = nat
type_synonym 'a fallible = "'a option"

definition USIZE_BITS :: nat where
  "USIZE_BITS = 64"

definition USIZE_LIM :: nat where
  "USIZE_LIM = 2 ^ 64"

definition add_usize :: "usize \<Rightarrow> usize \<Rightarrow> usize option" where
  "add_usize a b = (if a + b < USIZE_LIM then Some (a + b) else None)"

definition sub_usize :: "usize \<Rightarrow> usize \<Rightarrow> usize option" where
  "sub_usize a b = (if b \<le> a then Some (a - b) else None)"

definition checked_add :: "usize \<Rightarrow> usize \<Rightarrow> usize option" where
  "checked_add a b = (if a + b < USIZE_LIM then Some (a + b) else None)"

definition checked_sub :: "usize \<Rightarrow> usize \<Rightarrow> usize option" where
  "checked_sub a b = (if b \<le> a then Some (a - b) else None)"

definition checked_mul :: "usize \<Rightarrow> usize \<Rightarrow> usize option" where
  "checked_mul a b = (if a * b < USIZE_LIM then Some (a * b) else None)"

definition saturating_sub :: "usize \<Rightarrow> usize \<Rightarrow> usize" where
  "saturating_sub a b = (if b \<le> a then a - b else 0)"

definition wrapping_add :: "usize \<Rightarrow> usize \<Rightarrow> usize" where
  "wrapping_add a b = (a + b) mod USIZE_LIM"

definition wrapping_sub :: "usize \<Rightarrow> usize \<Rightarrow> usize" where
  "wrapping_sub a b = (a + (USIZE_LIM - b)) mod USIZE_LIM"

definition wrapping_sub_u32 :: "nat \<Rightarrow> nat \<Rightarrow> nat" where
  "wrapping_sub_u32 a b = (a + (2 ^ 32 - b)) mod 2 ^ 32"

definition not_usize :: "usize \<Rightarrow> usize" where
  "not_usize a = USIZE_LIM - 1 - a"

definition shl1 :: "nat \<Rightarrow> usize option" where
  \<comment> \<open>\<open>1 << n\<close>: panics when the shift amount reaches the width\<close>
  "shl1 n = (if n < USIZE_BITS then Some (2 ^ n) else None)"

fun bit_len :: "nat \<Rightarrow> nat" where
  "bit_len n = (if n = 0 then 0 else Suc (bit_len (n div 2)))"

definition leading_zeros :: "usize \<Rightarrow> nat" where
  "leading_zeros a = USIZE_BITS - bit_len a"

definition trailing_zeros :: "usize \<Rightarrow> nat" where
  "trailing_zeros a = length (takeWhile (\<lambda>i. \<not> bit a i) [0..<USIZE_BITS])"

definition rotate_right :: "usize \<Rightarrow> nat \<Rightarrow> usize" where
  "rotate_right a n = (let k = n mod USIZE_BITS in
     drop_bit k a OR push_bit (USIZE_BITS - k) (take_bit k a))"

definition is_power_of_two :: "usize \<Rightarrow> bool" where
  "is_power_of_two a \<longleftrightarrow> 0 < a \<and> a AND (a - 1) = 0"

definition debug_assert :: "bool \<Rightarrow> unit option" where
  "debug_assert b = (if b then Some () else None)"

text \<open>An \<open>Option<NonNull<T>>\<close> occupies one \<open>usize\<close>; the null pointer stands for
  \<open>None\<close>.\<close>

definition of_ptr :: "usize option \<Rightarrow> usize" where
  "of_ptr p = (case p of None \<Rightarrow> 0 | Some a \<Rightarrow> a)"

definition to_ptr :: "usize \<Rightarrow> usize option" where
  "to_ptr a = (if a = 0 then None else Some a)"

text \<open>A slice pointer \<open>NonNull<[T]>\<close> is the pair of its address and its length
  (crates/rlsf/src/utils.rs).\<close>

abbreviation (input) nonnull_slice_from_raw_parts :: "usize \<Rightarrow> usize \<Rightarrow> usize \<times> usize" where
  "nonnull_slice_from_raw_parts ptr len \<equiv> (ptr, len)"

abbreviation (input) nonnull_slice_len :: "usize \<times> usize \<Rightarrow> usize" where
  "nonnull_slice_len ptr \<equiv> snd ptr"

abbreviation (input) nonnull_slice_start :: "usize \<times> usize \<Rightarrow> usize" where
  "nonnull_slice_start ptr \<equiv> fst ptr"

definition nonnull_slice_end :: "usize \<times> usize \<Rightarrow> usize" where
  "nonnull_slice_end ptr = wrapping_add (nonnull_slice_start ptr) (nonnull_slice_len ptr)"

text \<open>\<open>core::alloc::Layout\<close>: a size and an alignment, the alignment a power of two and the size,
  rounded up to it, at most \<open>isize::MAX\<close>.\<close>

record layout =
  lsize :: usize
  lalign :: usize

definition ISIZE_MAX :: nat where
  "ISIZE_MAX = 2 ^ 63 - 1"

definition layout_ok :: "layout \<Rightarrow> bool" where
  "layout_ok l \<longleftrightarrow> is_power_of_two (lalign l) \<and> lalign l < USIZE_LIM \<and>
     lsize l + (lalign l - 1) \<le> ISIZE_MAX"

definition from_size_align :: "usize \<Rightarrow> usize \<Rightarrow> layout option" where
  \<comment> \<open>\<open>Layout::from_size_align(..).ok()\<close>\<close>
  "from_size_align sz al =
     (let l = \<lparr>lsize = sz, lalign = al\<rparr> in if layout_ok l then Some l else None)"

declare bit_len.simps [simp del]

section \<open>Evaluation rules\<close>

lemma debug_assert_True [simp]: "debug_assert True = Some ()"
  and debug_assert_False [simp]: "debug_assert False = None"
  by (simp_all add: debug_assert_def)

lemmas run_rules [run_simps] = Option.bind_lunit Option.bind_lzero prod.case option.case Let_def if_True if_False
  refl not_False_eq_True

lemma debug_assert_run [run_simps]: "debug_assert True = Some ()"
  by simp

lemma debug_assert_if [usize_simps]: "b \<Longrightarrow> debug_assert b = Some ()"
  by simp

lemma debug_assert_eq_Some [simp]: "debug_assert b = Some u \<longleftrightarrow> b"
  by (simp add: debug_assert_def)

lemma add_usize_Some [usize_simps]: "a + b < USIZE_LIM \<Longrightarrow> add_usize a b = Some (a + b)"
  by (simp add: add_usize_def)

lemma sub_usize_Some [usize_simps]: "b \<le> a \<Longrightarrow> sub_usize a b = Some (a - b)"
  by (simp add: sub_usize_def)

lemma add_usize_eq_Some: "add_usize a b = Some c \<longleftrightarrow> a + b < USIZE_LIM \<and> c = a + b"
  by (auto simp: add_usize_def)

lemma sub_usize_eq_Some: "sub_usize a b = Some c \<longleftrightarrow> b \<le> a \<and> c = a - b"
  by (auto simp: sub_usize_def)

lemma checked_add_Some [usize_simps]: "a + b < USIZE_LIM \<Longrightarrow> checked_add a b = Some (a + b)"
  by (simp add: checked_add_def)

lemma checked_add_None [usize_simps]: "USIZE_LIM \<le> a + b \<Longrightarrow> checked_add a b = None"
  by (simp add: checked_add_def)

lemma checked_add_eq_Some: "checked_add a b = Some c \<longleftrightarrow> a + b < USIZE_LIM \<and> c = a + b"
  by (auto simp: checked_add_def)

lemma checked_add_eq_None: "checked_add a b = None \<longleftrightarrow> USIZE_LIM \<le> a + b"
  by (auto simp: checked_add_def)

lemma checked_sub_eq_Some: "checked_sub a b = Some c \<longleftrightarrow> b \<le> a \<and> c = a - b"
  by (auto simp: checked_sub_def)

lemma wrapping_add_exact [usize_simps]: "a + b < USIZE_LIM \<Longrightarrow> wrapping_add a b = a + b"
  by (simp add: wrapping_add_def)

lemma wrapping_sub_exact [usize_simps]:
  assumes "b \<le> a" and "a < USIZE_LIM"
  shows "wrapping_sub a b = a - b"
proof -
  have "a + (USIZE_LIM - b) = (a - b) + USIZE_LIM" using assms by simp
  moreover have "a - b < USIZE_LIM" using assms by simp
  ultimately show ?thesis unfolding wrapping_sub_def by simp
qed

lemma USIZE_LIM_pos [simp]: "0 < USIZE_LIM"
  by (simp add: USIZE_LIM_def)

lemma USIZE_LIM_gt [simp]: "numeral n < USIZE_LIM \<longleftrightarrow> (numeral n :: nat) < 2 ^ 64"
  by (simp add: USIZE_LIM_def)

lemma dvd_USIZE_LIM [simp]: "32 dvd USIZE_LIM"
  by (simp add: USIZE_LIM_def)

lemma pow2_dvd_USIZE_LIM: "k \<le> 64 \<Longrightarrow> 2 ^ k dvd USIZE_LIM"
  unfolding USIZE_LIM_def by (rule le_imp_power_dvd)

lemma to_ptr_of_ptr [simp]: "p \<noteq> Some 0 \<Longrightarrow> to_ptr (of_ptr p) = p"
  by (auto simp: to_ptr_def of_ptr_def split: option.splits)

lemma of_ptr_to_ptr [simp]: "of_ptr (to_ptr v) = v"
  by (simp add: to_ptr_def of_ptr_def)

lemma of_ptr_simps [simp]: "of_ptr None = 0" "of_ptr (Some a) = a"
  by (simp_all add: of_ptr_def)

lemma to_ptr_simps [simp]: "to_ptr 0 = None" "0 < a \<Longrightarrow> to_ptr a = Some a"
  by (simp_all add: to_ptr_def)

section \<open>Masks\<close>

lemma not_mask_eq: "k \<le> 64 \<Longrightarrow> not_usize (2 ^ k - 1) = push_bit k (mask (64 - k))"
proof -
  assume k: "k \<le> 64"
  have "(2::nat) ^ 64 = 2 ^ k * 2 ^ (64 - k)" using k by (simp flip: power_add)
  then have "USIZE_LIM = 2 ^ k * 2 ^ (64 - k)" by (simp add: USIZE_LIM_def)
  moreover have "(1::nat) \<le> 2 ^ k" by simp
  ultimately show ?thesis
    by (simp add: not_usize_def push_bit_eq_mult mask_eq_exp_minus_1 algebra_simps)
qed

lemma and_not_mask:
  assumes "x < USIZE_LIM" and "k \<le> 64"
  shows "x AND not_usize (2 ^ k - 1) = x - x mod 2 ^ k"
proof -
  have "x AND push_bit k (mask (64 - k)) = push_bit k (drop_bit k x)"
  proof (rule bit_eqI)
    fix i
    have "bit x i \<Longrightarrow> i < 64"
    proof (rule ccontr)
      assume "bit x i" and "\<not> i < 64"
      then have "(2::nat) ^ 64 \<le> 2 ^ i" by (intro power_increasing) simp_all
      with assms(1) have "x < 2 ^ i" unfolding USIZE_LIM_def by (rule less_le_trans)
      with \<open>bit x i\<close> show False by (simp add: bit_iff_odd)
    qed
    then show "bit (x AND push_bit k (mask (64 - k))) i \<longleftrightarrow> bit (push_bit k (drop_bit k x)) i"
      by (auto simp: bit_and_iff bit_push_bit_iff bit_mask_iff bit_drop_bit_eq)
  qed
  also have "\<dots> = x - x mod 2 ^ k"
    by (simp add: push_bit_eq_mult drop_bit_eq_div minus_mod_eq_div_mult)
  finally show ?thesis using not_mask_eq [OF assms(2)] by simp
qed

lemma and_not_31 [usize_simps]: "x < USIZE_LIM \<Longrightarrow> x AND not_usize 31 = x - x mod 32"
  using and_not_mask [of x 5] by simp

lemma and_low_bit: "x AND (1::nat) = x mod 2"
  by (simp add: and_one_eq)

lemma dvd_less_add_le: "a dvd x \<Longrightarrow> a dvd y \<Longrightarrow> x < y \<Longrightarrow> x + a \<le> (y::nat)"
proof -
  assume a: "a dvd x" "a dvd y" "x < y"
  then have "a \<le> y - x" by (intro dvd_imp_le) (simp_all add: dvd_diff_nat)
  with a show ?thesis by linarith
qed

text \<open>Rounding up to a multiple of a power of two, as the source writes it:
  \<open>(x + (a - 1)) & !(a - 1)\<close>.\<close>

definition round_up :: "nat \<Rightarrow> nat \<Rightarrow> nat" where
  "round_up a x = (x + (a - 1)) - (x + (a - 1)) mod a"

lemma round_up_dvd [simp]: "a dvd round_up a x"
  by (simp add: round_up_def minus_mod_eq_mult_div)

lemma round_up_ge: "0 < a \<Longrightarrow> x \<le> round_up a x"
proof -
  assume a: "0 < a"
  have "(x + (a - 1)) mod a < a" using a by (rule mod_less_divisor)
  then show ?thesis unfolding round_up_def by linarith
qed

lemma round_up_lt: "0 < a \<Longrightarrow> round_up a x < x + a"
  by (simp add: round_up_def)

lemma round_up_least:
  assumes "a dvd y" and "x \<le> y"
  shows "round_up a x \<le> y"
proof (cases "a = 0")
  case True
  with assms show ?thesis by (simp add: round_up_def)
next
  case False
  then have "round_up a x < y + a" using round_up_lt [of a x] assms(2) by simp
  moreover obtain i where i: "y = a * i" using assms(1) by (rule dvdE)
  moreover obtain j where j: "round_up a x = a * j" using round_up_dvd [of a x] by (rule dvdE)
  ultimately have "a * j < a * (i + 1)" by simp
  then have "j < i + 1" by (simp only: mult_less_cancel1)
  then have "j \<le> i" by simp
  with i j show ?thesis by simp
qed

lemma round_up_id: "0 < a \<Longrightarrow> a dvd x \<Longrightarrow> round_up a x = x"
  by (simp add: le_antisym round_up_ge round_up_least)

lemma and_not_round_up:
  assumes "x + (2 ^ k - 1) < USIZE_LIM" and "k \<le> 64"
  shows "(x + (2 ^ k - 1)) AND not_usize (2 ^ k - 1) = round_up (2 ^ k) x"
  using and_not_mask [OF assms] by (simp add: round_up_def)

lemma and_not_31_round_up [usize_simps]:
  "x + 31 < USIZE_LIM \<Longrightarrow> (x + 31) AND not_usize 31 = round_up 32 x"
  using and_not_round_up [of x 5] by simp

lemma round_up_32: "x \<le> round_up 32 x" "round_up 32 x < x + 32" "32 dvd round_up 32 x"
  using round_up_ge [of 32 x] round_up_lt [of 32 x] by simp_all

section \<open>Bit lengths\<close>

lemma bit_len_eq: "2 ^ e \<le> x \<Longrightarrow> x < 2 ^ Suc e \<Longrightarrow> bit_len x = Suc e"
proof (induction e arbitrary: x)
  case 0
  then have "x = 1" by simp
  then show ?case by (simp add: bit_len.simps)
next
  case (Suc e)
  then have "2 ^ e \<le> x div 2" and "x div 2 < 2 ^ Suc e" by auto
  then have "bit_len (x div 2) = Suc e" by (rule Suc.IH)
  moreover have "x \<noteq> 0" using Suc.prems by (metis not_less_zero power_eq_0_iff le_zero_eq zero_neq_numeral)
  ultimately show ?case by (simp add: bit_len.simps [of x])
qed

lemma leading_zeros_eq: "2 ^ e \<le> x \<Longrightarrow> x < 2 ^ Suc e \<Longrightarrow> leading_zeros x = 63 - e"
  by (simp add: leading_zeros_def bit_len_eq USIZE_BITS_def)

lemma ex_log: "0 < (x::nat) \<Longrightarrow> \<exists>e. 2 ^ e \<le> x \<and> x < 2 ^ Suc e"
proof (induction x rule: less_induct)
  case (less x)
  show ?case
  proof (cases "x = 1")
    case True
    then show ?thesis by (intro exI [of _ 0]) simp
  next
    case False
    with less.prems have "x div 2 < x" "0 < x div 2" by auto
    then obtain e where "2 ^ e \<le> x div 2" "x div 2 < 2 ^ Suc e" using less.IH by blast
    then show ?thesis by (intro exI [of _ "Suc e"]) auto
  qed
qed

lemma length_takeWhile_upt:
  assumes "k \<le> n" and "\<And>i. i < k \<Longrightarrow> P i" and "k < n \<Longrightarrow> \<not> P k"
  shows "length (takeWhile P [0..<n]) = k"
proof (cases "k = n")
  case True
  with assms(2) have "takeWhile P [0..<n] = [0..<n]" by (auto simp: takeWhile_eq_all_conv)
  with True show ?thesis by (simp only: length_upt)
next
  case False
  then have "k < n" using assms(1) by simp
  then have split: "[0..<n] = [0..<k] @ k # [Suc k..<n]"
    by (metis le_add_diff_inverse less_imp_le_nat upt_add_eq_append upt_conv_Cons zero_le)
  show ?thesis unfolding split using assms \<open>k < n\<close>
    by (subst takeWhile_append2) auto
qed

lemma trailing_zeros_pow2: "k < 64 \<Longrightarrow> trailing_zeros (2 ^ k) = k"
  unfolding trailing_zeros_def USIZE_BITS_def
  by (rule length_takeWhile_upt) (auto simp: bit_exp_iff)

lemma is_power_of_two_pow2 [simp]: "is_power_of_two (2 ^ k)"
proof -
  have "2 ^ k AND mask k = (0::nat)"
    by (rule bit_eqI) (auto simp: bit_and_iff bit_mask_iff bit_exp_iff)
  then show ?thesis by (simp add: is_power_of_two_def mask_eq_exp_minus_1)
qed

lemma bit_top: "2 ^ e \<le> x \<Longrightarrow> x < 2 ^ Suc e \<Longrightarrow> bit (x::nat) e"
proof -
  assume a: "2 ^ e \<le> x" "x < 2 ^ Suc e"
  then have "x div 2 ^ e = 1" by (simp add: div_nat_eqI)
  then show ?thesis by (simp add: bit_iff_odd)
qed

lemma is_power_of_two_obtain:
  assumes "is_power_of_two a"
  obtains k where "a = 2 ^ k"
proof -
  obtain e where e: "2 ^ e \<le> a" "a < 2 ^ Suc e"
    using assms ex_log [of a] by (auto simp: is_power_of_two_def)
  have "a = 2 ^ e"
  proof (rule ccontr)
    assume "a \<noteq> 2 ^ e"
    with e have "2 ^ e \<le> a - 1" "a - 1 < 2 ^ Suc e" by simp_all
    then have "bit (a AND (a - 1)) e" using e by (simp add: bit_and_iff bit_top)
    with assms show False by (simp add: is_power_of_two_def)
  qed
  then show thesis by (rule that)
qed

end
