(* ===== verification/Bin_Integer.thy ===== *)
theory Bin_Integer
  imports Prelude
begin

text \<open>
  The trait \<open>BinInteger\<close> (crates/rlsf/src/int.rs) and its implementation by the macro
  \<open>impl_binary_integer!\<close>. An integer type of \<open>n\<close> bits is \<open>'a word\<close> with
  \<open>LENGTH('a) = n\<close>; the macro body is the same for every type, so one definition serves them
  all. Where the instruction depends on signedness (\<open>>>\<close>, \<open>as u32\<close> and
  \<open>checked_add\<close>) the signed instance has a definition of its own, with suffix
  \<open>_signed\<close>. A \<open>Range<u32>\<close> is passed as its two bounds, and a failed \<open>assert!\<close>
  or a shift by the full width is \<^const>\<open>None\<close>.

  The lemmas say what each operation does to the bits of its argument.
\<close>

unbundle bit_operations_syntax

section \<open>Definitions\<close>

definition shl :: "'a::len word \<Rightarrow> nat \<Rightarrow> 'a word option" where
  "shl x n = (if n < LENGTH('a) then Some (push_bit n x) else None)"

definition ones_truncated :: "nat \<Rightarrow> nat \<Rightarrow> 'a::len word option" where
  "ones_truncated start end' = do {
     debug_assert (start \<le> end');
     if LENGTH('a) \<le> end' then do {
       b \<leftarrow> shl 1 start;
       Some (0 - b)
     } else do {
       a \<leftarrow> shl 1 end';
       b \<leftarrow> shl 1 start;
       Some (a - b)
     }
   }"

definition ones :: "nat \<Rightarrow> nat \<Rightarrow> 'a::len word option" where
  "ones start end' = do {
     debug_assert (end' \<le> LENGTH('a));
     ones_truncated start end'
   }"

definition word_trailing_zeros :: "'a::len word \<Rightarrow> nat" where
  "word_trailing_zeros w = length (takeWhile (\<lambda>i. \<not> bit w i) [0..<LENGTH('a)])"

definition word_leading_zeros :: "'a::len word \<Rightarrow> nat" where
  "word_leading_zeros w = length (takeWhile (\<lambda>i. \<not> bit w i) (rev [0..<LENGTH('a)]))"

definition count_ones :: "'a::len word \<Rightarrow> nat" where
  "count_ones w = length (filter (bit w) [0..<LENGTH('a)])"

definition bit_scan_forward :: "'a::len word \<Rightarrow> nat \<Rightarrow> nat option" where
  "bit_scan_forward w start =
     (if LENGTH('a) \<le> start then Some (LENGTH('a))
      else do {
        m \<leftarrow> ones 0 start;
        Some (word_trailing_zeros (w AND NOT m))
      })"

definition extract_u32 :: "'a::len word \<Rightarrow> nat \<Rightarrow> nat \<Rightarrow> 32 word option" where
  "extract_u32 w start end' = do {
     m \<leftarrow> ones_truncated start end';
     Some (ucast (drop_bit start (w AND m)))
   }"

definition extract_u32_signed :: "'a::len word \<Rightarrow> nat \<Rightarrow> nat \<Rightarrow> 32 word option" where
  "extract_u32_signed w start end' = do {
     m \<leftarrow> ones_truncated start end';
     Some (scast (signed_drop_bit start (w AND m)))
   }"

definition get_bit :: "'a::len word \<Rightarrow> nat \<Rightarrow> bool" where
  "get_bit w i = (if i < LENGTH('a) then w AND push_bit i 1 \<noteq> 0 else False)"

definition set_bit' :: "'a::len word \<Rightarrow> nat \<Rightarrow> 'a word" where
  "set_bit' w i = (if i < LENGTH('a) then w OR push_bit i 1 else w)"

definition clear_bit :: "'a::len word \<Rightarrow> nat \<Rightarrow> 'a word" where
  "clear_bit w i = (if i < LENGTH('a) then w AND NOT (push_bit i 1) else w)"

definition checked_add_word :: "'a::len word \<Rightarrow> 'a word \<Rightarrow> 'a word option" where
  "checked_add_word a b = (if unat a + unat b < 2 ^ LENGTH('a) then Some (a + b) else None)"

definition checked_add_signed :: "'a::len word \<Rightarrow> 'a word \<Rightarrow> 'a word option" where
  "checked_add_signed a b =
     (if sint a + sint b < 2 ^ (LENGTH('a) - 1) \<and> - (2 ^ (LENGTH('a) - 1)) \<le> sint a + sint b
      then Some (a + b) else None)"

definition checked_ceil_fix :: "'a::len word \<Rightarrow> nat \<Rightarrow> 'a word option option" where
  "checked_ceil_fix w fp =
     (if LENGTH('a) \<le> fp then Some (if w = 0 then Some 0 else None)
      else do {
        m \<leftarrow> ones 0 fp;
        Some (map_option (\<lambda>x. x AND NOT m) (checked_add_word w m))
      })"

definition checked_ceil_fix_signed :: "'a::len word \<Rightarrow> nat \<Rightarrow> 'a word option option" where
  "checked_ceil_fix_signed w fp =
     (if LENGTH('a) \<le> fp then Some (if w = 0 then Some 0 else None)
      else do {
        m \<leftarrow> ones 0 fp;
        Some (map_option (\<lambda>x. x AND NOT m) (checked_add_signed w m))
      })"

section \<open>Runs of ones\<close>

lemma neg_push_bit: "(0::'a::len word) - push_bit s 1 = NOT (mask s)"
proof -
  have "NOT (mask s :: 'a word) = - mask s - 1" by (rule not_eq_complement)
  then show ?thesis by (simp add: push_bit_eq_mult mask_eq_exp_minus_1)
qed

lemma ones_truncated_eq:
  assumes "s \<le> e" and "s < LENGTH('a)"
  shows "ones_truncated s e = Some (mask e AND NOT (mask s) :: 'a::len word)"
proof (cases "LENGTH('a) \<le> e")
  case True
  have "NOT (mask s) = (mask e AND NOT (mask s) :: 'a word)"
    using True by (auto intro!: bit_word_eqI simp: bit_simps)
  with True show ?thesis using assms neg_push_bit [of s, where 'a = 'a]
    by (simp add: ones_truncated_def shl_def)
next
  case False
  have m: "(mask s :: 'a word) = mask e AND mask s"
    using assms False by (auto intro!: bit_word_eqI simp: bit_simps)
  have "(mask e :: 'a word) = (mask e AND NOT (mask s)) OR mask s"
    using assms False by (auto intro!: bit_word_eqI simp: bit_simps)
  also have "\<dots> = (mask e AND NOT (mask s)) + mask s"
    by (rule disjunctive_add [symmetric]) (auto simp: bit_simps)
  finally have "(mask e AND NOT (mask s) :: 'a word) = mask e - mask s" by (simp add: algebra_simps)
  also have "\<dots> = push_bit e 1 - push_bit s 1"
    by (simp add: push_bit_eq_mult mask_eq_exp_minus_1)
  finally show ?thesis using assms False
    by (simp add: ones_truncated_def shl_def)
qed

lemma ones_zero_eq: "n < LENGTH('a) \<Longrightarrow> ones 0 n = Some (mask n :: 'a::len word)"
  using ones_truncated_eq [of 0 n, where 'a = 'a] by (simp add: ones_def)

lemma word_trailing_zeros_first:
  fixes w :: "'a::len word"
  shows "word_trailing_zeros w \<le> LENGTH('a)"
    and "i < word_trailing_zeros w \<Longrightarrow> \<not> bit w i"
    and "word_trailing_zeros w < LENGTH('a) \<Longrightarrow> bit w (word_trailing_zeros w)"
proof -
  let ?tw = "takeWhile (\<lambda>i. \<not> bit w i) [0..<LENGTH('a)]"
  show le: "word_trailing_zeros w \<le> LENGTH('a)"
    using length_takeWhile_le [of "\<lambda>i. \<not> bit w i" "[0..<LENGTH('a)]"]
    by (simp add: word_trailing_zeros_def)
  show "\<not> bit w i" if "i < word_trailing_zeros w"
  proof -
    have "i < length ?tw" using that by (simp only: word_trailing_zeros_def)
    then have "?tw ! i \<in> set ?tw" by (rule nth_mem)
    then have "\<not> bit w (?tw ! i)" by (blast dest: set_takeWhileD)
    moreover have "?tw ! i = [0..<LENGTH('a)] ! i" using \<open>i < length ?tw\<close> by (rule takeWhile_nth)
    moreover have "i < LENGTH('a)" using that le by simp
    ultimately show ?thesis by simp
  qed
  show "bit w (word_trailing_zeros w)" if "word_trailing_zeros w < LENGTH('a)"
    using that nth_length_takeWhile [of "\<lambda>i. \<not> bit w i" "[0..<LENGTH('a)]"]
    by (simp add: word_trailing_zeros_def)
qed

lemma word_trailing_zeros_eqI:
  fixes w :: "'a::len word"
  assumes "bit w k" and "\<And>i. i < k \<Longrightarrow> \<not> bit w i"
  shows "word_trailing_zeros w = k"
  using assms word_trailing_zeros_first [where w = w]
  by (metis bit_imp_le_length linorder_neqE_nat le_trans not_less)

lemma word_trailing_zeros_0 [simp]: "word_trailing_zeros (0 :: 'a::len word) = LENGTH('a)"
  by (simp add: word_trailing_zeros_def takeWhile_eq_all_conv [THEN iffD2])

section \<open>Single bits\<close>

lemma get_bit_iff [simp]: "get_bit w i \<longleftrightarrow> bit w i"
  by (auto simp: get_bit_def and_exp_eq_0_iff_not_bit dest: bit_imp_le_length)

lemma bit_set_bit' [simp]: "bit (set_bit' w i) j \<longleftrightarrow> bit w j \<or> (i = j \<and> i < LENGTH('a))"
  for w :: "'a::len word"
  by (auto simp: set_bit'_def bit_simps)

lemma bit_clear_bit [simp]: "bit (clear_bit w i) j \<longleftrightarrow> bit w j \<and> i \<noteq> j"
  for w :: "'a::len word"
  by (auto simp: clear_bit_def bit_simps dest: bit_imp_le_length)

section \<open>What the operations compute\<close>

lemma bit_scan_forward_eq:
  fixes w :: "'a::len word"
  assumes "st < LENGTH('a)"
  shows "bit_scan_forward w st = Some (word_trailing_zeros (w AND NOT (mask st)))"
  using assms by (simp add: bit_scan_forward_def ones_zero_eq)

lemma bit_scan_forward_first:
  fixes w :: "'a::len word"
  shows "\<exists>r. bit_scan_forward w start = Some r \<and> r \<le> LENGTH('a) \<and>
     (r < LENGTH('a) \<longrightarrow> start \<le> r \<and> bit w r) \<and> (\<forall>i. start \<le> i \<and> i < r \<longrightarrow> \<not> bit w i)"
proof (cases "start < LENGTH('a)")
  case True
  let ?v = "w AND NOT (mask start)"
  have v: "bit ?v i \<longleftrightarrow> start \<le> i \<and> bit w i" for i
    by (auto simp: bit_simps dest: bit_imp_le_length)
  note tz = word_trailing_zeros_first [where w = ?v]
  have "word_trailing_zeros ?v < LENGTH('a) \<longrightarrow> start \<le> word_trailing_zeros ?v \<and> bit w (word_trailing_zeros ?v)"
    using tz(3) v by blast
  moreover have "\<forall>i. start \<le> i \<and> i < word_trailing_zeros ?v \<longrightarrow> \<not> bit w i"
    using tz(2) v by blast
  ultimately show ?thesis using True tz(1) by (simp add: bit_scan_forward_eq)
next
  case False
  then show ?thesis by (auto simp: bit_scan_forward_def)
qed

text \<open>C39: \<open>bit_scan_forward\<close> returns the position of the lowest one at or above
  \<open>start\<close>, and the width of the type when there is none, for every \<open>start\<close>.\<close>

theorem bit_scan_forward_Least:
  fixes w :: "'a::len word"
  shows "bit_scan_forward w start =
    Some (if \<exists>i\<ge>start. bit w i then LEAST i. start \<le> i \<and> bit w i else LENGTH('a))"
proof -
  obtain r where r: "bit_scan_forward w start = Some r" "r \<le> LENGTH('a)"
    "r < LENGTH('a) \<longrightarrow> start \<le> r \<and> bit w r" "\<forall>i. start \<le> i \<and> i < r \<longrightarrow> \<not> bit w i"
    using bit_scan_forward_first by blast
  show ?thesis
  proof (cases "\<exists>i\<ge>start. bit w i")
    case True
    then have "r < LENGTH('a)" using r(4) by (meson bit_imp_le_length less_le_trans not_le)
    then have "(LEAST i. start \<le> i \<and> bit w i) = r"
      using r(3,4) by (intro Least_equality) (auto simp: not_le [symmetric])
    with True r(1) show ?thesis by simp
  next
    case False
    then have "r = LENGTH('a)" using r(2,3) by (auto simp: le_less)
    with False r(1) show ?thesis by (simp only: if_False)
  qed
qed

text \<open>\<open>ones_truncated(start..end)\<close> sets exactly the bits of the range that the type has,
  for a range that starts inside the type.\<close>

theorem ones_truncated_bits:
  assumes "start \<le> end'" and "start < LENGTH('a::len)"
  shows "\<exists>m. ones_truncated start end' = Some (m :: 'a word) \<and>
    (\<forall>i. bit m i \<longleftrightarrow> start \<le> i \<and> i < end' \<and> i < LENGTH('a))"
  using ones_truncated_eq [OF assms] by (auto simp: bit_simps)

theorem ones_truncated_bits_witness:
  "\<exists>m. ones_truncated 2 9 = Some (m :: 8 word) \<and>
    (\<forall>i. bit m i \<longleftrightarrow> 2 \<le> i \<and> i < 9 \<and> i < 8)"
  using ones_truncated_bits [where 'a = 8, of 2 9] by simp


lemma take_bit_unat [simp]: "take_bit LENGTH('a) (unat x) = unat (x :: 'a::len word)"
  by (rule take_bit_nat_eq_self) simp

lemma unat_and_not_mask:
  fixes x :: "'a::len word"
  shows "unat (x AND NOT (mask n)) = unat x - unat x mod 2 ^ n"
proof -
  have "x AND NOT (mask n) = push_bit n (drop_bit n x)"
    by (rule bit_word_eqI) (auto simp: bit_simps)
  then have "unat (x AND NOT (mask n)) = take_bit LENGTH('a) (push_bit n (drop_bit n (unat x)))"
    by (simp add: unsigned_push_bit_eq unsigned_drop_bit_eq)
  also have "push_bit n (drop_bit n (unat x)) = unat x - unat x mod 2 ^ n"
    by (simp add: push_bit_eq_mult drop_bit_eq_div minus_mod_eq_div_mult)
  also have "take_bit LENGTH('a) (unat x - unat x mod 2 ^ n) = unat x - unat x mod 2 ^ n"
    by (rule take_bit_nat_eq_self) (meson diff_le_self le_less_trans unsigned_less)
  finally show ?thesis .
qed

lemma checked_ceil_fix_wide:
  fixes w :: "'a::len word"
  assumes fp: "LENGTH('a) \<le> fp"
  shows "checked_ceil_fix w fp = Some (if round_up (2 ^ fp) (unat w) < 2 ^ LENGTH('a)
    then Some (word_of_nat (round_up (2 ^ fp) (unat w))) else None)"
proof (cases "w = 0")
  case True
  with fp show ?thesis by (simp add: checked_ceil_fix_def round_up_id)
next
  case False
  then have "0 < unat w" by (simp add: unat_gt_0)
  then have "0 < round_up (2 ^ fp) (unat w)" using round_up_ge [of "2 ^ fp" "unat w"] by simp
  then have "2 ^ fp \<le> round_up (2 ^ fp) (unat w)" by (metis dvd_imp_le round_up_dvd)
  moreover have "(2::nat) ^ LENGTH('a) \<le> 2 ^ fp" using fp by (rule power_increasing) simp
  ultimately have "\<not> round_up (2 ^ fp) (unat w) < 2 ^ LENGTH('a)" by linarith
  with False fp show ?thesis by (simp add: checked_ceil_fix_def)
qed

text \<open>C38: \<open>checked_ceil_fix\<close> of an unsigned type rounds up to a multiple of \<open>2 ^ fp\<close> and
  returns \<open>None\<close> exactly when the result does not fit the type.\<close>

theorem checked_ceil_fix_round_up:
  fixes w :: "'a::len word"
  shows "checked_ceil_fix w fp =
    Some (if round_up (2 ^ fp) (unat w) < 2 ^ LENGTH('a)
          then Some (word_of_nat (round_up (2 ^ fp) (unat w))) else None)"
proof (cases "LENGTH('a) \<le> fp")
  case True
  then show ?thesis by (rule checked_ceil_fix_wide)
next
  case False
  let ?m = "mask fp :: 'a word" and ?n = "unat w + (2 ^ fp - 1)"
  have "?m = word_of_nat (2 ^ fp - 1)" by (simp add: of_nat_diff mask_eq_exp_minus_1)
  moreover have "(2::nat) ^ fp - 1 < 2 ^ LENGTH('a)"
    using False by (meson diff_less le_less_trans less_imp_le_nat not_le power_strict_increasing_iff
        one_less_numeral_iff semiring_norm(76) diff_le_self)
  ultimately have m: "unat ?m = 2 ^ fp - 1" by (simp only: unat_of_nat mod_less)
  have ru: "round_up (2 ^ fp) (unat w) = ?n - ?n mod 2 ^ fp" by (simp add: round_up_def)
  show ?thesis
  proof (cases "?n < 2 ^ LENGTH('a)")
    case True
    then have "unat (w + ?m) = ?n" using m by (simp add: unat_word_ariths)
    then have u: "unat ((w + ?m) AND NOT ?m) = round_up (2 ^ fp) (unat w)"
      by (simp add: unat_and_not_mask ru)
    then have "(w + ?m) AND NOT ?m = word_of_nat (round_up (2 ^ fp) (unat w))"
      unfolding u [symmetric] by simp
    moreover have "round_up (2 ^ fp) (unat w) < 2 ^ LENGTH('a)" unfolding u [symmetric] by simp
    ultimately show ?thesis using True False m
      by (simp add: checked_ceil_fix_def ones_zero_eq checked_add_word_def)
  next
    case over: False
    have "(2::nat) ^ fp dvd 2 ^ LENGTH('a)" using False by (simp add: le_imp_power_dvd)
    then obtain k where k: "(2::nat) ^ LENGTH('a) = 2 ^ fp * k" by (rule dvdE)
    have "k \<le> ?n div 2 ^ fp" using over k by (simp add: less_eq_div_iff_mult_less_eq mult.commute)
    then have "2 ^ fp * k \<le> 2 ^ fp * (?n div 2 ^ fp)" by (rule mult_le_mono2)
    then have "2 ^ LENGTH('a) \<le> round_up (2 ^ fp) (unat w)"
      by (simp add: ru k minus_mod_eq_mult_div)
    then show ?thesis using over False m
      by (simp add: checked_ceil_fix_def ones_zero_eq checked_add_word_def)
  qed
qed

text \<open>On unsigned types \<open>extract_u32(start..end)\<close> is the field \<open>start..end\<close> of the
  value, modulo \<open>2 ^ 32\<close>.\<close>

theorem extract_u32_value:
  fixes w :: "'a::len word"
  assumes "start \<le> end'" and "start < LENGTH('a)"
  shows "\<exists>r. extract_u32 w start end' = Some r \<and>
    unat r = (unat w div 2 ^ start mod 2 ^ (end' - start)) mod 2 ^ 32"
proof -
  have "drop_bit start (w AND (mask end' AND NOT (mask start))) = take_bit (end' - start) (drop_bit start w)"
    by (rule bit_word_eqI) (auto simp: bit_simps dest: bit_imp_le_length)
  moreover have "unat (take_bit (end' - start) (drop_bit start w)) = unat w div 2 ^ start mod 2 ^ (end' - start)"
    by (subst unsigned_take_bit_eq, subst unsigned_drop_bit_eq)
      (simp only: take_bit_unat drop_bit_eq_div take_bit_eq_mod [of _ "unat w div _"])
  ultimately show ?thesis using assms
    by (simp add: extract_u32_def ones_truncated_eq unsigned_ucast_eq take_bit_eq_mod del: One_nat_def)
qed

theorem extract_u32_value_witness:
  "\<exists>r. extract_u32 (0xabcd :: 16 word) 4 12 = Some r \<and> unat r = 0xbc"
  using extract_u32_value [of 4 12 "0xabcd :: 16 word"] by simp


text \<open>C40: on signed types \<open>extract_u32(start..end)\<close> faults exactly when the range is reversed or starts past the type.
  Otherwise bit \<open>i\<close> of the result is bit \<open>start + i\<close> of the sign-extended value, for \<open>i\<close> within the field; but a field that
  reaches the end of the type does not stop at its width: copies of the sign bit go on up to bit 31.\<close>

theorem extract_u32_signed_bits:
  fixes w :: "'a::len word"
  shows "case extract_u32_signed w start end' of
    None \<Rightarrow> end' < start \<or> LENGTH('a) \<le> start
  | Some r \<Rightarrow> start \<le> end' \<and> start < LENGTH('a) \<and>
      (\<forall>i. bit r i \<longleftrightarrow> i < 32 \<and> bit (sint w) (start + i) \<and> (i < end' - start \<or> LENGTH('a) \<le> end'))"
proof (cases "start \<le> end' \<and> start < LENGTH('a)")
  case True
  let ?v = "w AND (mask end' AND NOT (mask start))"
  have "bit (scast (signed_drop_bit start ?v) :: 32 word) i \<longleftrightarrow>
      i < 32 \<and> bit (sint w) (start + i) \<and> (i < end' - start \<or> LENGTH('a) \<le> end')" for i
  proof -
    have "bit (scast (signed_drop_bit start ?v) :: 32 word) i \<longleftrightarrow> i < 32 \<and> bit (sint ?v) (start + i)"
      by (simp add: sint_signed_drop_bit_eq scast_eq bit_simps)
    moreover have "bit (sint x) j \<longleftrightarrow> bit x (min j (LENGTH('a) - 1))" for x :: "'a word" and j
      by (auto simp: bit_sint_iff min_def bit_imp_le_length)
    moreover have "bit ?v (min (start + i) (LENGTH('a) - 1)) \<longleftrightarrow> bit w (min (start + i) (LENGTH('a) - 1)) \<and> (i < end' - start \<or> LENGTH('a) \<le> end')"
      using True by (auto simp: bit_simps min_def)
    ultimately show ?thesis by simp
  qed
  then show ?thesis using True by (simp add: extract_u32_signed_def ones_truncated_eq)
next
  case False
  then have "ones_truncated start end' = (None :: 'a word option)" by (auto simp: ones_truncated_def shl_def)
  then show ?thesis using False by (auto simp: extract_u32_signed_def)
qed

end
