(* ===== verification/Size_Class.thy ===== *)
theory Size_Class
  imports Bin_Integer
begin

text \<open>
  The two-level segregation of block sizes (crates/rlsf/src/tlsf.rs): the constants of the crate,
  the type parameters \<open>FLLEN\<close> and \<open>SLLEN\<close> of \<open>Tlsf\<close> as a record, and the functions
  \<open>map_floor\<close>, \<open>map_ceil\<close> and \<open>map_ceil_and_unmap\<close>, which compute on the bits of a
  size.

  The reference definition is \<open>list_min\<close>, the smallest size of a free list, scaled by
  \<open>SLLEN\<close> so that it is an integer. The lemmas relate the bit computations to it and the locale
  \<open>size_segregation\<close> states the contract that allocation relies on.
\<close>

unbundle bit_operations_syntax

section \<open>Constants and parameters\<close>

definition GRANULARITY :: usize where
  "GRANULARITY = 8 * 4"

definition GRANULARITY_LOG2 :: nat where
  "GRANULARITY_LOG2 = trailing_zeros GRANULARITY"

record cfg =
  FLLEN :: nat
  SLLEN :: nat

definition SLI :: "cfg \<Rightarrow> nat" where
  "SLI c = trailing_zeros (SLLEN c)"

text \<open>\<open>VALID\<close> and \<open>SLI\<close> are evaluated at compile time. The integer types have at most 128
  bits (\<open>u128\<close>), and a bitmap type holds at least as many bits as its list has entries.\<close>

definition cfg_ok :: "cfg \<Rightarrow> bool" where
  "cfg_ok c \<longleftrightarrow> FLLEN c \<noteq> 0 \<and> SLLEN c \<noteq> 0 \<and> FLLEN c \<le> 128 \<and> SLLEN c \<le> 128 \<and>
     is_power_of_two (SLLEN c)"

definition MAX_POOL_SIZE :: "cfg \<Rightarrow> usize option" where
  "MAX_POOL_SIZE c = (let shift = GRANULARITY_LOG2 + FLLEN c in
     if shift < USIZE_BITS then Some (2 ^ shift) else None)"

section \<open>The mapping functions\<close>

definition map_floor :: "cfg \<Rightarrow> usize \<Rightarrow> (nat \<times> nat) option fallible" where
  "map_floor c sz = do {
     debug_assert (GRANULARITY \<le> sz);
     debug_assert (sz mod GRANULARITY = 0);
     fl \<leftarrow> sub_usize (USIZE_BITS - GRANULARITY_LOG2 - 1) (leading_zeros sz);
     let sl = rotate_right sz (wrapping_sub_u32 (fl + GRANULARITY_LOG2) (SLI c));
     debug_assert (drop_bit (SLI c) sl AND 1 = 1);
     Some (if FLLEN c \<le> fl then None else Some (fl, sl AND (SLLEN c - 1)))
   }"

definition map_ceil :: "cfg \<Rightarrow> usize \<Rightarrow> (nat \<times> nat) option fallible" where
  "map_ceil c sz = do {
     debug_assert (GRANULARITY \<le> sz);
     debug_assert (sz mod GRANULARITY = 0);
     fl \<leftarrow> sub_usize (USIZE_BITS - GRANULARITY_LOG2 - 1) (leading_zeros sz);
     let sl = rotate_right sz (wrapping_sub_u32 (fl + GRANULARITY_LOG2) (SLI c));
     debug_assert (drop_bit (SLI c) sl AND 1 = 1);
     lim \<leftarrow> shl1 (SLI c + 1);
     let sl = (sl AND (SLLEN c - 1)) + (if lim \<le> sl then 1 else 0);
     let fl = fl + drop_bit (SLI c) sl;
     Some (if FLLEN c \<le> fl then None else Some (fl, sl AND (SLLEN c - 1)))
   }"

definition MAX_MAP_CEIL_AND_UNMAP_INPUT :: "cfg \<Rightarrow> usize" where
  "MAX_MAP_CEIL_AND_UNMAP_INPUT c =
     (let max1 = not_usize (drop_bit (SLI c + 1) (USIZE_LIM - 1)) in
      if FLLEN c - 1 < USIZE_BITS - GRANULARITY_LOG2 - 1
      then drop_bit ((USIZE_BITS - GRANULARITY_LOG2 - 1) - (FLLEN c - 1)) max1
      else max1)"

definition map_ceil_and_unmap :: "cfg \<Rightarrow> usize \<Rightarrow> usize option fallible" where
  "map_ceil_and_unmap c sz = do {
     debug_assert (GRANULARITY \<le> sz);
     debug_assert (sz mod GRANULARITY = 0);
     if MAX_MAP_CEIL_AND_UNMAP_INPUT c < sz then Some None
     else do {
       fl \<leftarrow> sub_usize (USIZE_BITS - GRANULARITY_LOG2 - 1) (leading_zeros sz);
       list_min_size \<leftarrow>
         (if GRANULARITY_LOG2 < SLI c \<and> fl < SLI c - GRANULARITY_LOG2 then Some sz
          else do {
            shift \<leftarrow> sub_usize (fl + GRANULARITY_LOG2) (SLI c);
            p \<leftarrow> shl1 shift;
            s \<leftarrow> add_usize sz (p - 1);
            Some (s AND not_usize (p - 1))
          });
       Some (Some list_min_size)
     }
   }"

text \<open>Reference: the least size of list \<open>(fl, sl)\<close>, multiplied by \<open>SLLEN\<close>, and membership.\<close>

definition list_min :: "cfg \<Rightarrow> nat \<Rightarrow> nat \<Rightarrow> nat" where
  "list_min c fl sl = (SLLEN c + sl) * 2 ^ (fl + 5)"

definition in_list :: "cfg \<Rightarrow> nat \<Rightarrow> nat \<Rightarrow> nat \<Rightarrow> bool" where
  "in_list c fl sl x \<longleftrightarrow>
     list_min c fl sl \<le> x * SLLEN c \<and> x * SLLEN c < list_min c fl sl + 2 ^ (fl + 5)"

section \<open>Basic facts\<close>

lemma GRANULARITY_32 [simp]: "GRANULARITY = 32"
  by (simp add: GRANULARITY_def)

lemma GRANULARITY_LOG2_5 [simp]: "GRANULARITY_LOG2 = 5"
  using trailing_zeros_pow2 [of 5] by (simp add: GRANULARITY_LOG2_def)

lemma cfg_ok_SLI:
  assumes "cfg_ok c"
  shows "SLLEN c = 2 ^ SLI c" and "SLI c \<le> 7"
proof -
  obtain k where k: "SLLEN c = 2 ^ k"
    using assms is_power_of_two_obtain by (auto simp: cfg_ok_def)
  then have "(2::nat) ^ k \<le> 2 ^ 7" using assms by (simp add: cfg_ok_def)
  then have "k \<le> 7" by (rule power_le_imp_le_exp [rotated]) simp
  with k show "SLLEN c = 2 ^ SLI c" "SLI c \<le> 7"
    by (simp_all add: SLI_def trailing_zeros_pow2)
qed

lemma cfg_ok_pos [simp]: "cfg_ok c \<Longrightarrow> 0 < SLLEN c" "cfg_ok c \<Longrightarrow> 0 < FLLEN c"
  by (simp_all add: cfg_ok_def)

text \<open>The order of the lists is the order of their least sizes.\<close>

lemma list_min_less:
  assumes "fl < fl' \<or> fl = fl' \<and> sl < sl'" and "sl < SLLEN c"
  shows "list_min c fl sl + 2 ^ (fl + 5) \<le> list_min c fl' sl'"
proof (cases "fl = fl'")
  case True
  with assms(1) have "(SLLEN c + sl + 1) * 2 ^ (fl + 5) \<le> (SLLEN c + sl') * 2 ^ (fl + 5)"
    by (intro mult_le_mono1) simp
  with True show ?thesis by (simp add: list_min_def algebra_simps)
next
  case False
  with assms(1) have "Suc fl \<le> fl'" by simp
  then have pow: "(2::nat) ^ (Suc fl + 5) \<le> 2 ^ (fl' + 5)" by (intro power_increasing) auto
  have "(SLLEN c + sl + 1) * 2 ^ (fl + 5) \<le> (2 * SLLEN c) * 2 ^ (fl + 5)"
    using assms(2) by (intro mult_le_mono1) simp
  also have "\<dots> = SLLEN c * 2 ^ (Suc fl + 5)" by (simp add: power_add)
  also have "\<dots> \<le> (SLLEN c + sl') * 2 ^ (fl' + 5)" using pow by (intro mult_le_mono) auto
  finally show ?thesis by (simp add: list_min_def algebra_simps)
qed

lemma list_min_mono:
  assumes "fl < fl' \<or> fl = fl' \<and> sl \<le> sl'" and "sl < SLLEN c"
  shows "list_min c fl sl \<le> list_min c fl' sl'"
  using assms list_min_less [of fl fl' sl sl' c] by (cases "fl = fl' \<and> sl = sl'") auto

lemma in_list_unique:
  assumes "in_list c fl sl x" and "in_list c fl' sl' x" and "sl < SLLEN c" and "sl' < SLLEN c"
  shows "fl = fl' \<and> sl = sl'"
proof (rule ccontr)
  assume "\<not> (fl = fl' \<and> sl = sl')"
  then consider "fl < fl' \<or> fl = fl' \<and> sl < sl'" | "fl' < fl \<or> fl' = fl \<and> sl' < sl" by linarith
  then show False
    using list_min_less [of fl fl' sl sl' c] list_min_less [of fl' fl sl' sl c] assms
    by cases (auto simp: in_list_def)
qed

section \<open>The rotation computes the digits below the leading one\<close>

lemma rotate_right_below:
  assumes "n < 64" and "x < 2 ^ 64"
  shows "rotate_right x n = x div 2 ^ n + (x mod 2 ^ n) * 2 ^ (64 - n)"
proof -
  have "x div 2 ^ n < 2 ^ (64 - n)"
    using assms by (simp add: less_mult_imp_div_less flip: power_add)
  then have "drop_bit n x = take_bit (64 - n) (drop_bit n x)"
    by (simp add: take_bit_nat_eq_self drop_bit_eq_div)
  then have b: "\<not> bit (drop_bit n x) i" if "64 - n \<le> i" for i
    using that by (metis bit_take_bit_iff not_less)
  have "drop_bit n x OR push_bit (64 - n) (take_bit n x) = drop_bit n x + push_bit (64 - n) (take_bit n x)"
    by (intro disjunctive_add [symmetric]) (auto simp: bit_push_bit_iff b)
  then show ?thesis using assms
    by (simp add: rotate_right_def USIZE_BITS_def drop_bit_eq_div push_bit_eq_mult take_bit_eq_mod)
qed

text \<open>For \<open>2 ^ e \<le> x < 2 ^ (e + 1)\<close> and \<open>k = SLI\<close>, the rotated value is \<open>q + r * 2 ^ j\<close>:
  \<open>q\<close> holds the leading one and the \<open>k\<close> digits after it, \<open>r\<close> the digits that
  underflow.\<close>

lemma rotate_digits:
  assumes "2 ^ e \<le> x" "x < 2 ^ Suc e" "5 \<le> e" "e < 64" "k \<le> 7"
  obtains q r j where "rotate_right x (wrapping_sub_u32 e k) = q + r * 2 ^ j"
    and "k < j" and "2 ^ k \<le> q" and "q < 2 ^ Suc k"
    and "q * 2 ^ e \<le> x * 2 ^ k" and "x * 2 ^ k < (q + 1) * 2 ^ e"
    and "0 < r \<longleftrightarrow> q * 2 ^ e < x * 2 ^ k"
proof -
  have "(2::nat) ^ Suc e \<le> 2 ^ 64" using assms(4) by (intro power_increasing) simp_all
  with assms(2) have x64: "x < 2 ^ 64" by linarith
  show thesis
  proof (cases "k \<le> e")
    case True
    define n where "n = e - k"
    have e: "e = n + k" and n: "n < 64" using True assms(4) by (simp_all add: n_def)
    have "e + (2 ^ 32 - k) = n + 2 ^ 32" using e assms(5) by simp
    then have "wrapping_sub_u32 e k = n" using n by (simp add: wrapping_sub_u32_def)
    then have rot: "rotate_right x (wrapping_sub_u32 e k) = x div 2 ^ n + (x mod 2 ^ n) * 2 ^ (64 - n)"
      using rotate_right_below [OF n x64] by simp
    let ?q = "x div 2 ^ n" and ?r = "x mod 2 ^ n"
    have x: "x = ?q * 2 ^ n + ?r" by (rule div_mult_mod_eq [symmetric])
    have r: "?r < 2 ^ n" by simp
    have lo: "2 ^ k \<le> ?q" using assms(1) e
      by (simp add: less_eq_div_iff_mult_less_eq power_add mult.commute)
    have hi: "?q < 2 ^ Suc k" using assms(2) e
      by (simp add: less_mult_imp_div_less power_add mult.commute mult.left_commute)
    have "x * 2 ^ k = (?q * 2 ^ n + ?r) * 2 ^ k" by (simp only: x [symmetric])
    then have xk: "x * 2 ^ k = ?q * 2 ^ e + ?r * 2 ^ k"
      by (simp only: e power_add add_mult_distrib mult.assoc)
    have "?r * 2 ^ k < 2 ^ e" using r by (simp add: e power_add)
    then show thesis using that [OF rot _ lo hi] xk e assms(4) n by auto
  next
    case False
    define d where "d = k - e"
    have k: "k = e + d" and d: "0 < d" "d \<le> 2" using False assms(3,5) by (simp_all add: d_def)
    have "e + (2 ^ 32 - k) = 2 ^ 32 - d" using k assms(5) by simp
    then have w: "wrapping_sub_u32 e k = 2 ^ 32 - d" using d by (simp add: wrapping_sub_u32_def)
    have "d = 1 \<or> d = 2" using d by linarith
    then have m: "(2 ^ 32 - d) mod 64 = 64 - d" by auto
    have "(2::nat) ^ Suc e \<le> 2 ^ (64 - d)"
      using k d assms(5) by (intro power_increasing) simp_all
    with assms(2) have small: "x < 2 ^ (64 - d)" by linarith
    have "rotate_right x (wrapping_sub_u32 e k) = rotate_right x (64 - d)"
      using m d by (simp add: w rotate_right_def USIZE_BITS_def)
    also have "\<dots> = x * 2 ^ d" using rotate_right_below [OF _ x64, of "64 - d"] small d by simp
    finally have rot: "rotate_right x (wrapping_sub_u32 e k) = x * 2 ^ d + 0 * 2 ^ Suc k" by simp
    show thesis using that [OF rot] assms(1,2) k by (simp add: power_add algebra_simps)
  qed
qed

lemma and_low_mask: "x AND (2 ^ k - 1) = x mod (2::nat) ^ k"
  by (simp only: mask_eq_exp_minus_1 [symmetric] take_bit_eq_mask [symmetric] take_bit_eq_mod)

definition block_size :: "usize \<Rightarrow> bool" where
  "block_size x \<longleftrightarrow> 32 \<le> x \<and> 32 dvd x \<and> x < USIZE_LIM"

lemma size_log:
  assumes "block_size x"
  obtains e where "2 ^ e \<le> x" "x < 2 ^ Suc e" "5 \<le> e" "e < 64"
proof -
  obtain e where e: "2 ^ e \<le> x" "x < 2 ^ Suc e"
    using assms ex_log [of x] by (auto simp: block_size_def)
  have "(2::nat) ^ 5 < 2 ^ Suc e" using assms e by (simp add: block_size_def)
  then have "5 < Suc e" by (rule power_less_imp_less_exp [rotated]) simp
  moreover have "(2::nat) ^ e < 2 ^ 64" using assms e by (simp add: block_size_def USIZE_LIM_def)
  then have "e < 64" by (rule power_less_imp_less_exp [rotated]) simp
  ultimately show thesis using that e by simp
qed

text \<open>Reading the digits off the rotated word: the leading one, the digits of the second level below
it, and whether any lower digit is set.\<close>

lemma rotated_digits:
  fixes q r :: nat
  assumes j: "k < j" and q: "2 ^ k \<le> q" "q < 2 ^ Suc k"
  shows "drop_bit k (q + r * 2 ^ j) AND 1 = 1" and "(q + r * 2 ^ j) AND (2 ^ k - 1) = q - 2 ^ k"
    and "2 ^ (k + 1) \<le> q + r * 2 ^ j \<longleftrightarrow> 0 < r"
proof -
  let ?v = "q + r * 2 ^ j"
  obtain i where i: "j = Suc k + i" using j by (metis less_iff_Suc_add add_Suc)
  have dvd: "2 ^ k dvd r * 2 ^ j" and top: "(r * 2 ^ j) div 2 ^ k = 2 * (r * 2 ^ i)"
    by (simp_all add: i power_add)
  have vdiv: "?v div 2 ^ k = q div 2 ^ k + 2 * (r * 2 ^ i)"
    by (simp only: div_plus_div_distrib_dvd_right [OF dvd] top)
  have "q div 2 ^ k = 1" using q by (simp add: div_nat_eqI)
  with vdiv show "drop_bit k ?v AND 1 = 1" by (simp add: drop_bit_eq_div and_one_eq)
  have "?v AND (2 ^ k - 1) = ?v mod 2 ^ k" by (rule and_low_mask)
  also have "\<dots> = q mod 2 ^ k" by (metis dvd mod_add_right_eq mod_0_imp_dvd add_0_right dvd_imp_mod_0)
  also have "\<dots> = q - 2 ^ k" using q by (simp add: mod_if)
  finally show "?v AND (2 ^ k - 1) = q - 2 ^ k" .
  show "2 ^ (k + 1) \<le> ?v \<longleftrightarrow> 0 < r"
  proof (cases "0 < r")
    case True
    have "(2::nat) ^ (k + 1) \<le> 2 ^ j" using j by (intro power_increasing) simp_all
    also have "\<dots> \<le> r * 2 ^ j" using True by simp
    finally show ?thesis using True by simp
  qed (use q in simp)
qed

lemma map_digits:
  assumes "cfg_ok c" and "block_size x"
  obtains e q and r :: nat where "2 ^ e \<le> x" "x < 2 ^ Suc e" "5 \<le> e" "e < 64"
    and "SLLEN c \<le> q" and "q < 2 * SLLEN c"
    and "q * 2 ^ e \<le> x * SLLEN c" and "x * SLLEN c < (q + 1) * 2 ^ e"
    and "0 < r \<longleftrightarrow> q * 2 ^ e < x * SLLEN c"
    and "map_floor c x = Some (if FLLEN c \<le> e - 5 then None else Some (e - 5, q - SLLEN c))"
    and "map_ceil c x =
      Some (let s = q - SLLEN c + of_bool (0 < r); fl = e - 5 + s div SLLEN c
            in if FLLEN c \<le> fl then None else Some (fl, s mod SLLEN c))"
proof -
  note k = cfg_ok_SLI [OF assms(1)]
  obtain e where e: "2 ^ e \<le> x" "x < 2 ^ Suc e" "5 \<le> e" "e < 64" by (rule size_log [OF assms(2)])
  obtain q r j where rot: "rotate_right x (wrapping_sub_u32 e (SLI c)) = q + r * 2 ^ j"
    and j: "SLI c < j" and q: "2 ^ SLI c \<le> q" "q < 2 ^ Suc (SLI c)"
    and b: "q * 2 ^ e \<le> x * 2 ^ SLI c" "x * 2 ^ SLI c < (q + 1) * 2 ^ e"
    and r: "0 < r \<longleftrightarrow> q * 2 ^ e < x * 2 ^ SLI c"
    by (rule rotate_digits [OF e k(2)])
  have lz: "leading_zeros x = 63 - e" by (rule leading_zeros_eq [OF e(1,2)])
  have fl: "sub_usize (USIZE_BITS - GRANULARITY_LOG2 - 1) (leading_zeros x) = Some (e - 5)"
    using lz e by (simp add: sub_usize_def USIZE_BITS_def)
  note lead = rotated_digits(1) [OF j q] and low = rotated_digits(2) [OF j q, folded k(1)] and ge = rotated_digits(3) [OF j q]
  have guards: "GRANULARITY \<le> x" "x mod GRANULARITY = 0"
    using assms(2) by (simp_all add: block_size_def)
  have floor: "map_floor c x = Some (if FLLEN c \<le> e - 5 then None else Some (e - 5, q - SLLEN c))"
    unfolding map_floor_def fl using guards e rot lead low k
    by (simp add: Let_def del: GRANULARITY_32)
  have "shl1 (SLI c + 1) = Some (2 ^ (SLI c + 1))" using k(2) by (simp add: shl1_def USIZE_BITS_def)
  then have ceil: "map_ceil c x =
      Some (let s = q - SLLEN c + of_bool (0 < r); fl = e - 5 + s div SLLEN c
            in if FLLEN c \<le> fl then None else Some (fl, s mod SLLEN c))"
    unfolding map_ceil_def fl using guards e rot lead low k(1) ge
    by (simp add: Let_def and_low_mask [simplified] drop_bit_eq_div of_bool_def del: GRANULARITY_32)
  have "SLLEN c \<le> q" "q < 2 * SLLEN c" "q * 2 ^ e \<le> x * SLLEN c"
    "x * SLLEN c < (q + 1) * 2 ^ e" "0 < r \<longleftrightarrow> q * 2 ^ e < x * SLLEN c"
    using q b r k(1) by simp_all
  then show thesis using that [of e q r] e floor ceil by blast
qed

section \<open>What the mapping functions compute\<close>

lemma map_floor_in_list:
  assumes "cfg_ok c" and "block_size x"
  shows "\<exists>r. map_floor c x = Some r \<and>
    (\<forall>fl sl. r = Some (fl, sl) \<longleftrightarrow> fl < FLLEN c \<and> sl < SLLEN c \<and> in_list c fl sl x)"
proof -
  obtain e q and r :: nat where e: "2 ^ e \<le> x" "x < 2 ^ Suc e" "5 \<le> e" "e < 64"
    and q: "SLLEN c \<le> q" "q < 2 * SLLEN c" "q * 2 ^ e \<le> x * SLLEN c" "x * SLLEN c < (q + 1) * 2 ^ e"
    and fl: "map_floor c x = Some (if FLLEN c \<le> e - 5 then None else Some (e - 5, q - SLLEN c))"
    by (rule map_digits [OF assms])
  have mem: "in_list c (e - 5) (q - SLLEN c) x"
    using q e(3) by (simp add: in_list_def list_min_def)
  have sl: "q - SLLEN c < SLLEN c" using q by simp
  have "fl' = e - 5 \<and> sl' = q - SLLEN c" if "in_list c fl' sl' x" "sl' < SLLEN c" for fl' sl'
    using in_list_unique [OF that(1) mem that(2) sl] .
  then have iff: "fl' < FLLEN c \<and> sl' < SLLEN c \<and> in_list c fl' sl' x \<longleftrightarrow>
      e - 5 < FLLEN c \<and> fl' = e - 5 \<and> sl' = q - SLLEN c" for fl' sl'
    using mem sl by blast
  show ?thesis unfolding iff fl by (cases "FLLEN c \<le> e - 5") auto
qed

lemma map_floor_None_iff:
  assumes "cfg_ok c" and "block_size x"
  shows "map_floor c x = Some None \<longleftrightarrow> 2 ^ (FLLEN c + 5) \<le> x"
proof -
  obtain e q and r :: nat where e: "2 ^ e \<le> x" "x < 2 ^ Suc e" "5 \<le> e"
    and fl: "map_floor c x = Some (if FLLEN c \<le> e - 5 then None else Some (e - 5, q - SLLEN c))"
    by (rule map_digits [OF assms])
  show ?thesis
  proof (cases "FLLEN c \<le> e - 5")
    case True
    then have "(2::nat) ^ (FLLEN c + 5) \<le> 2 ^ e" using e(3) by (intro power_increasing) simp_all
    with e(1) have "2 ^ (FLLEN c + 5) \<le> x" by (rule le_trans [rotated])
    with True fl show ?thesis by simp
  next
    case False
    then have "(2::nat) ^ Suc e \<le> 2 ^ (FLLEN c + 5)" by (intro power_increasing) simp_all
    with e(2) have "\<not> 2 ^ (FLLEN c + 5) \<le> x" by linarith
    with False fl show ?thesis by simp
  qed
qed

text \<open>The list that \<open>map_ceil\<close> selects, next to the list that holds \<open>x\<close>: the same one
  where \<open>x\<close> is its least size, its successor otherwise.\<close>

text \<open>The list that follows a list.\<close>

lemma list_min_succ:
  fixes f :: nat
  assumes S: "0 < SLLEN c" and s: "s < SLLEN c"
  defines "fl \<equiv> f + Suc s div SLLEN c" and "sl \<equiv> Suc s mod SLLEN c"
  shows "fl = f \<and> sl = Suc s \<or> fl = Suc f \<and> sl = 0 \<and> Suc s = SLLEN c"
    and "list_min c fl sl = list_min c f s + 2 ^ (f + 5)"
proof -
  show alt: "fl = f \<and> sl = Suc s \<or> fl = Suc f \<and> sl = 0 \<and> Suc s = SLLEN c"
  proof (cases "Suc s = SLLEN c")
    case True
    then show ?thesis using S by (simp add: fl_def sl_def)
  next
    case False
    then have "Suc s < SLLEN c" using s by simp
    then show ?thesis by (simp add: fl_def sl_def)
  qed
  show "list_min c fl sl = list_min c f s + 2 ^ (f + 5)"
  proof (cases "Suc s = SLLEN c")
    case True
    with alt s have "fl = Suc f" "sl = 0" by (auto simp: sl_def)
    with True [symmetric] show ?thesis by (simp add: list_min_def power_add algebra_simps)
  next
    case False
    with alt show ?thesis by (auto simp: list_min_def algebra_simps)
  qed
qed

lemma map_ceil_next:
  assumes "cfg_ok c" and "block_size x"
  obtains fl sl f s where "map_ceil c x = Some (if FLLEN c \<le> fl then None else Some (fl, sl))"
    and "sl < SLLEN c" and "s < SLLEN c" and "x * SLLEN c \<le> list_min c fl sl"
    and "fl = f \<and> sl = s \<and> list_min c f s = x * SLLEN c \<or>
      list_min c f s < x * SLLEN c \<and> list_min c fl sl = list_min c f s + 2 ^ (f + 5) \<and>
      (fl = f \<and> sl = Suc s \<or> fl = Suc f \<and> sl = 0 \<and> Suc s = SLLEN c)"
    and "2 ^ (f + 5) \<le> x" and "x < 2 ^ Suc (f + 5)"
proof -
  obtain e q and r :: nat where e: "2 ^ e \<le> x" "x < 2 ^ Suc e" "5 \<le> e" "e < 64"
    and q: "SLLEN c \<le> q" "q < 2 * SLLEN c" "q * 2 ^ e \<le> x * SLLEN c" "x * SLLEN c < (q + 1) * 2 ^ e"
    and r: "0 < r \<longleftrightarrow> q * 2 ^ e < x * SLLEN c"
    and cl: "map_ceil c x =
      Some (let s = q - SLLEN c + of_bool (0 < r); fl = e - 5 + s div SLLEN c
            in if FLLEN c \<le> fl then None else Some (fl, s mod SLLEN c))"
    by (rule map_digits [OF assms])
  define s where "s = q - SLLEN c"
  define f where "f = e - 5"
  have s: "s < SLLEN c" and e5: "e = f + 5" using q e by (simp_all add: s_def f_def)
  have min: "list_min c f s = q * 2 ^ e" using q(1) by (simp add: list_min_def s_def e5)
  show thesis
  proof (cases "0 < r")
    case False
    then have "map_ceil c x = Some (if FLLEN c \<le> f then None else Some (f, s))"
      using cl s by (simp add: Let_def s_def f_def)
    then show thesis using that [of f s s f] s min r q(3) False e e5 by auto
  next
    case True
    define fl sl where "fl = f + Suc s div SLLEN c" and "sl = Suc s mod SLLEN c"
    have cl': "map_ceil c x = Some (if FLLEN c \<le> fl then None else Some (fl, sl))"
      using cl True by (simp add: Let_def s_def f_def fl_def sl_def)
    have S: "0 < SLLEN c" using assms(1) by simp
    note alt = list_min_succ(1) [OF S s, of f, folded fl_def sl_def]
      and next' = list_min_succ(2) [OF S s, of f, folded fl_def sl_def]
    have "x * SLLEN c \<le> list_min c fl sl" using q(4) by (simp add: next' min e5)
    moreover have "sl < SLLEN c" using assms(1) by (simp add: sl_def)
    moreover have "list_min c f s < x * SLLEN c" using r True min by simp
    ultimately show thesis using that [of fl sl s f] cl' s next' alt e(1,2) unfolding e5 by blast
  qed
qed

lemma ceil_least:
  assumes nxt: "fl = f \<and> sl = s \<and> list_min c f s = x * SLLEN c \<or>
      list_min c f s < x * SLLEN c \<and> list_min c fl sl = list_min c f s + 2 ^ (f + 5) \<and>
      (fl = f \<and> sl = Suc s \<or> fl = Suc f \<and> sl = 0 \<and> Suc s = SLLEN c)"
    and sl': "sl' < SLLEN c" and le: "x * SLLEN c \<le> list_min c fl' sl'"
  shows "fl < fl' \<or> fl = fl' \<and> sl \<le> sl'"
proof (rule ccontr)
  assume "\<not> (fl < fl' \<or> fl = fl' \<and> sl \<le> sl')"
  then have less: "fl' < fl \<or> fl' = fl \<and> sl' < sl" by linarith
  from nxt show False
  proof
    assume "fl = f \<and> sl = s \<and> list_min c f s = x * SLLEN c"
    then have "list_min c fl sl = x * SLLEN c" by simp
    moreover have "0 < (2::nat) ^ (fl' + 5)" by simp
    ultimately show False using list_min_less [OF less sl'] le by linarith
  next
    assume n: "list_min c f s < x * SLLEN c \<and> list_min c fl sl = list_min c f s + 2 ^ (f + 5) \<and>
      (fl = f \<and> sl = Suc s \<or> fl = Suc f \<and> sl = 0 \<and> Suc s = SLLEN c)"
    then have "fl' < f \<or> fl' = f \<and> sl' \<le> s" using less sl' by auto
    then have "list_min c fl' sl' \<le> list_min c f s" using sl' by (rule list_min_mono)
    with n le show False by linarith
  qed
qed

text \<open>The list \<open>map_ceil\<close> returns is the first one whose least size is not below \<open>x\<close>.\<close>

lemma map_ceil_first:
  assumes "cfg_ok c" and "block_size x"
  shows "\<exists>r. map_ceil c x = Some r \<and>
    (\<forall>fl sl. r = Some (fl, sl) \<longleftrightarrow> fl < FLLEN c \<and> sl < SLLEN c \<and> x * SLLEN c \<le> list_min c fl sl \<and>
       (\<forall>fl' sl'. sl' < SLLEN c \<and> x * SLLEN c \<le> list_min c fl' sl' \<longrightarrow>
          fl < fl' \<or> fl = fl' \<and> sl \<le> sl'))"
proof -
  obtain fl sl f s where cl: "map_ceil c x = Some (if FLLEN c \<le> fl then None else Some (fl, sl))"
    and sl: "sl < SLLEN c" "s < SLLEN c" and ge: "x * SLLEN c \<le> list_min c fl sl"
    and nxt: "fl = f \<and> sl = s \<and> list_min c f s = x * SLLEN c \<or>
      list_min c f s < x * SLLEN c \<and> list_min c fl sl = list_min c f s + 2 ^ (f + 5) \<and>
      (fl = f \<and> sl = Suc s \<or> fl = Suc f \<and> sl = 0 \<and> Suc s = SLLEN c)"
    by (rule map_ceil_next [OF assms])
  have least: "fl < fl' \<or> fl = fl' \<and> sl \<le> sl'"
    if "sl' < SLLEN c" "x * SLLEN c \<le> list_min c fl' sl'" for fl' sl'
    using ceil_least [OF nxt that] .
  have "fl' = fl \<and> sl' = sl" if "sl' < SLLEN c" "x * SLLEN c \<le> list_min c fl' sl'"
    "\<forall>f s. s < SLLEN c \<and> x * SLLEN c \<le> list_min c f s \<longrightarrow> fl' < f \<or> fl' = f \<and> sl' \<le> s" for fl' sl'
    using least [OF that(1,2)] that(3) sl ge by fastforce
  then have iff: "fl' < FLLEN c \<and> sl' < SLLEN c \<and> x * SLLEN c \<le> list_min c fl' sl' \<and>
      (\<forall>f s. s < SLLEN c \<and> x * SLLEN c \<le> list_min c f s \<longrightarrow> fl' < f \<or> fl' = f \<and> sl' \<le> s) \<longleftrightarrow>
      fl < FLLEN c \<and> fl' = fl \<and> sl' = sl" for fl' sl'
    using sl ge least by blast
  show ?thesis unfolding iff cl by (cases "FLLEN c \<le> fl") auto
qed

section \<open>The least size of the list for a request\<close>

lemma round_up_eqI: "0 < a \<Longrightarrow> a dvd y \<Longrightarrow> x \<le> y \<Longrightarrow> y < x + a \<Longrightarrow> round_up a x = y"
proof -
  assume a: "0 < a" "a dvd y" "x \<le> y" "y < x + a"
  have "round_up a x \<le> y" using a round_up_least by blast
  then have "y - round_up a x < a" using a(4) round_up_ge [OF a(1), of x] by linarith
  moreover have "a dvd y - round_up a x" using a(2) by (simp add: dvd_diff_nat)
  ultimately have "y - round_up a x = 0" by (meson dvd_imp_le not_less neq0_conv)
  with \<open>round_up a x \<le> y\<close> show ?thesis by simp
qed

lemma pred_mult_div: "0 < a \<Longrightarrow> 0 < b \<Longrightarrow> (a * b - 1) div a = b - (1::nat)"
proof (cases b)
  case (Suc n)
  assume a: "0 < a"
  then have "a * b - 1 = (a - 1) + n * a" by (simp add: Suc algebra_simps)
  then have "(a * b - 1) div a = (a - 1) div a + n" using a by (simp only: div_mult_self1)
  with a Suc show ?thesis by simp
qed simp

definition last_fl :: "cfg \<Rightarrow> nat" where
  "last_fl c = min (FLLEN c - 1) 58"

lemma MAX_MAP_CEIL_AND_UNMAP_INPUT_iff:
  assumes "cfg_ok c"
  shows "x \<le> MAX_MAP_CEIL_AND_UNMAP_INPUT c \<longleftrightarrow> x * SLLEN c \<le> list_min c (last_fl c) (SLLEN c - 1)"
proof -
  note k = cfg_ok_SLI [OF assms]
  let ?k = "SLI c" and ?F = "last_fl c"
  define N where "N = (2::nat) ^ Suc ?k - 1"
  define d where "d = 58 - ?F"
  have F: "?F \<le> 58" by (simp add: last_fl_def)
  have split: "USIZE_LIM = 2 ^ Suc ?k * 2 ^ (63 - ?k)"
    using k(2) by (simp add: USIZE_LIM_def flip: power_add power_Suc)
  have "(USIZE_LIM - 1) div 2 ^ Suc ?k = 2 ^ (63 - ?k) - 1"
    unfolding split by (rule pred_mult_div) simp_all
  then have max1: "not_usize (drop_bit (?k + 1) (USIZE_LIM - 1)) = N * 2 ^ (63 - ?k)"
    by (simp add: not_usize_def drop_bit_eq_div N_def split algebra_simps)
  have "MAX_MAP_CEIL_AND_UNMAP_INPUT c = N * 2 ^ (63 - ?k) div 2 ^ d"
  proof (cases "FLLEN c - 1 < 58")
    case True
    then have "?F = FLLEN c - 1" by (simp add: last_fl_def)
    with True show ?thesis unfolding MAX_MAP_CEIL_AND_UNMAP_INPUT_def max1
      by (simp add: USIZE_BITS_def drop_bit_eq_div d_def)
  next
    case False
    then have "d = 0" by (simp add: last_fl_def d_def)
    with False show ?thesis unfolding MAX_MAP_CEIL_AND_UNMAP_INPUT_def max1
      by (simp add: USIZE_BITS_def)
  qed
  then have "x \<le> MAX_MAP_CEIL_AND_UNMAP_INPUT c \<longleftrightarrow> x * 2 ^ d \<le> N * 2 ^ (63 - ?k)"
    by (simp add: less_eq_div_iff_mult_less_eq)
  also have "\<dots> \<longleftrightarrow> x * 2 ^ d * 2 ^ ?k \<le> N * 2 ^ (63 - ?k) * 2 ^ ?k" by simp
  also have "N * 2 ^ (63 - ?k) * 2 ^ ?k = N * 2 ^ (?F + 5) * 2 ^ d"
    using k(2) F by (simp add: mult.assoc d_def flip: power_add)
  also have "x * 2 ^ d * 2 ^ ?k \<le> N * 2 ^ (?F + 5) * 2 ^ d \<longleftrightarrow> x * 2 ^ ?k \<le> N * 2 ^ (?F + 5)"
    by (simp add: mult.commute mult.left_commute)
  also have "N * 2 ^ (?F + 5) = list_min c ?F (SLLEN c - 1)"
    unfolding list_min_def k(1) by (simp add: N_def)
  finally show ?thesis unfolding k(1) by (simp only: k(1) [symmetric])
qed

lemma dvd_list_min: "2 ^ (fl + 5) dvd list_min c fl sl"
  by (simp add: list_min_def)

text \<open>\<open>y\<close> times \<open>SLLEN\<close> is the scaled least size exactly when \<open>y\<close> is the value the source
  computes.\<close>

lemma unmap_value:
  assumes "cfg_ok c" and "x * SLLEN c \<le> L" and "L < x * SLLEN c + 2 ^ e" and "2 ^ e dvd L"
  shows "(if e < SLI c then x else round_up (2 ^ (e - SLI c)) x) * SLLEN c = L"
proof (cases "e < SLI c")
  case True
  note k = cfg_ok_SLI [OF assms(1)]
  have "(2::nat) ^ e dvd x * SLLEN c" using True by (simp add: k(1) le_imp_power_dvd dvd_mult)
  then have "2 ^ e dvd L - x * SLLEN c" using assms(4) by (simp add: dvd_diff_nat)
  moreover have "L - x * SLLEN c < 2 ^ e" using assms(2,3) by (simp add: less_diff_conv2 add.commute)
  ultimately have "L - x * SLLEN c = 0" by (metis dvd_imp_le not_less neq0_conv)
  with True assms(2) show ?thesis by simp
next
  case False
  note k = cfg_ok_SLI [OF assms(1)]
  define n where "n = e - SLI c"
  have e: "e = n + SLI c" using False by (simp add: n_def)
  obtain m where m: "L = 2 ^ e * m" using assms(4) by (rule dvdE)
  then have L: "L = 2 ^ n * m * 2 ^ SLI c" by (simp add: e power_add)
  have "x * 2 ^ SLI c \<le> 2 ^ n * m * 2 ^ SLI c" using assms(2) L k(1) by simp
  moreover have "2 ^ n * m * 2 ^ SLI c < (x + 2 ^ n) * 2 ^ SLI c"
    using assms(3) L k(1) by (simp add: e power_add algebra_simps)
  ultimately have "x \<le> 2 ^ n * m" "2 ^ n * m < x + 2 ^ n" by simp_all
  then have "round_up (2 ^ n) x = 2 ^ n * m" by (intro round_up_eqI) simp_all
  with False L k(1) show ?thesis by (simp add: n_def)
qed

lemma map_ceil_and_unmap_eval:
  assumes "cfg_ok c" and "block_size x" and "x \<le> MAX_MAP_CEIL_AND_UNMAP_INPUT c"
    and "2 ^ e \<le> x" "x < 2 ^ Suc e" "5 \<le> e" "e < 64"
    and "round_up (2 ^ (e - SLI c)) x < USIZE_LIM \<or> e < SLI c"
  shows "map_ceil_and_unmap c x = Some (Some (if e < SLI c then x else round_up (2 ^ (e - SLI c)) x))"
proof -
  have guards: "GRANULARITY \<le> x" "x mod GRANULARITY = 0"
    using assms(2) by (simp_all add: block_size_def)
  have fl: "sub_usize (USIZE_BITS - GRANULARITY_LOG2 - 1) (leading_zeros x) = Some (e - 5)"
    using leading_zeros_eq [OF assms(4,5)] assms(6,7) by (simp add: sub_usize_def USIZE_BITS_def)
  show ?thesis
  proof (cases "e < SLI c")
    case True
    then have "e - 5 < SLI c - 5" using assms(6) by linarith
    with True show ?thesis unfolding map_ceil_and_unmap_def fl using guards assms(3,6)
      by (simp del: GRANULARITY_32)
  next
    case False
    define n where "n = e - SLI c"
    have n: "sub_usize (e - 5 + GRANULARITY_LOG2) (SLI c) = Some n" "n < 64"
      using False assms(6,7) by (simp_all add: sub_usize_def n_def)
    have sum: "x + (2 ^ n - 1) < USIZE_LIM"
    proof -
      have dvd: "2 ^ n dvd USIZE_LIM" using n by (simp add: pow2_dvd_USIZE_LIM)
      have "round_up (2 ^ n) x < USIZE_LIM" using assms(8) False by (simp add: n_def)
      then have "round_up (2 ^ n) x + 2 ^ n \<le> USIZE_LIM"
        using dvd by (intro dvd_less_add_le) simp_all
      moreover have "x \<le> round_up (2 ^ n) x" and "0 < (2::nat) ^ n" by (simp_all add: round_up_ge)
      ultimately show ?thesis by linarith
    qed
    have p: "shl1 n = Some (2 ^ n)" using n by (simp add: shl1_def USIZE_BITS_def)
    have "(x + (2 ^ n - 1)) AND not_usize (2 ^ n - 1) = round_up (2 ^ n) x"
      using and_not_round_up [OF sum] n by simp
    moreover have "\<not> (GRANULARITY_LOG2 < SLI c \<and> e - 5 < SLI c - GRANULARITY_LOG2)"
      using False assms(6) by auto
    ultimately show ?thesis using False
      unfolding map_ceil_and_unmap_def fl using guards assms(3,6) n(1) p add_usize_Some [OF sum]
      by (auto simp: n_def simp del: GRANULARITY_32)
  qed
qed

lemma list_min_below:
  assumes "fl \<le> 58" and "sl < SLLEN c" and "y * SLLEN c = list_min c fl sl"
  shows "y < USIZE_LIM"
proof -
  have "(2::nat) ^ (fl + 5) \<le> 2 ^ 63" using assms(1) by (intro power_increasing) simp_all
  then have "list_min c fl sl \<le> (SLLEN c + sl) * 2 ^ 63" unfolding list_min_def by (rule mult_le_mono2)
  also have "\<dots> < (SLLEN c + SLLEN c) * 2 ^ 63" using assms(2) by simp
  also have "\<dots> = USIZE_LIM * SLLEN c" by (simp add: USIZE_LIM_def)
  finally show ?thesis unfolding assms(3) [symmetric] by simp
qed

lemma list_min_above:
  assumes "58 < fl" and "y * SLLEN c = list_min c fl sl" and "0 < SLLEN c"
  shows "USIZE_LIM \<le> y"
proof -
  have "(2::nat) ^ 64 \<le> 2 ^ (fl + 5)" using assms(1) by (intro power_increasing) simp_all
  then have "SLLEN c * 2 ^ 64 \<le> list_min c fl sl" unfolding list_min_def by (intro mult_le_mono) simp_all
  then have "USIZE_LIM * SLLEN c \<le> y * SLLEN c" using assms(2) by (simp only: USIZE_LIM_def mult.commute)
  with assms(3) show ?thesis by simp
qed

lemma MAX_MAP_CEIL_AND_UNMAP_INPUT_ceil:
  assumes "cfg_ok c" and sl: "sl < SLLEN c" "s < SLLEN c" and ge: "x * SLLEN c \<le> list_min c fl sl"
    and nxt: "fl = f \<and> sl = s \<and> list_min c f s = x * SLLEN c \<or>
      list_min c f s < x * SLLEN c \<and> list_min c fl sl = list_min c f s + 2 ^ (f + 5) \<and>
      (fl = f \<and> sl = Suc s \<or> fl = Suc f \<and> sl = 0 \<and> Suc s = SLLEN c)"
  shows "x \<le> MAX_MAP_CEIL_AND_UNMAP_INPUT c \<longleftrightarrow> fl \<le> last_fl c"
proof
  assume "x \<le> MAX_MAP_CEIL_AND_UNMAP_INPUT c"
  moreover have "0 < SLLEN c" using assms(1) by simp
  ultimately show "fl \<le> last_fl c" using ceil_least [OF nxt, of "SLLEN c - 1" "last_fl c"]
    by (auto simp: MAX_MAP_CEIL_AND_UNMAP_INPUT_iff [OF assms(1)])
next
  assume "fl \<le> last_fl c"
  then have "list_min c fl sl \<le> list_min c (last_fl c) (SLLEN c - 1)"
    using sl by (intro list_min_mono) auto
  with ge show "x \<le> MAX_MAP_CEIL_AND_UNMAP_INPUT c"
    by (simp add: MAX_MAP_CEIL_AND_UNMAP_INPUT_iff [OF assms(1)])
qed

lemma map_ceil_and_unmap_list_min:
  assumes "cfg_ok c" and "block_size x"
  shows "\<exists>r. map_ceil_and_unmap c x = Some r \<and>
    (\<forall>y. r = Some y \<longleftrightarrow>
      (\<exists>fl sl. map_ceil c x = Some (Some (fl, sl)) \<and> y < USIZE_LIM \<and> y * SLLEN c = list_min c fl sl))"
proof -
  obtain fl sl f s where cl: "map_ceil c x = Some (if FLLEN c \<le> fl then None else Some (fl, sl))"
    and sl: "sl < SLLEN c" "s < SLLEN c" and ge: "x * SLLEN c \<le> list_min c fl sl"
    and nxt: "fl = f \<and> sl = s \<and> list_min c f s = x * SLLEN c \<or>
      list_min c f s < x * SLLEN c \<and> list_min c fl sl = list_min c f s + 2 ^ (f + 5) \<and>
      (fl = f \<and> sl = Suc s \<or> fl = Suc f \<and> sl = 0 \<and> Suc s = SLLEN c)"
    and f: "2 ^ (f + 5) \<le> x" "x < 2 ^ Suc (f + 5)"
    by (rule map_ceil_next [OF assms])
  let ?F = "last_fl c"
  define y where "y = (if f + 5 < SLI c then x else round_up (2 ^ (f + 5 - SLI c)) x)"
  have S: "0 < SLLEN c" using assms(1) by simp
  note le_iff = MAX_MAP_CEIL_AND_UNMAP_INPUT_ceil [OF assms(1) sl ge nxt]
  have y: "y * SLLEN c = list_min c fl sl"
    unfolding y_def using nxt dvd_list_min [of f c s] by (intro unmap_value [OF assms(1) ge]) auto
  show ?thesis
  proof (cases "fl \<le> ?F")
    case True
    then have "fl \<le> FLLEN c - 1" "fl \<le> 58" by (simp_all add: last_fl_def)
    then have "fl < FLLEN c" using cfg_ok_pos(2) [OF assms(1)] by linarith
    have lim: "y < USIZE_LIM"
      by (rule list_min_below [OF \<open>fl \<le> 58\<close> sl(1) y])
    have f5: "5 \<le> f + 5" "f + 5 < 64" using nxt \<open>fl \<le> 58\<close> by auto
    have "round_up (2 ^ (f + 5 - SLI c)) x < USIZE_LIM \<or> f + 5 < SLI c"
      using lim by (cases "f + 5 < SLI c") (simp_all add: y_def)
    then have ev: "map_ceil_and_unmap c x = Some (Some y)"
      unfolding y_def using True le_iff by (intro map_ceil_and_unmap_eval [OF assms _ f f5]) simp_all
    have cl': "map_ceil c x = Some (Some (fl, sl))" using cl \<open>fl < FLLEN c\<close> by simp
    have "y = y' \<longleftrightarrow> y' < USIZE_LIM \<and> y' * SLLEN c = list_min c fl sl" for y'
      using lim S unfolding y [symmetric] by auto
    then show ?thesis unfolding ev cl' by simp
  next
    case False
    then have ev: "map_ceil_and_unmap c x = Some None"
      using le_iff assms(2) by (simp add: map_ceil_and_unmap_def block_size_def)
    have "58 < fl" if "fl < FLLEN c" using False that by (auto simp: last_fl_def)
    then have "\<not> (y' < USIZE_LIM \<and> y' * SLLEN c = list_min c fl sl)" if "fl < FLLEN c" for y'
      using that list_min_above [of fl y' c sl] S by (meson not_less)
    then show ?thesis unfolding ev cl by auto
  qed
qed

section \<open>The contract of the segregation\<close>

definition list_le :: "nat \<times> nat \<Rightarrow> nat \<times> nat \<Rightarrow> bool" where
  "list_le a b \<longleftrightarrow> fst a < fst b \<or> fst a = fst b \<and> snd a \<le> snd b"

text \<open>The result of \<open>map_ceil\<close>, range and failure included.\<close>

lemma next_list_start:
  assumes c: "cfg_ok c" and x: "x * SLLEN c \<le> list_min c fl sl"
    and nxt: "list_min c f s = x * SLLEN c \<and> fl = f \<and> sl = s \<or>
      list_min c f s < x * SLLEN c \<and> list_min c fl sl = list_min c f s + 2 ^ (f + 5)"
  shows "\<exists>y. y * SLLEN c = list_min c fl sl"
  using nxt
proof (elim disjE conjE)
  assume "list_min c f s = x * SLLEN c" "fl = f" "sl = s"
  then show ?thesis by (intro exI [of _ x]) simp
next
  assume lt: "list_min c f s < x * SLLEN c" and up: "list_min c fl sl = list_min c f s + 2 ^ (f + 5)"
  obtain a where a: "SLLEN c = 2 ^ a" using c by (metis cfg_ok_def is_power_of_two_obtain)
  have d: "(2::nat) ^ (f + 5) dvd list_min c f s" unfolding list_min_def by (rule dvd_triv_right)
  show ?thesis
  proof (cases "a \<le> f + 5")
    case True
    then have "SLLEN c dvd 2 ^ (f + 5)" unfolding a by (rule le_imp_power_dvd)
    then have "SLLEN c dvd list_min c fl sl" unfolding up by (intro dvd_add dvd_trans [OF _ d])
    then obtain y where "list_min c fl sl = SLLEN c * y" by (rule dvdE)
    then show ?thesis by (intro exI [of _ y]) simp
  next
    case False
    then have "(2::nat) ^ (f + 5) dvd x * SLLEN c" unfolding a by (intro dvd_mult le_imp_power_dvd) simp
    then have "list_min c f s + 2 ^ (f + 5) \<le> x * SLLEN c" using lt d by (intro dvd_less_add_le)
    then have "x * SLLEN c = list_min c fl sl" using x unfolding up by simp
    then show ?thesis by blast
  qed
qed

lemma map_ceil_cases:
  assumes c: "cfg_ok c" and x: "block_size x"
  obtains "map_ceil c x = Some None" and "\<And>fl sl. fl < FLLEN c \<Longrightarrow> sl < SLLEN c \<Longrightarrow> list_min c fl sl < x * SLLEN c"
  | fl sl where "map_ceil c x = Some (Some (fl, sl))" and "fl < FLLEN c" and "sl < SLLEN c" and "x * SLLEN c \<le> list_min c fl sl"
    and "\<And>fl' sl'. sl' < SLLEN c \<Longrightarrow> x * SLLEN c \<le> list_min c fl' sl' \<Longrightarrow> list_le (fl, sl) (fl', sl')"
    and "\<exists>y. y * SLLEN c = list_min c fl sl"
proof (rule map_ceil_next [OF c x])
  fix fl sl f s assume m: "map_ceil c x = Some (if FLLEN c \<le> fl then None else Some (fl, sl))" "sl < SLLEN c" "s < SLLEN c"
      "x * SLLEN c \<le> list_min c fl sl" and nxt: "fl = f \<and> sl = s \<and> list_min c f s = x * SLLEN c \<or>
      list_min c f s < x * SLLEN c \<and> list_min c fl sl = list_min c f s + 2 ^ (f + 5) \<and>
      (fl = f \<and> sl = Suc s \<or> fl = Suc f \<and> sl = 0 \<and> Suc s = SLLEN c)"
  have least: "list_le (fl, sl) (fl', sl')" if "sl' < SLLEN c" "x * SLLEN c \<le> list_min c fl' sl'" for fl' sl'
    using ceil_least [OF nxt that] by (simp add: list_le_def)
  show thesis
  proof (cases "FLLEN c \<le> fl")
    case True
    have "list_min c fl' sl' < x * SLLEN c" if "fl' < FLLEN c" "sl' < SLLEN c" for fl' sl'
    proof (rule ccontr)
      assume "\<not> list_min c fl' sl' < x * SLLEN c"
      then have "list_le (fl, sl) (fl', sl')" using least that(2) by simp
      then show False using True that(1) by (auto simp: list_le_def)
    qed
    then show thesis using m(1) True by (intro that(1)) simp_all
  next
    case False
    have "\<exists>y. y * SLLEN c = list_min c fl sl" by (rule next_list_start [OF c m(4)]) (use nxt in blast)
    then show thesis using m False least by (intro that(2) [of fl sl]) simp_all
  qed
qed

text \<open>The sizes with which a list starts, and \<open>map_ceil_and_unmap\<close> as the next of them.\<close>

definition list_start :: "cfg \<Rightarrow> usize \<Rightarrow> bool" where
  "list_start c y \<longleftrightarrow> (\<exists>fl < FLLEN c. \<exists>sl < SLLEN c. y * SLLEN c = list_min c fl sl)"

lemma map_ceil_and_unmap_start:
  assumes c: "cfg_ok c" and x: "block_size x"
  obtains "map_ceil_and_unmap c x = Some None" and "\<And>y. list_start c y \<Longrightarrow> x \<le> y \<Longrightarrow> USIZE_LIM \<le> y"
  | y where "map_ceil_and_unmap c x = Some (Some y)" and "list_start c y" and "x \<le> y" and "\<And>z. list_start c z \<Longrightarrow> x \<le> z \<Longrightarrow> y \<le> z"
proof -
  have S: "0 < SLLEN c" using c by simp
  obtain r where r: "map_ceil_and_unmap c x = Some r" "\<And>y. r = Some y \<longleftrightarrow>
      (\<exists>fl sl. map_ceil c x = Some (Some (fl, sl)) \<and> y < USIZE_LIM \<and> y * SLLEN c = list_min c fl sl)"
    using map_ceil_and_unmap_list_min [OF c x] by blast
  show thesis
  proof (rule map_ceil_cases [OF c x])
    assume m: "map_ceil c x = Some None" and small: "\<And>fl sl. fl < FLLEN c \<Longrightarrow> sl < SLLEN c \<Longrightarrow> list_min c fl sl < x * SLLEN c"
    have "y < x" if y: "list_start c y" for y
    proof -
      obtain fl sl where "fl < FLLEN c" "sl < SLLEN c" "y * SLLEN c = list_min c fl sl" using y by (auto simp: list_start_def)
      then have "y * SLLEN c < x * SLLEN c" using small by metis
      then show ?thesis by simp
    qed
    moreover have "r = None" using r(2) m by (cases r) auto
    ultimately show thesis using r(1) that(1) leD by metis
  next
    fix fl sl assume m: "map_ceil c x = Some (Some (fl, sl))" "fl < FLLEN c" "sl < SLLEN c" "x * SLLEN c \<le> list_min c fl sl"
      and least: "\<And>fl' sl'. sl' < SLLEN c \<Longrightarrow> x * SLLEN c \<le> list_min c fl' sl' \<Longrightarrow> list_le (fl, sl) (fl', sl')"
      and "\<exists>y. y * SLLEN c = list_min c fl sl"
    then obtain y where y: "y * SLLEN c = list_min c fl sl" by blast
    have xy: "x \<le> y" using m(4) S unfolding y [symmetric] by simp
    have le: "y \<le> z" if z: "list_start c z" "x \<le> z" for z
    proof -
      obtain fl' sl' where l: "sl' < SLLEN c" "z * SLLEN c = list_min c fl' sl'" using z(1) by (auto simp: list_start_def)
      have "x * SLLEN c \<le> list_min c fl' sl'" using z(2) by (simp flip: l(2))
      then have "fl < fl' \<or> fl = fl' \<and> sl \<le> sl'" using least [OF l(1)] by (simp add: list_le_def)
      then have "list_min c fl sl \<le> list_min c fl' sl'" using m(3) by (rule list_min_mono)
      then show ?thesis using S by (simp flip: y l(2))
    qed
    have st: "list_start c y" using m(2,3) y by (auto simp: list_start_def)
    show thesis
    proof (cases "y < USIZE_LIM")
      case True
      then have "r = Some y" using r(2) m(1) y by blast
      then show thesis using r(1) by (intro that(2) [OF _ st xy le]) simp
    next
      case False
      have "r = None"
      proof (cases r)
        case (Some w)
        then have "w < USIZE_LIM" "w * SLLEN c = y * SLLEN c" using r(2) [of w] m(1) y by simp_all
        then show ?thesis using False S by simp
      qed
      then show thesis using r(1) le False that(1) by (metis not_less order_trans)
    qed
  qed
qed

text \<open>
  What the allocator relies on. Inserting a free block uses \<open>floor\<close>, searching for a block uses
  \<open>ceil\<close>, sizing a new pool uses \<open>unmap\<close>: every block of a list at or after
  \<open>ceil\<close> of a request is large enough (\<open>fit\<close>), lists are ordered by size
  (\<open>floor_mono\<close>) and a block of the size \<open>unmap\<close> returns is filed in the list where the
  search begins (\<open>unmap_floor\<close>).
\<close>

locale size_segregation =
  fixes valid :: "'c \<Rightarrow> bool" and sized :: "nat \<Rightarrow> bool"
    and fls :: "'c \<Rightarrow> nat" and sls :: "'c \<Rightarrow> nat"
    and floor :: "'c \<Rightarrow> nat \<Rightarrow> (nat \<times> nat) option option"
    and ceil :: "'c \<Rightarrow> nat \<Rightarrow> (nat \<times> nat) option option"
    and unmap :: "'c \<Rightarrow> nat \<Rightarrow> nat option option"
  assumes floor_total: "valid c \<Longrightarrow> sized x \<Longrightarrow> \<exists>r. floor c x = Some r"
    and ceil_total: "valid c \<Longrightarrow> sized x \<Longrightarrow> \<exists>r. ceil c x = Some r"
    and unmap_total: "valid c \<Longrightarrow> sized x \<Longrightarrow> \<exists>r. unmap c x = Some r"
    and floor_range: "valid c \<Longrightarrow> sized x \<Longrightarrow> floor c x = Some (Some (fl, sl)) \<Longrightarrow> fl < fls c \<and> sl < sls c"
    and ceil_range: "valid c \<Longrightarrow> sized x \<Longrightarrow> ceil c x = Some (Some (fl, sl)) \<Longrightarrow> fl < fls c \<and> sl < sls c"
    and fit: "valid c \<Longrightarrow> sized x \<Longrightarrow> sized y \<Longrightarrow> ceil c x = Some (Some a) \<Longrightarrow>
      floor c y = Some (Some b) \<Longrightarrow> list_le a b \<Longrightarrow> x \<le> y"
    and floor_mono: "valid c \<Longrightarrow> sized x \<Longrightarrow> sized y \<Longrightarrow> x \<le> y \<Longrightarrow> floor c x = Some (Some a) \<Longrightarrow>
      floor c y = Some (Some b) \<Longrightarrow> list_le a b"
    and unmap_floor: "valid c \<Longrightarrow> sized x \<Longrightarrow> unmap c x = Some (Some y) \<Longrightarrow>
      sized y \<and> x \<le> y \<and> floor c y = ceil c x \<and> (\<exists>a. ceil c x = Some (Some a))"
begin

text \<open>A block at least as large as \<open>unmap\<close> returns is found by the search.\<close>

lemma large_enough:
  assumes "valid c" and "sized x" and "sized y" and "unmap c x = Some (Some z)" and "z \<le> y"
    and "floor c y = Some (Some b)"
  obtains a where "ceil c x = Some (Some a)" and "list_le a b"
proof -
  obtain a where a: "ceil c x = Some (Some a)" and z: "sized z" "floor c z = ceil c x"
    using unmap_floor [OF assms(1,2,4)] by blast
  have "list_le a b" using floor_mono [OF assms(1) z(1) assms(3,5) _ assms(6)] a z by simp
  with a show thesis by (rule that)
qed

lemma floor_obtain:
  assumes "valid c" and "sized x" and "floor c x \<noteq> Some None"
  obtains fl sl where "floor c x = Some (Some (fl, sl))" and "fl < fls c" and "sl < sls c"
  using floor_total [OF assms(1,2)] floor_range [OF assms(1,2)] assms(3) by fastforce

end

lemma map_ceil_fit:
  assumes "cfg_ok c" "block_size x" "block_size y" "map_ceil c x = Some (Some a)"
    "map_floor c y = Some (Some b)" "list_le a b"
  shows "x \<le> y"
proof -
  obtain fl sl fl' sl' where ab: "a = (fl, sl)" "b = (fl', sl')" by (cases a, cases b)
  have "sl < SLLEN c" "x * SLLEN c \<le> list_min c fl sl"
    using map_ceil_first [OF assms(1,2)] assms(4) by (auto simp: ab)
  moreover have "list_min c fl sl \<le> list_min c fl' sl'"
    using assms(6) \<open>sl < SLLEN c\<close> by (intro list_min_mono) (auto simp: list_le_def ab)
  moreover have "list_min c fl' sl' \<le> y * SLLEN c"
    using map_floor_in_list [OF assms(1,3)] assms(5) by (auto simp: ab in_list_def)
  ultimately have "x * SLLEN c \<le> y * SLLEN c" by linarith
  then show ?thesis using assms(1) by simp
qed

lemma map_floor_mono:
  assumes "cfg_ok c" "block_size x" "block_size y" "x \<le> y" "map_floor c x = Some (Some a)"
    "map_floor c y = Some (Some b)"
  shows "list_le a b"
proof (rule ccontr)
  obtain fl sl fl' sl' where ab: "a = (fl, sl)" "b = (fl', sl')" by (cases a, cases b)
  assume "\<not> list_le a b"
  then have "fl' < fl \<or> fl' = fl \<and> sl' < sl" by (auto simp: list_le_def ab)
  moreover have y: "sl' < SLLEN c" "y * SLLEN c < list_min c fl' sl' + 2 ^ (fl' + 5)"
    using map_floor_in_list [OF assms(1,3)] assms(6) by (auto simp: ab in_list_def)
  ultimately have "list_min c fl' sl' + 2 ^ (fl' + 5) \<le> list_min c fl sl" by (intro list_min_less)
  moreover have "list_min c fl sl \<le> x * SLLEN c"
    using map_floor_in_list [OF assms(1,2)] assms(5) by (auto simp: ab in_list_def)
  moreover have "x * SLLEN c \<le> y * SLLEN c" using assms(4) by (rule mult_le_mono1)
  ultimately show False using y(2) by linarith
qed

lemma round_up_pow2_dvd_32: "32 dvd x \<Longrightarrow> 32 dvd round_up (2 ^ n) x"
proof (cases "5 \<le> n")
  case True
  then have "(32::nat) dvd 2 ^ n" using le_imp_power_dvd [of 5 n "2::nat"] by simp
  then show ?thesis using round_up_dvd [of "2 ^ n" x] by (rule dvd_trans)
next
  case False
  assume "32 dvd x"
  moreover have "(2::nat) ^ n dvd 32" using False le_imp_power_dvd [of n 5 "2::nat"] by simp
  ultimately have "2 ^ n dvd x" by (metis dvd_trans)
  then show ?thesis using \<open>32 dvd x\<close> by (simp add: round_up_id)
qed

lemma map_ceil_and_unmap_floor:
  assumes "cfg_ok c" "block_size x" "map_ceil_and_unmap c x = Some (Some y)"
  shows "block_size y \<and> x \<le> y \<and> map_floor c y = map_ceil c x \<and> (\<exists>a. map_ceil c x = Some (Some a))"
proof -
  obtain fl sl f s where cl: "map_ceil c x = Some (if FLLEN c \<le> fl then None else Some (fl, sl))"
    and sl: "sl < SLLEN c" "s < SLLEN c" and ge: "x * SLLEN c \<le> list_min c fl sl"
    and nxt: "fl = f \<and> sl = s \<and> list_min c f s = x * SLLEN c \<or>
      list_min c f s < x * SLLEN c \<and> list_min c fl sl = list_min c f s + 2 ^ (f + 5) \<and>
      (fl = f \<and> sl = Suc s \<or> fl = Suc f \<and> sl = 0 \<and> Suc s = SLLEN c)"
    by (rule map_ceil_next [OF assms(1,2)])
  have S: "0 < SLLEN c" using assms(1) by simp
  have fl: "fl < FLLEN c" and y: "y < USIZE_LIM" "y * SLLEN c = list_min c fl sl"
    using map_ceil_and_unmap_list_min [OF assms(1,2)] assms(3) cl by (auto split: if_splits)
  have "(if f + 5 < SLI c then x else round_up (2 ^ (f + 5 - SLI c)) x) * SLLEN c = list_min c fl sl"
    using nxt dvd_list_min [of f c s] by (intro unmap_value [OF assms(1) ge]) auto
  then have "y = (if f + 5 < SLI c then x else round_up (2 ^ (f + 5 - SLI c)) x)"
    using S unfolding y(2) [symmetric] by simp
  then have "32 dvd y" using assms(2) by (simp add: block_size_def round_up_pow2_dvd_32)
  moreover have "x \<le> y" using ge S unfolding y(2) [symmetric] by simp
  ultimately have bs: "block_size y" using assms(2) y(1) by (simp add: block_size_def)
  have "in_list c fl sl y" by (simp add: in_list_def y(2))
  then have "map_floor c y = Some (Some (fl, sl))"
    using map_floor_in_list [OF assms(1) bs] fl sl(1) by auto
  with bs \<open>x \<le> y\<close> cl fl show ?thesis by simp
qed

interpretation seg: size_segregation cfg_ok block_size FLLEN SLLEN map_floor map_ceil map_ceil_and_unmap
proof (unfold_locales, goal_cases)
  case (1 c x)
  then show ?case using map_floor_in_list by blast
next
  case (2 c x)
  then show ?case using map_ceil_first by blast
next
  case (3 c x)
  then show ?case using map_ceil_and_unmap_list_min by blast
next
  case (4 c x fl sl)
  then show ?case using map_floor_in_list by fastforce
next
  case (5 c x fl sl)
  then show ?case using map_ceil_first by fastforce
next
  case (6 c x y a b)
  then show ?case by (rule map_ceil_fit)
next
  case (7 c x y a b)
  then show ?case by (rule map_floor_mono)
next
  case (8 c x y)
  then show ?case by (rule map_ceil_and_unmap_floor)
qed

section \<open>What the mapping functions promise\<close>

definition demo_cfg :: cfg where
  \<comment> \<open>the parameters of the crate's own documentation examples, \<open>Tlsf<u16, u16, 16, 16>\<close> on a 64-bit target\<close>
  "demo_cfg = \<lparr>FLLEN = 16, SLLEN = 16\<rparr>"

lemma demo_cfg_ok: "cfg_ok demo_cfg"
  using is_power_of_two_pow2 [of 4] by (simp add: cfg_ok_def demo_cfg_def)

lemma demo_lens: "SLI demo_cfg = 4" "FLLEN demo_cfg = 16" "SLLEN demo_cfg = 16"
  using trailing_zeros_pow2 [of 4] by (simp_all add: SLI_def demo_cfg_def)

lemma demo_bit_len: "bit_len 1056 = 11"
  by (simp add: bit_len.simps)

lemma demo_map_ceil: "map_ceil demo_cfg 1056 = Some (Some (5, 1))"
  by (simp add: map_ceil_def demo_lens leading_zeros_def demo_bit_len USIZE_BITS_def sub_usize_def shl1_def
      rotate_right_def wrapping_sub_u32_def Let_def drop_bit_eq_div push_bit_eq_mult take_bit_eq_mod)

lemma demo_unmap: "map_ceil_and_unmap demo_cfg 1056 = Some (Some 1088)"
proof -
  have "1056 \<le> MAX_MAP_CEIL_AND_UNMAP_INPUT demo_cfg"
    by (simp add: MAX_MAP_CEIL_AND_UNMAP_INPUT_def demo_lens not_usize_def USIZE_LIM_def USIZE_BITS_def
        Let_def drop_bit_eq_div)
  moreover have "(1119::nat) AND not_usize 63 = 1088" using and_not_mask [of 1119 6] by (simp add: USIZE_LIM_def)
  ultimately show ?thesis
    by (simp add: map_ceil_and_unmap_def demo_lens leading_zeros_def demo_bit_len USIZE_BITS_def sub_usize_def shl1_def
        add_usize_def USIZE_LIM_def)
qed

text \<open>C37: \<open>map_floor\<close> is total on block sizes, fails exactly on sizes of
  \<open>GRANULARITY << FLLEN\<close> and above, and otherwise returns the one list whose size range
  contains the size.\<close>

theorem map_floor_spec:
  assumes "cfg_ok c" and "block_size x"
  shows "\<exists>r. map_floor c x = Some r \<and> (r = None \<longleftrightarrow> GRANULARITY * 2 ^ FLLEN c \<le> x) \<and>
    (\<forall>fl sl. r = Some (fl, sl) \<longleftrightarrow> fl < FLLEN c \<and> sl < SLLEN c \<and> in_list c fl sl x)"
  using map_floor_in_list [OF assms] map_floor_None_iff [OF assms] by (auto simp: power_add mult.commute)

theorem map_floor_spec_witness:
  "\<exists>r. map_floor demo_cfg 416 = Some r \<and> r = Some (3, 10)"
proof -
  have bs: "block_size 416" by (simp add: block_size_def USIZE_LIM_def)
  obtain r where "map_floor demo_cfg 416 = Some r"
    "\<forall>fl sl. r = Some (fl, sl) \<longleftrightarrow> fl < FLLEN demo_cfg \<and> sl < SLLEN demo_cfg \<and> in_list demo_cfg fl sl 416"
    using map_floor_spec [OF demo_cfg_ok bs] by blast
  moreover have "in_list demo_cfg 3 10 416" by (simp add: in_list_def list_min_def demo_lens)
  ultimately show ?thesis by (simp add: demo_lens)
qed

text \<open>C35: \<open>map_ceil\<close> is total on block sizes. The list it returns exists, starts at the size of the request or
  above, and is the first such list; every block filed by \<open>map_floor\<close> in it or after it is at least as large as the
  request. It fails exactly when every list starts below the request.\<close>

theorem map_ceil_good_fit:
  assumes "cfg_ok c" and "block_size x"
  shows "\<exists>r. map_ceil c x = Some r \<and> (case r of
     None \<Rightarrow> \<forall>fl < FLLEN c. \<forall>sl < SLLEN c. list_min c fl sl < x * SLLEN c
   | Some (fl, sl) \<Rightarrow> fl < FLLEN c \<and> sl < SLLEN c \<and> x * SLLEN c \<le> list_min c fl sl \<and>
       (\<forall>fl' sl'. sl' < SLLEN c \<and> x * SLLEN c \<le> list_min c fl' sl' \<longrightarrow> list_le (fl, sl) (fl', sl')) \<and>
       (\<forall>y b. block_size y \<and> map_floor c y = Some (Some b) \<and> list_le (fl, sl) b \<longrightarrow> x \<le> y))"
proof (rule map_ceil_cases [OF assms])
  fix fl sl assume "map_ceil c x = Some (Some (fl, sl))" "fl < FLLEN c" "sl < SLLEN c" "x * SLLEN c \<le> list_min c fl sl"
    "\<And>fl' sl'. sl' < SLLEN c \<Longrightarrow> x * SLLEN c \<le> list_min c fl' sl' \<Longrightarrow> list_le (fl, sl) (fl', sl')"
  then show ?thesis using seg.fit [OF assms] by auto
qed auto

lemma demo_map_ceil_carry: "map_ceil demo_cfg 4064 = Some (Some (7, 0))"
  by (simp add: map_ceil_def demo_lens leading_zeros_def bit_len.simps [of 4064] bit_len.simps USIZE_BITS_def sub_usize_def shl1_def
      rotate_right_def wrapping_sub_u32_def Let_def drop_bit_eq_div push_bit_eq_mult take_bit_eq_mod)

theorem map_ceil_good_fit_witness:
  "map_ceil demo_cfg 4064 = Some (Some (7, 0)) \<and> list_min demo_cfg 6 15 < 4064 * 16 \<and> 4064 * 16 \<le> list_min demo_cfg 7 0 \<and>
    list_le (7, 0) (7, 3)"
proof -
  have bs: "block_size 4064" by (simp add: block_size_def USIZE_LIM_def)
  have "list_min demo_cfg 6 15 < 4064 * 16" "4064 * 16 \<le> list_min demo_cfg 7 3" by (simp_all add: list_min_def demo_lens)
  with map_ceil_good_fit [OF demo_cfg_ok bs] show ?thesis by (simp add: demo_map_ceil_carry demo_lens)
qed



end
