(* ===== verification/Memory.thy ===== *)
theory Memory
  imports Size_Class
begin

text \<open>
  The memory the allocator works in and the headers it keeps there (crates/rlsf/src/tlsf.rs).

  Memory is a partial map from addresses to \<open>usize\<close> cells; the cells at addresses that are
  multiples of 8 are the machine's words, and an address without a cell is memory the program does
  not own. A load or store at an address that is misaligned or has no cell is a fault. Bytes are
  little-endian parts of cells, so that the byte copies of \<open>reallocate\<close> and the headers live in
  the same store.

  References to headers are aligned as the structs are (\<open>repr(align(16))\<close> for \<open>BlockHdr\<close>, \<open>repr(align(32))\<close> for
  \<open>FreeBlockHdr\<close>); an access through a misaligned one is a fault, too.

  A \<open>BlockHdr\<close> at address \<open>b\<close> is two cells, \<open>size\<close> at \<open>b\<close> and
  \<open>prev_phys_block\<close> at \<open>b + 8\<close> (\<open>repr(C)\<close>); a \<open>FreeBlockHdr\<close> adds
  \<open>next_free\<close> at \<open>b + 16\<close> and \<open>prev_free\<close> at \<open>b + 24\<close>; a
  \<open>UsedBlockPad\<close> is the cell just before the payload.
\<close>

unbundle bit_operations_syntax

section \<open>Cells\<close>

type_synonym mem = "usize \<Rightarrow> usize option"

definition load :: "mem \<Rightarrow> usize \<Rightarrow> usize option" where
  "load m a = (if a mod 8 = 0 then m a else None)"

definition store :: "mem \<Rightarrow> usize \<Rightarrow> usize \<Rightarrow> mem option" where
  "store m a v = (if a mod 8 = 0 \<and> m a \<noteq> None then Some (m(a \<mapsto> v)) else None)"

section \<open>Block headers\<close>

definition SIZE_USED :: usize where
  "SIZE_USED = 1"

definition SIZE_SENTINEL :: usize where
  "SIZE_SENTINEL = 2"

definition SIZE_SIZE_MASK :: usize where
  "SIZE_SIZE_MASK = not_usize (2 ^ GRANULARITY_LOG2 - 1)"

definition SIZE_OF_UsedBlockHdr :: usize where
  "SIZE_OF_UsedBlockHdr = 16"

record BlockHdr =
  bh_size :: usize
  bh_prev_phys_block :: "usize option"

definition ALIGN_OF_BlockHdr :: usize where
  "ALIGN_OF_BlockHdr = 16"

definition ALIGN_OF_FreeBlockHdr :: usize where
  "ALIGN_OF_FreeBlockHdr = 32"

definition load_field :: "usize \<Rightarrow> mem \<Rightarrow> usize \<Rightarrow> usize \<Rightarrow> usize option" where
  \<comment> \<open>the field at \<open>offset\<close> of the struct at \<open>b\<close>\<close>
  "load_field align m b offset = (if b mod align = 0 then load m (b + offset) else None)"

definition store_field :: "usize \<Rightarrow> mem \<Rightarrow> usize \<Rightarrow> usize \<Rightarrow> usize \<Rightarrow> mem option" where
  "store_field align m b offset v = (if b mod align = 0 then store m (b + offset) v else None)"

definition read_size :: "mem \<Rightarrow> usize \<Rightarrow> usize option" where
  "read_size m b = load_field ALIGN_OF_BlockHdr m b 0"

definition write_size :: "mem \<Rightarrow> usize \<Rightarrow> usize \<Rightarrow> mem option" where
  "write_size m b v = store_field ALIGN_OF_BlockHdr m b 0 v"

definition read_prev_phys :: "mem \<Rightarrow> usize \<Rightarrow> usize option option" where
  "read_prev_phys m b = map_option to_ptr (load_field ALIGN_OF_BlockHdr m b 8)"

definition write_prev_phys :: "mem \<Rightarrow> usize \<Rightarrow> usize option \<Rightarrow> mem option" where
  "write_prev_phys m b p = store_field ALIGN_OF_BlockHdr m b 8 (of_ptr p)"

definition write_hdr :: "mem \<Rightarrow> usize \<Rightarrow> BlockHdr \<Rightarrow> mem option" where
  "write_hdr m b h = do {
     m \<leftarrow> write_size m b (bh_size h);
     write_prev_phys m b (bh_prev_phys_block h)
   }"

definition read_next_free :: "mem \<Rightarrow> usize \<Rightarrow> usize option option" where
  "read_next_free m b = map_option to_ptr (load_field ALIGN_OF_FreeBlockHdr m b 16)"

definition write_next_free :: "mem \<Rightarrow> usize \<Rightarrow> usize option \<Rightarrow> mem option" where
  "write_next_free m b p = store_field ALIGN_OF_FreeBlockHdr m b 16 (of_ptr p)"

definition read_prev_free :: "mem \<Rightarrow> usize \<Rightarrow> usize option option" where
  "read_prev_free m b = map_option to_ptr (load_field ALIGN_OF_FreeBlockHdr m b 24)"

definition write_prev_free :: "mem \<Rightarrow> usize \<Rightarrow> usize option \<Rightarrow> mem option" where
  "write_prev_free m b p = store_field ALIGN_OF_FreeBlockHdr m b 24 (of_ptr p)"

definition next_phys_block :: "mem \<Rightarrow> usize \<Rightarrow> usize option" where
  "next_phys_block m b = do {
     sz \<leftarrow> read_size m b;
     debug_assert (sz AND SIZE_SENTINEL = 0);
     add_usize b (sz AND SIZE_SIZE_MASK)
   }"

definition get_for_allocation :: "usize \<Rightarrow> usize" where
  "get_for_allocation ptr = wrapping_sub ptr 8"

definition read_pad :: "mem \<Rightarrow> usize \<Rightarrow> usize option" where
  "read_pad m ptr = load m (get_for_allocation ptr)"

definition write_pad :: "mem \<Rightarrow> usize \<Rightarrow> usize \<Rightarrow> mem option" where
  "write_pad m ptr b = store m (get_for_allocation ptr) b"

section \<open>Bytes\<close>

definition load_byte :: "mem \<Rightarrow> usize \<Rightarrow> usize option" where
  "load_byte m a = map_option (\<lambda>v. v div 256 ^ (a mod 8) mod 256) (m (a - a mod 8))"

definition store_byte :: "mem \<Rightarrow> usize \<Rightarrow> usize \<Rightarrow> mem option" where
  "store_byte m a x = (case m (a - a mod 8) of None \<Rightarrow> None
     | Some v \<Rightarrow> Some (m(a - a mod 8 \<mapsto>
         v - (v div 256 ^ (a mod 8) mod 256) * 256 ^ (a mod 8) + (x mod 256) * 256 ^ (a mod 8))))"

fun load_bytes :: "mem \<Rightarrow> usize \<Rightarrow> nat \<Rightarrow> usize list option" where
  "load_bytes m a 0 = Some []"
| "load_bytes m a (Suc n) = do {
     x \<leftarrow> load_byte m a;
     xs \<leftarrow> load_bytes m (a + 1) n;
     Some (x # xs)
   }"

fun store_bytes :: "mem \<Rightarrow> usize \<Rightarrow> usize list \<Rightarrow> mem option" where
  "store_bytes m a [] = Some m"
| "store_bytes m a (x # xs) = do {
     m \<leftarrow> store_byte m a x;
     store_bytes m (a + 1) xs
   }"

text \<open>\<open>core::ptr::copy\<close> (ranges may overlap) and \<open>copy_nonoverlapping\<close> (overlap is
  undefined).\<close>

definition copy :: "mem \<Rightarrow> usize \<Rightarrow> usize \<Rightarrow> nat \<Rightarrow> mem option" where
  "copy m src dst n = do {
     xs \<leftarrow> load_bytes m src n;
     store_bytes m dst xs
   }"

definition copy_nonoverlapping :: "mem \<Rightarrow> usize \<Rightarrow> usize \<Rightarrow> nat \<Rightarrow> mem option" where
  "copy_nonoverlapping m src dst n = do {
     debug_assert (src + n \<le> dst \<or> dst + n \<le> src);
     copy m src dst n
   }"

section \<open>Evaluation rules\<close>

lemma load_eq [mem_simps]: "a mod 8 = 0 \<Longrightarrow> load m a = m a"
  by (simp add: load_def)

lemma store_eq [mem_simps]: "a mod 8 = 0 \<Longrightarrow> m a \<noteq> None \<Longrightarrow> store m a v = Some (m(a \<mapsto> v))"
  by (simp add: store_def)

lemma mod8_cells [cell_simps]:
  assumes "32 dvd (b::nat)"
  shows "b mod 8 = 0" "(b + 8) mod 8 = 0" "(b + 16) mod 8 = 0" "(b + 24) mod 8 = 0"
proof -
  have "8 dvd b" using assms by (rule dvd_trans [rotated]) simp
  then show "b mod 8 = 0" "(b + 8) mod 8 = 0" "(b + 16) mod 8 = 0" "(b + 24) mod 8 = 0"
    by (auto elim!: dvdE)
qed

lemma aligned_offset_eq:
  assumes "32 dvd a" "32 dvd b" "p < 32" "q < (32::nat)"
  shows "a + p = b + q \<longleftrightarrow> a = b \<and> p = q"
proof
  assume eq: "a + p = b + q"
  have "(a + p) mod 32 = p" "(b + q) mod 32 = q" using assms by (auto elim!: dvdE)
  with eq show "a = b \<and> p = q" by simp
qed simp

lemma aligned_neq [cell_simps]:
  assumes "32 dvd a" and "32 dvd (b::nat)"
  shows "a \<noteq> b + 8" "a \<noteq> b + 16" "a \<noteq> b + 24"
    "a + 8 \<noteq> b" "a + 16 \<noteq> b" "a + 24 \<noteq> b"
    "a + 8 \<noteq> b + 16" "a + 8 \<noteq> b + 24" "a + 16 \<noteq> b + 8" "a + 16 \<noteq> b + 24" "a + 24 \<noteq> b + 8"
    "a + 24 \<noteq> b + 16"
  using aligned_offset_eq [OF assms, of 0 8]
    aligned_offset_eq [OF assms, of 0 16]
    aligned_offset_eq [OF assms, of 0 24]
    aligned_offset_eq [OF assms, of 8 0]
    aligned_offset_eq [OF assms, of 16 0]
    aligned_offset_eq [OF assms, of 24 0]
    aligned_offset_eq [OF assms, of 8 16]
    aligned_offset_eq [OF assms, of 8 24]
    aligned_offset_eq [OF assms, of 16 8]
    aligned_offset_eq [OF assms, of 16 24]
    aligned_offset_eq [OF assms, of 24 8]
    aligned_offset_eq [OF assms, of 24 16]
  by simp_all

lemma field_eq [mem_simps]:
  assumes "32 dvd (b::nat)"
  shows "load_field ALIGN_OF_BlockHdr m b i = load m (b + i)" "load_field ALIGN_OF_FreeBlockHdr m b i = load m (b + i)"
    "store_field ALIGN_OF_BlockHdr m b i v = store m (b + i) v" "store_field ALIGN_OF_FreeBlockHdr m b i v = store m (b + i) v"
proof -
  have "16 dvd b" using assms by (rule dvd_trans [rotated]) simp
  then show "load_field ALIGN_OF_BlockHdr m b i = load m (b + i)" "load_field ALIGN_OF_FreeBlockHdr m b i = load m (b + i)"
    "store_field ALIGN_OF_BlockHdr m b i v = store m (b + i) v" "store_field ALIGN_OF_FreeBlockHdr m b i v = store m (b + i) v"
    using assms by (simp_all add: load_field_def store_field_def ALIGN_OF_BlockHdr_def ALIGN_OF_FreeBlockHdr_def)
qed

lemma read_size_eq [mem_simps]: "32 dvd b \<Longrightarrow> read_size m b = m b"
  by (simp add: read_size_def mem_simps cell_simps)

lemma write_size_eq [mem_simps]: "32 dvd b \<Longrightarrow> m b \<noteq> None \<Longrightarrow> write_size m b v = Some (m(b \<mapsto> v))"
  by (simp add: write_size_def mem_simps cell_simps)

lemma read_prev_phys_eq [mem_simps]:
  "32 dvd b \<Longrightarrow> read_prev_phys m b = map_option to_ptr (m (b + 8))"
  by (simp add: read_prev_phys_def mem_simps cell_simps)

lemma write_prev_phys_eq [mem_simps]:
  "32 dvd b \<Longrightarrow> m (b + 8) \<noteq> None \<Longrightarrow> write_prev_phys m b p = Some (m(b + 8 \<mapsto> of_ptr p))"
  by (simp add: write_prev_phys_def mem_simps cell_simps)

lemma read_next_free_eq [mem_simps]:
  "32 dvd b \<Longrightarrow> read_next_free m b = map_option to_ptr (m (b + 16))"
  by (simp add: read_next_free_def mem_simps cell_simps)

lemma write_next_free_eq [mem_simps]:
  "32 dvd b \<Longrightarrow> m (b + 16) \<noteq> None \<Longrightarrow> write_next_free m b p = Some (m(b + 16 \<mapsto> of_ptr p))"
  by (simp add: write_next_free_def mem_simps cell_simps)

lemma read_prev_free_eq [mem_simps]:
  "32 dvd b \<Longrightarrow> read_prev_free m b = map_option to_ptr (m (b + 24))"
  by (simp add: read_prev_free_def mem_simps cell_simps)

lemma write_prev_free_eq [mem_simps]:
  "32 dvd b \<Longrightarrow> m (b + 24) \<noteq> None \<Longrightarrow> write_prev_free m b p = Some (m(b + 24 \<mapsto> of_ptr p))"
  by (simp add: write_prev_free_def mem_simps cell_simps)

lemma write_hdr_eq [mem_simps]:
  "32 dvd b \<Longrightarrow> m b \<noteq> None \<Longrightarrow> m (b + 8) \<noteq> None \<Longrightarrow>
    write_hdr m b h = Some (m(b \<mapsto> bh_size h, b + 8 \<mapsto> of_ptr (bh_prev_phys_block h)))"
  by (simp add: write_hdr_def mem_simps)

section \<open>The size word\<close>

lemma and_2_eq_0: "x AND (2::nat) = 0 \<longleftrightarrow> even (x div 2)"
  using and_exp_eq_0_iff_not_bit [of x 1] by (simp add: bit_iff_odd)

lemma size_word [mem_simps]:
  assumes "32 dvd z"
  shows "z OR SIZE_USED = z + 1"
    and "z AND SIZE_USED = 0" and "(z + 1) AND SIZE_USED \<noteq> 0" and "Suc z AND SIZE_USED \<noteq> 0"
    and "z AND SIZE_SENTINEL = 0" and "(z + 1) AND SIZE_SENTINEL = 0" and "Suc z AND SIZE_SENTINEL = 0"
proof -
  have "even z" using assms by (rule dvd_trans [rotated]) simp
  then show "z OR SIZE_USED = z + 1" using or_one_eq [of z] by (simp add: SIZE_USED_def)
  show "z AND SIZE_USED = 0" "(z + 1) AND SIZE_USED \<noteq> 0" "Suc z AND SIZE_USED \<noteq> 0"
    using \<open>even z\<close> and_one_eq [of z] and_one_eq [of "Suc z"]
    by (simp_all add: SIZE_USED_def mod_2_eq_odd)
  have "even (z div 2)" "even ((z + 1) div 2)" using assms by (auto elim!: dvdE)
  then show "z AND SIZE_SENTINEL = 0" "(z + 1) AND SIZE_SENTINEL = 0" "Suc z AND SIZE_SENTINEL = 0"
    by (simp_all only: SIZE_SENTINEL_def and_2_eq_0 Suc_eq_plus1)
qed

lemma sentinel_word [mem_simps]:
  "GRANULARITY OR SIZE_USED OR SIZE_SENTINEL = 35" "35 AND SIZE_USED \<noteq> 0" "35 AND SIZE_SENTINEL \<noteq> 0"
  by (simp_all add: SIZE_USED_def SIZE_SENTINEL_def)

lemma size_mask [mem_simps]:
  assumes "32 dvd z" and "z < USIZE_LIM"
  shows "z AND SIZE_SIZE_MASK = z" and "(z + 1) AND SIZE_SIZE_MASK = z" and "Suc z AND SIZE_SIZE_MASK = z"
    and "(z + 1) AND not_usize SIZE_USED = z" and "Suc z AND not_usize SIZE_USED = z"
proof -
  have m: "SIZE_SIZE_MASK = not_usize 31" by (simp add: SIZE_SIZE_MASK_def)
  have "z + 32 \<le> USIZE_LIM" using assms by (intro dvd_less_add_le) simp_all
  then have z1: "z + 1 < USIZE_LIM" by linarith
  show "z AND SIZE_SIZE_MASK = z" using and_not_31 [OF assms(2)] assms(1) by (simp add: m)
  have "(z + 1) mod 32 = 1" using assms(1) by (auto elim!: dvdE)
  then show one: "(z + 1) AND SIZE_SIZE_MASK = z" using and_not_31 [OF z1] by (simp add: m)
  have "(z + 1) mod 2 = 1" using assms(1) by (auto elim!: dvdE simp: mod_2_eq_odd)
  then show two: "(z + 1) AND not_usize SIZE_USED = z"
    using and_not_mask [OF z1, of 1] by (simp add: SIZE_USED_def)
  show "Suc z AND SIZE_SIZE_MASK = z" "Suc z AND not_usize SIZE_USED = z"
    using one two by simp_all
qed

lemma next_phys_block_free:
  assumes "32 dvd b" "m b = Some z" "32 dvd z" "b + z < USIZE_LIM"
  shows "next_phys_block m b = Some (b + z)"
proof -
  have "z < USIZE_LIM" using assms(4) by simp
  then show ?thesis using assms by (simp add: next_phys_block_def mem_simps usize_simps)
qed

lemma next_phys_block_used:
  assumes "32 dvd b" "m b = Some (z + 1)" "32 dvd z" "b + z < USIZE_LIM"
  shows "next_phys_block m b = Some (b + z)"
proof -
  have "z < USIZE_LIM" using assms(4) by simp
  then show ?thesis using assms by (simp add: next_phys_block_def mem_simps usize_simps)
qed

lemma get_for_allocation_eq: "8 \<le> ptr \<Longrightarrow> ptr < USIZE_LIM \<Longrightarrow> get_for_allocation ptr = ptr - 8"
  by (simp add: get_for_allocation_def usize_simps)

lemma write_pad_eq:
  assumes "8 \<le> ptr" "ptr < USIZE_LIM" "8 dvd ptr" "m (ptr - 8) \<noteq> None"
  shows "write_pad m ptr b = Some (m(ptr - 8 \<mapsto> b))"
proof -
  have "8 dvd ptr - 8" using assms(3) by (simp add: dvd_diff_nat)
  then show ?thesis using assms by (simp add: write_pad_def get_for_allocation_eq mem_simps)
qed

lemma read_pad_eq:
  assumes "8 \<le> ptr" "ptr < USIZE_LIM" "8 dvd ptr"
  shows "read_pad m ptr = m (ptr - 8)"
proof -
  have "8 dvd ptr - 8" using assms(3) by (simp add: dvd_diff_nat)
  then show ?thesis using assms by (simp add: read_pad_def get_for_allocation_eq mem_simps)
qed

end
