(* ===== verification/Free_List.thy ===== *)
theory Free_List
  imports Memory
begin

text \<open>
  The segregated free lists of \<open>Tlsf\<close> (crates/rlsf/src/tlsf.rs): the struct, the functions
  \<open>link_free_block\<close> and \<open>unlink_free_block\<close>, the removal of the first block of a list that
  \<open>allocate\<close> performs inline, and the bitmap search.

  The abstract view of the lists is a partial map from block addresses to list indices
  (\<open>fl, sl\<close>). The invariant \<open>fl_inv\<close> says that list \<open>(fl, sl)\<close> is a well-linked
  doubly linked list of exactly the blocks mapped to it, and that the two levels of bitmaps mark
  exactly the non-empty lists. Linking a block adds it to the map, unlinking removes it, and the
  search returns the first non-empty list at or after the one \<open>map_ceil\<close> names.
\<close>

unbundle bit_operations_syntax

section \<open>The struct\<close>

record ('fb, 'sb) tlsf =
  fl_bitmap :: 'fb
  sl_bitmap :: "'sb list"
  first_free :: "usize option list list"

definition tlsf_new :: "cfg \<Rightarrow> ('f::len word, 's::len word) tlsf" where
  "tlsf_new c = \<lparr>fl_bitmap = 0, sl_bitmap = replicate (FLLEN c) 0,
     first_free = replicate (FLLEN c) (replicate (SLLEN c) None)\<rparr>"

text \<open>Indexing, which panics out of range.\<close>

definition get_first_free :: "('f::len word, 's::len word) tlsf \<Rightarrow> nat \<Rightarrow> nat \<Rightarrow> usize option option" where
  "get_first_free t fl sl =
     (if fl < length (first_free t) \<and> sl < length (first_free t ! fl)
      then Some (first_free t ! fl ! sl) else None)"

definition set_first_free ::
  "('f::len word, 's::len word) tlsf \<Rightarrow> nat \<Rightarrow> nat \<Rightarrow> usize option \<Rightarrow> ('f word, 's word) tlsf option" where
  "set_first_free t fl sl p =
     (if fl < length (first_free t) \<and> sl < length (first_free t ! fl)
      then Some (t\<lparr>first_free := (first_free t)[fl := (first_free t ! fl)[sl := p]]\<rparr>) else None)"

definition get_sl_bitmap :: "('f::len word, 's::len word) tlsf \<Rightarrow> nat \<Rightarrow> 's word option" where
  "get_sl_bitmap t fl = (if fl < length (sl_bitmap t) then Some (sl_bitmap t ! fl) else None)"

definition set_sl_bitmap :: "('f::len word, 's::len word) tlsf \<Rightarrow> nat \<Rightarrow> 's word \<Rightarrow> ('f word, 's word) tlsf option" where
  "set_sl_bitmap t fl w =
     (if fl < length (sl_bitmap t) then Some (t\<lparr>sl_bitmap := (sl_bitmap t)[fl := w]\<rparr>) else None)"

section \<open>Operations\<close>

definition link_free_block ::
  "cfg \<Rightarrow> ('f::len word, 's::len word) tlsf \<Rightarrow> mem \<Rightarrow> usize \<Rightarrow> usize \<Rightarrow> (('f word, 's word) tlsf \<times> mem) option" where
  "link_free_block c t m block sz = do {
     r \<leftarrow> map_floor c sz;
     (fl, sl) \<leftarrow> r;
     next_free \<leftarrow> get_first_free t fl sl;
     t \<leftarrow> set_first_free t fl sl (Some block);
     m \<leftarrow> write_next_free m block next_free;
     m \<leftarrow> write_prev_free m block None;
     m \<leftarrow> (case next_free of None \<Rightarrow> Some m | Some nf \<Rightarrow> write_prev_free m nf (Some block));
     let t = t\<lparr>fl_bitmap := set_bit' (fl_bitmap t) fl\<rparr>;
     b \<leftarrow> get_sl_bitmap t fl;
     t \<leftarrow> set_sl_bitmap t fl (set_bit' b sl);
     Some (t, m)
   }"

definition clear_bitmaps ::
  "('f::len word, 's::len word) tlsf \<Rightarrow> nat \<Rightarrow> nat \<Rightarrow> ('f word, 's word) tlsf option" where
  \<comment> \<open>the free list is now empty: update the bitmaps\<close>
  "clear_bitmaps t fl sl = do {
     b \<leftarrow> get_sl_bitmap t fl;
     t \<leftarrow> set_sl_bitmap t fl (clear_bit b sl);
     b \<leftarrow> get_sl_bitmap t fl;
     Some (if b = 0 then t\<lparr>fl_bitmap := clear_bit (fl_bitmap t) fl\<rparr> else t)
   }"

definition unlink_free_block ::
  "cfg \<Rightarrow> ('f::len word, 's::len word) tlsf \<Rightarrow> mem \<Rightarrow> usize \<Rightarrow> usize \<Rightarrow> (('f word, 's word) tlsf \<times> mem) option" where
  "unlink_free_block c t m block sz = do {
     next_free \<leftarrow> read_next_free m block;
     prev_free \<leftarrow> read_prev_free m block;
     m \<leftarrow> (case next_free of None \<Rightarrow> Some m | Some nf \<Rightarrow> write_prev_free m nf prev_free);
     case prev_free of
       Some pf \<Rightarrow> do {
         m \<leftarrow> write_next_free m pf next_free;
         Some (t, m)
       }
     | None \<Rightarrow> do {
         r \<leftarrow> map_floor c sz;
         (fl, sl) \<leftarrow> r;
         ff \<leftarrow> get_first_free t fl sl;
         debug_assert (ff = Some block);
         t \<leftarrow> set_first_free t fl sl next_free;
         t \<leftarrow> (if next_free = None then clear_bitmaps t fl sl else Some t);
         Some (t, m)
       }
   }"

definition unlink_first_free ::
  "('f::len word, 's::len word) tlsf \<Rightarrow> mem \<Rightarrow> nat \<Rightarrow> nat \<Rightarrow> usize \<Rightarrow> (('f word, 's word) tlsf \<times> mem) option" where
  "unlink_first_free t m fl sl block = do {
     next_free \<leftarrow> read_next_free m block;
     t \<leftarrow> set_first_free t fl sl next_free;
     case next_free of
       Some nf \<Rightarrow> do {
         m \<leftarrow> write_prev_free m nf None;
         Some (t, m)
       }
     | None \<Rightarrow> do {
         t \<leftarrow> clear_bitmaps t fl sl;
         Some (t, m)
       }
   }"

definition search_suitable_free_block_list_for_allocation ::
  "cfg \<Rightarrow> ('f::len word, 's::len word) tlsf \<Rightarrow> usize \<Rightarrow> (nat \<times> nat) option fallible" where
  "search_suitable_free_block_list_for_allocation c t min_size = do {
     r \<leftarrow> map_ceil c min_size;
     case r of
       None \<Rightarrow> Some None
     | Some (fl, sl) \<Rightarrow> do {
         b \<leftarrow> get_sl_bitmap t fl;
         sl \<leftarrow> bit_scan_forward b sl;
         if sl < SLLEN c then do {
           debug_assert (get_bit b sl);
           Some (Some (fl, sl))
         } else do {
           fl \<leftarrow> bit_scan_forward (fl_bitmap t) (fl + 1);
           if fl < FLLEN c then do {
             debug_assert (get_bit (fl_bitmap t) fl);
             b \<leftarrow> get_sl_bitmap t fl;
             let sl = word_trailing_zeros b;
             debug_assert (sl < SLLEN c);
             debug_assert (get_bit b sl);
             Some (Some (fl, sl))
           } else Some None
         }
       }
   }"

section \<open>The invariant\<close>

type_synonym classes = "usize \<Rightarrow> (nat \<times> nat) option"

fun dll :: "mem \<Rightarrow> usize option \<Rightarrow> usize option \<Rightarrow> usize list \<Rightarrow> bool" where
  "dll m p f [] \<longleftrightarrow> f = None"
| "dll m p f (x # xs) \<longleftrightarrow> f = Some x \<and> m (x + 24) = Some (of_ptr p) \<and>
     (case m (x + 16) of None \<Rightarrow> False | Some v \<Rightarrow> dll m (Some x) (to_ptr v) xs)"

definition fl_shape :: "cfg \<Rightarrow> ('f::len word, 's::len word) tlsf \<Rightarrow> bool" where
  "fl_shape c t \<longleftrightarrow> length (sl_bitmap t) = FLLEN c \<and> length (first_free t) = FLLEN c \<and>
     (\<forall>fl < FLLEN c. length (first_free t ! fl) = SLLEN c) \<and>
     FLLEN c \<le> LENGTH('f) \<and> SLLEN c \<le> LENGTH('s)"

definition bitmaps_ok :: "cfg \<Rightarrow> ('f::len word, 's::len word) tlsf \<Rightarrow> bool" where
  "bitmaps_ok c t \<longleftrightarrow>
     (\<forall>fl < FLLEN c. \<forall>sl. bit (sl_bitmap t ! fl) sl \<longleftrightarrow> sl < SLLEN c \<and> first_free t ! fl ! sl \<noteq> None) \<and>
     (\<forall>fl. bit (fl_bitmap t) fl \<longleftrightarrow> fl < FLLEN c \<and> sl_bitmap t ! fl \<noteq> 0)"

definition classes_ok :: "cfg \<Rightarrow> classes \<Rightarrow> bool" where
  "classes_ok c cls \<longleftrightarrow>
     (\<forall>x fl sl. cls x = Some (fl, sl) \<longrightarrow> 32 dvd x \<and> 0 < x \<and> fl < FLLEN c \<and> sl < SLLEN c)"

definition lists_ok :: "cfg \<Rightarrow> ('f::len word, 's::len word) tlsf \<Rightarrow> mem \<Rightarrow> classes \<Rightarrow> bool" where
  "lists_ok c t m cls \<longleftrightarrow> (\<forall>fl < FLLEN c. \<forall>sl < SLLEN c.
     \<exists>xs. dll m None (first_free t ! fl ! sl) xs \<and> distinct xs \<and> set xs = {x. cls x = Some (fl, sl)})"

definition fl_inv :: "cfg \<Rightarrow> ('f::len word, 's::len word) tlsf \<Rightarrow> mem \<Rightarrow> classes \<Rightarrow> bool" where
  "fl_inv c t m cls \<longleftrightarrow> cfg_ok c \<and> fl_shape c t \<and> bitmaps_ok c t \<and> classes_ok c cls \<and> lists_ok c t m cls"

definition link_cells :: "usize set \<Rightarrow> usize set" where
  "link_cells D = (\<lambda>x. x + 16) ` D \<union> (\<lambda>x. x + 24) ` D"

definition changes_only :: "mem \<Rightarrow> mem \<Rightarrow> usize set \<Rightarrow> bool" where
  "changes_only m m' S \<longleftrightarrow> dom m' = dom m \<and> (\<forall>a. a \<notin> S \<longrightarrow> m' a = m a)"

section \<open>Doubly linked lists\<close>

lemma dll_frame:
  assumes "dll m p f xs" and "\<And>x. x \<in> set xs \<Longrightarrow> m' (x + 16) = m (x + 16) \<and> m' (x + 24) = m (x + 24)"
  shows "dll m' p f xs"
  using assms by (induction xs arbitrary: p f) (auto split: option.splits)

lemma dll_hd: "dll m p f xs \<Longrightarrow> f = (case xs of [] \<Rightarrow> None | x # _ \<Rightarrow> Some x)"
  by (cases xs) auto

lemma dll_cells: "dll m p f xs \<Longrightarrow> x \<in> set xs \<Longrightarrow> m (x + 16) \<noteq> None \<and> m (x + 24) \<noteq> None"
  by (induction xs arbitrary: p f) (auto split: option.splits)

lemma dll_change_prev:
  assumes "dll m p f (x # xs)" and "x \<notin> set xs" and "\<And>y. y \<in> set (x # xs) \<Longrightarrow> 32 dvd y"
  shows "dll (m(x + 24 \<mapsto> of_ptr q)) q f (x # xs)"
proof -
  obtain v where v: "m (x + 16) = Some v" "dll m (Some x) (to_ptr v) xs"
    using assms(1) by (auto split: option.splits)
  have "dll (m(x + 24 \<mapsto> of_ptr q)) (Some x) (to_ptr v) xs"
    using v(2) by (rule dll_frame) (use assms(2,3) in \<open>auto simp: cell_simps\<close>)
  with v(1) assms(1) show ?thesis by simp
qed

lemma dll_push:
  assumes "dll m None f xs" and "x \<notin> set xs" and "distinct xs" and "32 dvd x" and "0 < x"
    and "\<And>y. y \<in> set xs \<Longrightarrow> 32 dvd y \<and> 0 < y"
  shows "dll (case f of None \<Rightarrow> m(x + 16 \<mapsto> of_ptr f, x + 24 \<mapsto> 0)
      | Some y \<Rightarrow> m(x + 16 \<mapsto> of_ptr f, x + 24 \<mapsto> 0, y + 24 \<mapsto> x)) None (Some x) (x # xs)"
proof (cases xs)
  case Nil
  with assms(1) show ?thesis by simp
next
  case (Cons y ys)
  let ?m = "m(x + 16 \<mapsto> of_ptr f, x + 24 \<mapsto> 0)"
  have f: "f = Some y" using dll_hd [OF assms(1)] Cons by simp
  have "dll ?m None f xs"
    using assms(1) by (rule dll_frame) (use assms(2,4,6) in \<open>auto simp: cell_simps\<close>)
  then have "dll (?m(y + 24 \<mapsto> of_ptr (Some x))) (Some x) f xs"
    unfolding Cons by (rule dll_change_prev) (use assms(3,6) Cons in auto)
  moreover have "x \<noteq> y" "32 dvd y" "0 < y" using assms(2,6) Cons by auto
  ultimately show ?thesis using f assms(4,5) by (simp add: cell_simps)
qed

text \<open>Removing \<open>b\<close> from a list: its neighbours are linked to each other.\<close>

definition dll_bypass :: "mem \<Rightarrow> usize list \<Rightarrow> usize \<Rightarrow> usize \<Rightarrow> mem" where
  "dll_bypass m ys v w =
     (let m1 = (case to_ptr v of None \<Rightarrow> m | Some z \<Rightarrow> m(z + 24 \<mapsto> w))
      in if ys = [] then m1 else m1(last ys + 16 \<mapsto> v))"

lemma dll_bypass_head:
  assumes d: "dll m (Some b) (to_ptr v) zs" and "distinct zs" and "\<And>y. y \<in> set zs \<Longrightarrow> 32 dvd y \<and> 0 < y"
  shows "dll (dll_bypass m [] v (of_ptr p)) p (to_ptr v) zs"
proof (cases zs)
  case Nil
  with dll_hd [OF d] show ?thesis by simp
next
  case (Cons z zs')
  have "dll (m(z + 24 \<mapsto> of_ptr p)) p (to_ptr v) (z # zs')"
    using d unfolding Cons by (rule dll_change_prev) (use assms(2,3) Cons in auto)
  with dll_hd [OF d] Cons show ?thesis by (simp add: dll_bypass_def)
qed

lemma dll_unlink:
  assumes "dll m p f (ys @ b # zs)" and "distinct (ys @ b # zs)"
    and "\<And>y. y \<in> set (ys @ b # zs) \<Longrightarrow> 32 dvd y \<and> 0 < y"
  shows "\<exists>v w. m (b + 16) = Some v \<and> m (b + 24) = Some w \<and>
     to_ptr v = (case zs of [] \<Rightarrow> None | z # _ \<Rightarrow> Some z) \<and>
     w = of_ptr (if ys = [] then p else Some (last ys)) \<and>
     dll (dll_bypass m ys v w) p (if ys = [] then to_ptr v else f) (ys @ zs)"
  using assms
proof (induction ys arbitrary: p f)
  case Nil
  then obtain v where v: "m (b + 16) = Some v" "dll m (Some b) (to_ptr v) zs" "m (b + 24) = Some (of_ptr p)"
    by (auto split: option.splits)
  have nxt: "to_ptr v = (case zs of [] \<Rightarrow> None | z # _ \<Rightarrow> Some z)" using dll_hd [OF v(2)] .
  have "dll (dll_bypass m [] v (of_ptr p)) p (to_ptr v) zs"
    by (rule dll_bypass_head [OF v(2)]) (use Nil.prems in auto)
  with v nxt show ?case by simp
next
  case (Cons y ys)
  obtain u where u: "m (y + 16) = Some u" "m (y + 24) = Some (of_ptr p)"
      "dll m (Some y) (to_ptr u) (ys @ b # zs)" and f: "f = Some y"
    using Cons.prems(1) by (auto split: option.splits)
  obtain v w where vw: "m (b + 16) = Some v" "m (b + 24) = Some w"
      "to_ptr v = (case zs of [] \<Rightarrow> None | z # _ \<Rightarrow> Some z)"
      "w = of_ptr (if ys = [] then Some y else Some (last ys))"
      "dll (dll_bypass m ys v w) (Some y) (if ys = [] then to_ptr v else to_ptr u) (ys @ zs)"
    using Cons.IH [OF u(3)] Cons.prems(2,3) by auto
  have al: "32 dvd x" if "x \<in> set (y # ys @ zs)" for x using Cons.prems(3) that by auto
  have z: "to_ptr v = Some z \<Longrightarrow> z \<in> set zs \<and> z \<noteq> y" for z
    using vw(3) Cons.prems(2) by (auto split: list.splits)
  have keep: "dll_bypass m (y # ys) v w (y + 24) = m (y + 24)"
    using z al last_in_set [of "y # ys"] by (auto simp: dll_bypass_def Let_def cell_simps split: option.splits)
  show ?case
  proof (cases "ys = []")
    case True
    have "dll_bypass m [y] v w = (dll_bypass m [] v w)(y + 16 \<mapsto> v)"
      by (simp add: dll_bypass_def Let_def)
    moreover have "dll (dll_bypass m [] v w) (Some y) (to_ptr v) zs" using vw(5) True by simp
    then have "dll ((dll_bypass m [] v w)(y + 16 \<mapsto> v)) (Some y) (to_ptr v) zs"
      by (rule dll_frame) (use Cons.prems(2) al in \<open>auto simp: cell_simps\<close>)
    ultimately show ?thesis using vw keep True u f by simp
  next
    case False
    then have "last ys \<noteq> y" using Cons.prems(2) last_in_set by fastforce
    then have "dll_bypass m (y # ys) v w (y + 16) = m (y + 16)"
      using z al False by (auto simp: dll_bypass_def Let_def cell_simps split: option.splits)
    moreover have "dll_bypass m (y # ys) v w = dll_bypass m ys v w"
      using False by (simp add: dll_bypass_def Let_def)
    ultimately show ?thesis using vw keep False u f by simp
  qed
qed

section \<open>Bitmaps\<close>

lemma index_eval [usize_simps]:
  assumes "fl_shape c t" and "fl < FLLEN c" and "sl < SLLEN c"
  shows "get_first_free t fl sl = Some (first_free t ! fl ! sl)"
    and "set_first_free t fl sl p = Some (t\<lparr>first_free := (first_free t)[fl := (first_free t ! fl)[sl := p]]\<rparr>)"
    and "get_sl_bitmap t fl = Some (sl_bitmap t ! fl)"
    and "set_sl_bitmap t fl w = Some (t\<lparr>sl_bitmap := (sl_bitmap t)[fl := w]\<rparr>)"
  using assms
  by (auto simp: fl_shape_def get_first_free_def set_first_free_def get_sl_bitmap_def set_sl_bitmap_def)

lemma fl_shape_update [simp]:
  fixes t :: "('f::len word, 's::len word) tlsf"
  shows "fl_shape c (t\<lparr>fl_bitmap := w\<rparr>) \<longleftrightarrow> fl_shape c t"
    and "fl_shape c (t\<lparr>sl_bitmap := (sl_bitmap t)[fl := v]\<rparr>) \<longleftrightarrow> fl_shape c t"
    and "fl_shape c t \<Longrightarrow> fl < FLLEN c \<Longrightarrow>
      fl_shape c (t\<lparr>first_free := (first_free t)[fl := (first_free t ! fl)[sl := p]]\<rparr>)"
  by (auto simp: fl_shape_def nth_list_update)

lemma bitmaps_ok_set:
  fixes t :: "('f::len word, 's::len word) tlsf"
  assumes "fl_shape c t" "bitmaps_ok c t" "fl < FLLEN c" "sl < SLLEN c"
  shows "bitmaps_ok c (t\<lparr>first_free := (first_free t)[fl := (first_free t ! fl)[sl := Some x]],
    fl_bitmap := set_bit' (fl_bitmap t) fl,
    sl_bitmap := (sl_bitmap t)[fl := set_bit' (sl_bitmap t ! fl) sl]\<rparr>)"
proof -
  have len: "length (first_free t) = FLLEN c" "length (sl_bitmap t) = FLLEN c"
      "length (first_free t ! fl) = SLLEN c" "fl < LENGTH('f)" "sl < LENGTH('s)"
    using assms(1,3,4) by (auto simp: fl_shape_def)
  have "bit (set_bit' (sl_bitmap t ! fl) sl) sl" using len by simp
  then have "set_bit' (sl_bitmap t ! fl) sl \<noteq> 0" by (metis bit_0_eq bot_apply bot_bool_def)
  then show ?thesis using assms(2-4) len
    by (auto simp: bitmaps_ok_def nth_list_update)
qed

lemma clear_bitmaps_ok:
  fixes t :: "('f::len word, 's::len word) tlsf"
  assumes "fl_shape c t" "bitmaps_ok c t" "fl < FLLEN c" "sl < SLLEN c"
  shows "\<exists>t'. clear_bitmaps (t\<lparr>first_free := (first_free t)[fl := (first_free t ! fl)[sl := None]]\<rparr>) fl sl = Some t' \<and>
    first_free t' = (first_free t)[fl := (first_free t ! fl)[sl := None]] \<and> fl_shape c t' \<and> bitmaps_ok c t'"
proof -
  let ?ff = "(first_free t)[fl := (first_free t ! fl)[sl := None]]"
  let ?w = "clear_bit (sl_bitmap t ! fl) sl" and ?t = "t\<lparr>first_free := ?ff\<rparr>"
  let ?u = "?t\<lparr>sl_bitmap := (sl_bitmap t)[fl := ?w]\<rparr>"
  have len: "length (first_free t) = FLLEN c" "length (sl_bitmap t) = FLLEN c"
      "length (first_free t ! fl) = SLLEN c" "fl < LENGTH('f)"
    using assms(1,3,4) by (auto simp: fl_shape_def)
  have shape: "fl_shape c ?t" "fl_shape c ?u" using assms(1,3) by (simp_all add: fl_shape_def nth_list_update)
  have ev: "clear_bitmaps ?t fl sl = Some (if ?w = 0 then ?u\<lparr>fl_bitmap := clear_bit (fl_bitmap t) fl\<rparr> else ?u)"
    unfolding clear_bitmaps_def using assms(3) len
    by (simp add: get_sl_bitmap_def set_sl_bitmap_def)
  have w: "bit ?w j \<longleftrightarrow> j < SLLEN c \<and> ?ff ! fl ! j \<noteq> None" for j
    using assms(2-4) len by (auto simp: bitmaps_ok_def nth_list_update)
  have sl1: "\<forall>g < FLLEN c. \<forall>j. bit ((sl_bitmap t)[fl := ?w] ! g) j \<longleftrightarrow> j < SLLEN c \<and> ?ff ! g ! j \<noteq> None"
  proof (intro allI impI)
    fix g j assume "g < FLLEN c"
    then show "bit ((sl_bitmap t)[fl := ?w] ! g) j \<longleftrightarrow> j < SLLEN c \<and> ?ff ! g ! j \<noteq> None"
      using w assms(2) len by (cases "g = fl") (simp_all add: bitmaps_ok_def)
  qed
  have "?w \<noteq> 0 \<Longrightarrow> sl_bitmap t ! fl \<noteq> 0"
    by (metis bit_clear_bit bit_eqI bit_0_eq bot_apply bot_bool_def)
  then have "bitmaps_ok c (if ?w = 0 then ?u\<lparr>fl_bitmap := clear_bit (fl_bitmap t) fl\<rparr> else ?u)"
    unfolding bitmaps_ok_def using sl1 assms(2,3) len
    by (cases "?w = 0") (auto simp: bitmaps_ok_def nth_list_update)
  with ev shape show ?thesis by (auto split: if_splits)
qed

section \<open>Linking and unlinking\<close>

lemma changes_only_refl [simp]: "changes_only m m S"
  by (simp add: changes_only_def)

lemma changes_only_upd: "a \<in> S \<Longrightarrow> m a \<noteq> None \<Longrightarrow> changes_only m (m(a \<mapsto> v)) S"
  by (auto simp: changes_only_def)

lemma changes_only_trans:
  "changes_only m m' S \<Longrightarrow> changes_only m' m'' T \<Longrightarrow> S \<subseteq> U \<Longrightarrow> T \<subseteq> U \<Longrightarrow> changes_only m m'' U"
  unfolding changes_only_def by (metis subset_iff)

lemma changes_only_upd2:
  "changes_only m m' S \<Longrightarrow> a \<in> S \<Longrightarrow> m a \<noteq> None \<Longrightarrow> changes_only m (m'(a \<mapsto> v)) S"
  by (auto simp: changes_only_def)

lemma link_cellsI [intro, simp]: "x \<in> D \<Longrightarrow> x + 16 \<in> link_cells D" "x \<in> D \<Longrightarrow> x + 24 \<in> link_cells D"
  by (auto simp: link_cells_def)

lemma lists_okD:
  assumes "lists_ok c t m cls" "fl < FLLEN c" "sl < SLLEN c"
  obtains xs where "dll m None (first_free t ! fl ! sl) xs" "distinct xs" "set xs = {x. cls x = Some (fl, sl)}"
  using assms unfolding lists_ok_def by blast

text \<open>Updating one list: the others are untouched when the cells that change are not theirs.\<close>

lemma lists_ok_update:
  assumes "fl_shape c t" "lists_ok c t m cls" "classes_ok c cls"
    and ff: "first_free t' = (first_free t)[fl := (first_free t ! fl)[sl := p]]"
    and "fl < FLLEN c" "sl < SLLEN c"
    and new: "dll m' None p xs" "distinct xs" "set xs = {x. cls' x = Some (fl, sl)}"
    and same: "\<And>x l. l \<noteq> (fl, sl) \<Longrightarrow> cls' x = Some l \<longleftrightarrow> cls x = Some l"
    and cells: "\<And>x l. l \<noteq> (fl, sl) \<Longrightarrow> cls x = Some l \<Longrightarrow>
      m' (x + 16) = m (x + 16) \<and> m' (x + 24) = m (x + 24)"
  shows "lists_ok c t' m' cls'"
  unfolding lists_ok_def
proof (intro allI impI)
  fix g j assume gj: "g < FLLEN c" "j < SLLEN c"
  have len: "length (first_free t) = FLLEN c" "length (first_free t ! fl) = SLLEN c"
    using assms(1,5) by (auto simp: fl_shape_def)
  show "\<exists>xs. dll m' None (first_free t' ! g ! j) xs \<and> distinct xs \<and> set xs = {x. cls' x = Some (g, j)}"
  proof (cases "(g, j) = (fl, sl)")
    case True
    with new ff len gj show ?thesis by auto
  next
    case False
    obtain ys where ys: "dll m None (first_free t ! g ! j) ys" "distinct ys" "set ys = {x. cls x = Some (g, j)}"
      by (rule lists_okD [OF assms(2) gj])
    have "first_free t' ! g ! j = first_free t ! g ! j"
      using False ff len gj by (cases "g = fl") (auto simp: nth_list_update)
    moreover have "dll m' None (first_free t ! g ! j) ys"
      using ys(1) by (rule dll_frame) (use ys(3) cells [OF False] in blast)
    ultimately show ?thesis using ys(2,3) same [OF False] by auto
  qed
qed

lemma link_free_block_ok:
  fixes t :: "('f::len word, 's::len word) tlsf"
  assumes inv: "fl_inv c t m cls" and floor: "map_floor c sz = Some (Some (fl, sl))"
    and rng: "fl < FLLEN c" "sl < SLLEN c"
    and x: "cls x = None" "32 dvd x" "0 < x" "m (x + 16) \<noteq> None" "m (x + 24) \<noteq> None"
  shows "\<exists>t' m'. link_free_block c t m x sz = Some (t', m') \<and> fl_inv c t' m' (cls(x \<mapsto> (fl, sl))) \<and>
    changes_only m m' (link_cells (insert x (dom cls)))"
proof -
  have sh: "cfg_ok c" "fl_shape c t" "bitmaps_ok c t" "classes_ok c cls" "lists_ok c t m cls"
    using inv by (simp_all add: fl_inv_def)
  let ?f = "first_free t ! fl ! sl"
  obtain xs where xs: "dll m None ?f xs" "distinct xs" "set xs = {y. cls y = Some (fl, sl)}"
    by (rule lists_okD [OF sh(5) rng])
  have al: "32 dvd y \<and> 0 < y" if "cls y \<noteq> None" for y using sh(4) that by (auto simp: classes_ok_def)
  define m' where "m' = (case ?f of None \<Rightarrow> m(x + 16 \<mapsto> of_ptr ?f, x + 24 \<mapsto> 0)
      | Some y \<Rightarrow> m(x + 16 \<mapsto> of_ptr ?f, x + 24 \<mapsto> 0, y + 24 \<mapsto> x))"
  define t' where "t' = t\<lparr>first_free := (first_free t)[fl := (first_free t ! fl)[sl := Some x]],
    fl_bitmap := set_bit' (fl_bitmap t) fl,
    sl_bitmap := (sl_bitmap t)[fl := set_bit' (sl_bitmap t ! fl) sl]\<rparr>"
  have hd: "cls y = Some (fl, sl)" "32 dvd y" "m (y + 24) \<noteq> None" if "?f = Some y" for y
  proof -
    have "y \<in> set xs" using dll_hd [OF xs(1)] that by (cases xs) auto
    then show "cls y = Some (fl, sl)" "32 dvd y" "m (y + 24) \<noteq> None"
      using xs(3) al dll_cells [OF xs(1)] by auto
  qed
  have len: "length (first_free t) = FLLEN c" "length (sl_bitmap t) = FLLEN c"
      "length (first_free t ! fl) = SLLEN c" using sh(2) rng by (auto simp: fl_shape_def)
  have ev: "link_free_block c t m x sz = Some (t', m')"
    unfolding link_free_block_def floor using x rng len hd
    by (auto simp: usize_simps mem_simps cell_simps t'_def m'_def get_first_free_def set_first_free_def
        get_sl_bitmap_def set_sl_bitmap_def split: option.splits)
  have shape: "fl_shape c t'" using sh(2) rng by (auto simp: t'_def fl_shape_def nth_list_update)
  have bm: "bitmaps_ok c t'" unfolding t'_def by (rule bitmaps_ok_set [OF sh(2,3) rng])
  have notin: "x \<notin> set xs" using xs(3) x(1) by auto
  have d: "dll m' None (Some x) (x # xs)"
    unfolding m'_def by (rule dll_push [OF xs(1) notin xs(2) x(2,3)]) (use xs(3) al in auto)
  have "lists_ok c t' m' (cls(x \<mapsto> (fl, sl)))"
  proof (rule lists_ok_update [OF sh(2,5,4) _ rng d])
    show "first_free t' = (first_free t)[fl := (first_free t ! fl)[sl := Some x]]" by (simp add: t'_def)
    show "distinct (x # xs)" using xs(2) notin by simp
    show "set (x # xs) = {y. (cls(x \<mapsto> (fl, sl))) y = Some (fl, sl)}" using xs(3) by auto
    show "m' (y + 16) = m (y + 16) \<and> m' (y + 24) = m (y + 24)" if "l \<noteq> (fl, sl)" "cls y = Some l" for y l
      using that hd x(1,2) al by (auto simp: m'_def cell_simps split: option.splits)
  qed (use x(1) in auto)
  moreover have "classes_ok c (cls(x \<mapsto> (fl, sl)))" using sh(4) x(2,3) rng by (auto simp: classes_ok_def)
  moreover have "changes_only m m' (link_cells (insert x (dom cls)))"
    using hd x(4,5) unfolding m'_def
    by (cases ?f) (auto intro!: changes_only_upd2 changes_only_upd simp del: of_ptr_simps)
  ultimately show ?thesis using ev shape bm sh(1) by (auto simp: fl_inv_def)
qed

lemma bitmaps_ok_replace:
  fixes t :: "('f::len word, 's::len word) tlsf"
  assumes "fl_shape c t" "bitmaps_ok c t" "fl < FLLEN c" "sl < SLLEN c"
    and "first_free t ! fl ! sl \<noteq> None" and "p \<noteq> None"
  shows "bitmaps_ok c (t\<lparr>first_free := (first_free t)[fl := (first_free t ! fl)[sl := p]]\<rparr>)"
  using assms by (auto simp: bitmaps_ok_def fl_shape_def nth_list_update)

lemma bypass_cells:
  assumes "classes_ok c cls" "set (ys @ x # zs) = {y. cls y = Some (fl, sl)}"
    and "to_ptr v = (case zs of [] \<Rightarrow> None | z # _ \<Rightarrow> Some z)"
    and "l \<noteq> (fl, sl)" "cls y = Some l"
  shows "dll_bypass m ys v w (y + 16) = m (y + 16) \<and> dll_bypass m ys v w (y + 24) = m (y + 24)"
proof -
  have dv: "32 dvd z" if "cls z \<noteq> None" for z using assms(1) that by (auto simp: classes_ok_def)
  have al: "32 dvd y" "\<And>z. z \<in> set (ys @ zs) \<Longrightarrow> 32 dvd z \<and> z \<noteq> y"
  proof -
    show "32 dvd y" using dv assms(5) by simp
    fix z assume "z \<in> set (ys @ zs)"
    then have "cls z = Some (fl, sl)" using assms(2) by auto
    then show "32 dvd z \<and> z \<noteq> y" using dv assms(4,5) by auto
  qed
  have v: "32 dvd z \<and> z \<noteq> y" if "to_ptr v = Some z" for z
    using that assms(3) al(2) by (auto split: list.splits)
  have l: "32 dvd last ys \<and> last ys \<noteq> y" if "ys \<noteq> []" using al(2) [of "last ys"] that by simp
  show ?thesis
  proof (cases "to_ptr v")
    case None
    then show ?thesis using al(1) l by (cases "ys = []") (simp_all add: dll_bypass_def cell_simps)
  next
    case (Some z)
    then show ?thesis using al(1) l v [OF Some] by (cases "ys = []") (simp_all add: dll_bypass_def cell_simps)
  qed
qed

lemma bypass_changes:
  assumes "dll m p f (ys @ x # zs)" "set (ys @ x # zs) \<subseteq> D"
    and "to_ptr v = (case zs of [] \<Rightarrow> None | z # _ \<Rightarrow> Some z)"
  shows "changes_only m (dll_bypass m ys v w) (link_cells D)"
proof -
  have c: "\<And>y. y \<in> set (ys @ zs) \<Longrightarrow> y \<in> D \<and> m (y + 16) \<noteq> None \<and> m (y + 24) \<noteq> None"
    using dll_cells [OF assms(1)] assms(2) by auto
  have "changes_only m (case to_ptr v of None \<Rightarrow> m | Some z \<Rightarrow> m(z + 24 \<mapsto> w)) (link_cells D)"
    using assms(3) c by (auto intro!: changes_only_upd split: list.splits option.splits)
  then show ?thesis using c [of "last ys"] last_in_set [of ys]
    by (auto simp: dll_bypass_def Let_def intro!: changes_only_upd2)
qed

text \<open>The first block of a list leaves it: the head moves on, and the bitmaps follow when the list
  becomes empty.\<close>

lemma unlink_head_ok:
  fixes t :: "('f::len word, 's::len word) tlsf"
  assumes inv: "fl_inv c t m cls" and rng: "fl < FLLEN c" "sl < SLLEN c"
    and xs: "dll m None (first_free t ! fl ! sl) (x # zs)" "distinct (x # zs)"
      "set (x # zs) = {y. cls y = Some (fl, sl)}"
    and v: "to_ptr v = (case zs of [] \<Rightarrow> None | z # _ \<Rightarrow> Some z)"
    and d: "dll (dll_bypass m [] v 0) None (to_ptr v) zs"
  shows "\<exists>t'. (if to_ptr v = None
        then clear_bitmaps (t\<lparr>first_free := (first_free t)[fl := (first_free t ! fl)[sl := to_ptr v]]\<rparr>) fl sl
        else Some (t\<lparr>first_free := (first_free t)[fl := (first_free t ! fl)[sl := to_ptr v]]\<rparr>)) = Some t' \<and>
    fl_inv c t' (dll_bypass m [] v 0) (cls(x := None))"
proof -
  have sh: "cfg_ok c" "fl_shape c t" "bitmaps_ok c t" "classes_ok c cls" "lists_ok c t m cls"
    using inv by (simp_all add: fl_inv_def)
  let ?ff = "(first_free t)[fl := (first_free t ! fl)[sl := to_ptr v]]"
  obtain t' where t': "(if to_ptr v = None then clear_bitmaps (t\<lparr>first_free := ?ff\<rparr>) fl sl
        else Some (t\<lparr>first_free := ?ff\<rparr>)) = Some t'" "first_free t' = ?ff" "fl_shape c t'" "bitmaps_ok c t'"
  proof (cases "to_ptr v = None")
    case True
    then show thesis using clear_bitmaps_ok [OF sh(2,3) rng] that by auto
  next
    case False
    have "bitmaps_ok c (t\<lparr>first_free := ?ff\<rparr>)"
      using False xs(1) by (intro bitmaps_ok_replace [OF sh(2,3) rng]) auto
    with False sh(2) rng show thesis by (intro that) auto
  qed
  have x: "cls x = Some (fl, sl)" using xs(3) by auto
  have "lists_ok c t' (dll_bypass m [] v 0) (cls(x := None))"
  proof (rule lists_ok_update [OF sh(2,5,4) t'(2) rng d])
    show "distinct zs" using xs(2) by simp
    show "set zs = {y. (cls(x := None)) y = Some (fl, sl)}" using xs(2,3) by auto
    show "((cls(x := None)) y = Some l) = (cls y = Some l)" if "l \<noteq> (fl, sl)" for y l
      using that x by auto
    show "dll_bypass m [] v 0 (y + 16) = m (y + 16) \<and> dll_bypass m [] v 0 (y + 24) = m (y + 24)"
      if "l \<noteq> (fl, sl)" "cls y = Some l" for y l
      using bypass_cells [OF sh(4) _ v that, of "[]"] xs(3) by simp
  qed
  moreover have "classes_ok c (cls(x := None))" using sh(4) by (auto simp: classes_ok_def)
  ultimately show ?thesis using t' sh(1) by (auto simp: fl_inv_def)
qed

text \<open>Bypassing a block that has a predecessor in its list leaves the head of the list and the bitmaps alone.\<close>

lemma bypass_inner_inv:
  fixes t :: "('f::len word, 's::len word) tlsf"
  assumes inv: "fl_inv c t m cls" and x: "cls x = Some (fl, sl)"
    and xs: "distinct (ys @ x # zs)" "set (ys @ x # zs) = {y. cls y = Some (fl, sl)}"
    and v: "to_ptr v = (case zs of [] \<Rightarrow> None | z # _ \<Rightarrow> Some z)"
    and d: "dll (dll_bypass m ys v w) None (first_free t ! fl ! sl) (ys @ zs)"
  shows "fl_inv c t (dll_bypass m ys v w) (cls(x := None))"
proof -
  have sh: "cfg_ok c" "fl_shape c t" "bitmaps_ok c t" "classes_ok c cls" "lists_ok c t m cls"
    using inv by (simp_all add: fl_inv_def)
  have rng: "fl < FLLEN c" "sl < SLLEN c" using sh(4) x by (auto simp: classes_ok_def)
  have "lists_ok c t (dll_bypass m ys v w) (cls(x := None))"
  proof (rule lists_ok_update [OF sh(2,5,4) _ rng d])
    show "first_free t = (first_free t)[fl := (first_free t ! fl)[sl := first_free t ! fl ! sl]]" by simp
    show "distinct (ys @ zs)" using xs(1) by simp
    show "set (ys @ zs) = {y. (cls(x := None)) y = Some (fl, sl)}" using xs by auto
    show "((cls(x := None)) y = Some l) = (cls y = Some l)" if "l \<noteq> (fl, sl)" for y l
      using that x by auto
  qed (rule bypass_cells [OF sh(4) xs(2) v])
  moreover have "classes_ok c (cls(x := None))" using sh(4) by (auto simp: classes_ok_def)
  ultimately show ?thesis using sh by (simp add: fl_inv_def)
qed

lemma unlink_free_block_ok:
  fixes t :: "('f::len word, 's::len word) tlsf"
  assumes inv: "fl_inv c t m cls" and x: "cls x = Some (fl, sl)"
    and floor: "map_floor c sz = Some (Some (fl, sl))"
  shows "\<exists>t' m'. unlink_free_block c t m x sz = Some (t', m') \<and> fl_inv c t' m' (cls(x := None)) \<and>
    changes_only m m' (link_cells (dom cls))"
proof -
  have sh: "cfg_ok c" "fl_shape c t" "bitmaps_ok c t" "classes_ok c cls" "lists_ok c t m cls"
    using inv by (simp_all add: fl_inv_def)
  have rng: "fl < FLLEN c" "sl < SLLEN c" and ax: "32 dvd x" "0 < x"
    using sh(4) x by (auto simp: classes_ok_def)
  obtain xs where xs: "dll m None (first_free t ! fl ! sl) xs" "distinct xs" "set xs = {y. cls y = Some (fl, sl)}"
    by (rule lists_okD [OF sh(5) rng])
  obtain ys zs where split: "xs = ys @ x # zs" using xs(3) x split_list [of x xs] by blast
  note xs = xs [unfolded split]
  have al: "32 dvd y \<and> 0 < y" if "y \<in> set (ys @ x # zs)" for y using sh(4) xs(3) that by (auto simp: classes_ok_def)
  obtain v w where vw: "m (x + 16) = Some v" "m (x + 24) = Some w"
      "to_ptr v = (case zs of [] \<Rightarrow> None | z # _ \<Rightarrow> Some z)"
      "w = of_ptr (if ys = [] then None else Some (last ys))"
      "dll (dll_bypass m ys v w) None (if ys = [] then to_ptr v else first_free t ! fl ! sl) (ys @ zs)"
    using dll_unlink [OF xs(1,2) al] by blast
  have mid: "(case to_ptr v of None \<Rightarrow> Some m | Some nf \<Rightarrow> write_prev_free m nf (to_ptr w)) =
      Some (case to_ptr v of None \<Rightarrow> m | Some z \<Rightarrow> m(z + 24 \<mapsto> w))"
    using vw(3) al dll_cells [OF xs(1)] by (auto simp: mem_simps split: list.splits option.splits)
  have sub: "set (ys @ x # zs) \<subseteq> dom cls" using xs(3) by auto
  have ch: "changes_only m (dll_bypass m ys v w) (link_cells (dom cls))"
    by (rule bypass_changes [OF xs(1) sub vw(3)])
  show ?thesis
  proof (cases "ys = []")
    case True
    then have w: "w = 0" and ff: "first_free t ! fl ! sl = Some x" using vw(4) xs(1) by auto
    have "dll (dll_bypass m [] v 0) None (to_ptr v) zs" using vw(5) True w by simp
    then obtain t' where t': "(if to_ptr v = None
        then clear_bitmaps (t\<lparr>first_free := (first_free t)[fl := (first_free t ! fl)[sl := to_ptr v]]\<rparr>) fl sl
        else Some (t\<lparr>first_free := (first_free t)[fl := (first_free t ! fl)[sl := to_ptr v]]\<rparr>)) = Some t'"
        "fl_inv c t' (dll_bypass m [] v 0) (cls(x := None))"
      using unlink_head_ok [OF inv rng _ _ _ vw(3), of x] xs True by auto
    have "unlink_free_block c t m x sz = Some (t', dll_bypass m [] v 0)"
      unfolding unlink_free_block_def floor using vw(1,2) mid [unfolded w to_ptr_simps] w ff t'(1) ax rng
      by (simp add: mem_simps index_eval [OF sh(2) rng] dll_bypass_def)
    with t' ch True w show ?thesis by auto
  next
    case False
    let ?l = "last ys"
    have l: "?l \<in> set ys" "32 dvd ?l" "0 < ?l" using False al by auto
    have w: "w = ?l" using vw(4) False by simp
    have "m (?l + 16) \<noteq> None" using dll_cells [OF xs(1)] l by auto
    then have cell: "(case to_ptr v of None \<Rightarrow> m | Some z \<Rightarrow> m(z + 24 \<mapsto> w)) (?l + 16) \<noteq> None"
      by (auto split: option.splits)
    have ptr: "to_ptr ?l = Some ?l" using l(3) by simp
    have ev: "unlink_free_block c t m x sz = Some (t, dll_bypass m ys v w)"
      unfolding unlink_free_block_def using vw(1,2) mid [unfolded w ptr] w l ax cell [unfolded w] False
      by (simp add: mem_simps dll_bypass_def Let_def)
    have "dll (dll_bypass m ys v w) None (first_free t ! fl ! sl) (ys @ zs)" using vw(5) False by simp
    from bypass_inner_inv [OF inv x xs(2,3) vw(3) this] show ?thesis using ev ch by blast
  qed
qed

lemma unlink_first_free_ok:
  fixes t :: "('f::len word, 's::len word) tlsf"
  assumes inv: "fl_inv c t m cls" and rng: "fl < FLLEN c" "sl < SLLEN c"
    and ff: "first_free t ! fl ! sl = Some x"
  shows "cls x = Some (fl, sl) \<and> (\<exists>t' m'. unlink_first_free t m fl sl x = Some (t', m') \<and>
    fl_inv c t' m' (cls(x := None)) \<and> changes_only m m' (link_cells (dom cls)))"
proof -
  have sh: "cfg_ok c" "fl_shape c t" "bitmaps_ok c t" "classes_ok c cls" "lists_ok c t m cls"
    using inv by (simp_all add: fl_inv_def)
  obtain xs where xs: "dll m None (first_free t ! fl ! sl) xs" "distinct xs" "set xs = {y. cls y = Some (fl, sl)}"
    by (rule lists_okD [OF sh(5) rng])
  obtain zs where zs: "xs = x # zs" using xs(1) ff by (cases xs) auto
  note xs = xs [unfolded zs]
  have x: "cls x = Some (fl, sl)" using xs(3) by auto
  have al: "32 dvd y \<and> 0 < y" if "y \<in> set (x # zs)" for y using sh(4) xs(3) that by (auto simp: classes_ok_def)
  obtain v where v: "m (x + 16) = Some v" "to_ptr v = (case zs of [] \<Rightarrow> None | z # _ \<Rightarrow> Some z)"
      "dll (dll_bypass m [] v 0) None (to_ptr v) zs"
    using dll_unlink [of m None _ "[]" x zs] xs(1,2) al by fastforce
  obtain t' where t': "(if to_ptr v = None
        then clear_bitmaps (t\<lparr>first_free := (first_free t)[fl := (first_free t ! fl)[sl := to_ptr v]]\<rparr>) fl sl
        else Some (t\<lparr>first_free := (first_free t)[fl := (first_free t ! fl)[sl := to_ptr v]]\<rparr>)) = Some t'"
      "fl_inv c t' (dll_bypass m [] v 0) (cls(x := None))"
    using unlink_head_ok [OF inv rng xs v(2,3)] by blast
  have z: "32 dvd z \<and> m (z + 24) \<noteq> None" if "to_ptr v = Some z" for z
    using v(2) that al dll_cells [OF xs(1)] by (auto split: list.splits)
  have "unlink_first_free t m fl sl x = Some (t', dll_bypass m [] v 0)"
    unfolding unlink_first_free_def using v(1) t'(1) al z
    by (auto simp: mem_simps index_eval [OF sh(2) rng] dll_bypass_def split: option.splits if_splits)
  moreover have "changes_only m (dll_bypass m [] v 0) (link_cells (dom cls))"
    by (rule bypass_changes [of m None "first_free t ! fl ! sl" "[]" x zs]) (use xs v(2) in auto)
  ultimately show ?thesis using x t'(2) by blast
qed

section \<open>The search\<close>

lemma first_free_class:
  assumes "fl_inv c t m cls" and "fl < FLLEN c" "sl < SLLEN c"
  shows "first_free t ! fl ! sl \<noteq> None \<longleftrightarrow> (\<exists>y. cls y = Some (fl, sl))"
proof -
  obtain xs where xs: "dll m None (first_free t ! fl ! sl) xs" "set xs = {y. cls y = Some (fl, sl)}"
    using assms by (auto simp: fl_inv_def elim: lists_okD)
  then show ?thesis by (cases xs) auto
qed

lemma sl_bit_class:
  fixes t :: "('f::len word, 's::len word) tlsf"
  assumes "fl_inv c t m cls" and "fl < FLLEN c"
  shows "bit (sl_bitmap t ! fl) sl \<longleftrightarrow> (\<exists>y. cls y = Some (fl, sl))"
proof -
  have "bit (sl_bitmap t ! fl) sl \<longleftrightarrow> sl < SLLEN c \<and> first_free t ! fl ! sl \<noteq> None"
    using assms by (simp add: fl_inv_def bitmaps_ok_def)
  moreover have "sl < SLLEN c" if "cls y = Some (fl, sl)" for y
    using assms(1) that by (auto simp: fl_inv_def classes_ok_def)
  ultimately show ?thesis using first_free_class [OF assms] by blast
qed

lemma fl_bit_class:
  fixes t :: "('f::len word, 's::len word) tlsf"
  assumes "fl_inv c t m cls"
  shows "bit (fl_bitmap t) fl \<longleftrightarrow> (\<exists>y sl. cls y = Some (fl, sl))"
proof -
  have "bit (fl_bitmap t) fl \<longleftrightarrow> fl < FLLEN c \<and> sl_bitmap t ! fl \<noteq> 0"
    using assms by (simp add: fl_inv_def bitmaps_ok_def)
  also have "\<dots> \<longleftrightarrow> fl < FLLEN c \<and> (\<exists>sl. bit (sl_bitmap t ! fl) sl)"
    by (metis bit_eq_iff bit_0_eq bot_apply bot_bool_def)
  moreover have "fl < FLLEN c" if "cls y = Some (fl, sl)" for y sl
    using assms that by (auto simp: fl_inv_def classes_ok_def)
  ultimately show ?thesis using sl_bit_class [OF assms] by blast
qed

definition best_list :: "classes \<Rightarrow> nat \<times> nat \<Rightarrow> (nat \<times> nat) option \<Rightarrow> bool" where
  \<comment> \<open>the first non-empty list at or after \<open>a\<close>\<close>
  "best_list cls a r \<longleftrightarrow> (case r of
     None \<Rightarrow> (\<forall>y l. cls y = Some l \<longrightarrow> \<not> list_le a l)
   | Some b \<Rightarrow> (\<exists>y. cls y = Some b) \<and> list_le a b \<and>
       (\<forall>y l. cls y = Some l \<longrightarrow> list_le a l \<longrightarrow> list_le b l))"

lemma bit_scan_sl:
  fixes t :: "('f::len word, 's::len word) tlsf"
  assumes inv: "fl_inv c t m cls" and fl: "fl < FLLEN c"
  obtains r where "bit_scan_forward (sl_bitmap t ! fl) sl = Some r"
    and "r < SLLEN c \<longrightarrow> sl \<le> r \<and> bit (sl_bitmap t ! fl) r"
    and "\<forall>y j. cls y = Some (fl, j) \<longrightarrow> sl \<le> j \<longrightarrow> r \<le> j"
proof -
  obtain r where r: "bit_scan_forward (sl_bitmap t ! fl) sl = Some r"
      "r < LENGTH('s) \<longrightarrow> sl \<le> r \<and> bit (sl_bitmap t ! fl) r"
      "\<forall>i. sl \<le> i \<and> i < r \<longrightarrow> \<not> bit (sl_bitmap t ! fl) i"
    using bit_scan_forward_first by blast
  have "SLLEN c \<le> LENGTH('s)" using inv by (simp add: fl_inv_def fl_shape_def)
  then show thesis using that r sl_bit_class [OF inv fl] by (meson less_le_trans not_less)
qed

lemma bit_scan_fl:
  fixes t :: "('f::len word, 's::len word) tlsf"
  assumes inv: "fl_inv c t m cls"
  obtains r where "bit_scan_forward (fl_bitmap t) fl = Some r"
    and "r < FLLEN c \<longrightarrow> fl \<le> r \<and> bit (fl_bitmap t) r"
    and "\<forall>y i j. cls y = Some (i, j) \<longrightarrow> fl \<le> i \<longrightarrow> r \<le> i"
proof -
  obtain r where r: "bit_scan_forward (fl_bitmap t) fl = Some r"
      "r < LENGTH('f) \<longrightarrow> fl \<le> r \<and> bit (fl_bitmap t) r"
      "\<forall>i. fl \<le> i \<and> i < r \<longrightarrow> \<not> bit (fl_bitmap t) i"
    using bit_scan_forward_first by blast
  have "FLLEN c \<le> LENGTH('f)" using inv by (simp add: fl_inv_def fl_shape_def)
  then show thesis using that r fl_bit_class [OF inv] by (meson less_le_trans not_less)
qed

lemma trailing_zeros_sl:
  fixes t :: "('f::len word, 's::len word) tlsf"
  assumes inv: "fl_inv c t m cls" and fl: "fl < FLLEN c" and b: "bit (fl_bitmap t) fl"
  shows "bit (sl_bitmap t ! fl) (word_trailing_zeros (sl_bitmap t ! fl))"
    and "word_trailing_zeros (sl_bitmap t ! fl) < SLLEN c"
    and "\<And>y j. cls y = Some (fl, j) \<Longrightarrow> word_trailing_zeros (sl_bitmap t ! fl) \<le> j"
proof -
  let ?w = "sl_bitmap t ! fl"
  note tz = word_trailing_zeros_first [where w = ?w]
  obtain i where i: "bit ?w i" using b fl_bit_class [OF inv] sl_bit_class [OF inv fl] by blast
  then have "word_trailing_zeros ?w < LENGTH('s)"
    using tz(2) by (meson bit_imp_le_length le_less_trans not_le)
  then show bit: "bit ?w (word_trailing_zeros ?w)" using tz(3) by blast
  then show "word_trailing_zeros ?w < SLLEN c"
    using inv fl by (simp add: fl_inv_def bitmaps_ok_def)
  show "word_trailing_zeros ?w \<le> j" if "cls y = Some (fl, j)" for y j
    using tz(2) that sl_bit_class [OF inv fl] by (meson not_less)
qed

text \<open>When no list of the level \<open>fl\<close> qualifies, the first list of the next level that has one does, and
none when there is no such level.\<close>

lemma best_list_above:
  fixes t :: "('f::len word, 's::len word) tlsf"
  assumes inv: "fl_inv c t m cls" and s: "\<forall>y j. cls y = Some (fl, j) \<longrightarrow> sl \<le> j \<longrightarrow> SLLEN c \<le> j"
    and f: "f < FLLEN c" "fl < f" "bit (fl_bitmap t) f" "\<forall>y i j. cls y = Some (i, j) \<longrightarrow> fl < i \<longrightarrow> f \<le> i"
  shows "best_list cls (fl, sl) (Some (f, word_trailing_zeros (sl_bitmap t ! f)))"
proof -
  let ?s = "word_trailing_zeros (sl_bitmap t ! f)"
  note tz = trailing_zeros_sl [OF inv f(1)]
  have "\<exists>y. cls y = Some (f, ?s)" using tz(1) [OF f(3)] sl_bit_class [OF inv f(1)] by blast
  moreover have "list_le (f, ?s) (i, j)" if y: "cls y = Some (i, j)" "list_le (fl, sl) (i, j)" for y i j
  proof -
    have "i < FLLEN c \<and> j < SLLEN c" using inv y(1) by (auto simp: fl_inv_def classes_ok_def)
    then show ?thesis using s [rule_format, of y j] f(4) [rule_format, OF y(1)] tz(3) [OF f(3), of y j] y
      by (auto simp: list_le_def)
  qed
  ultimately show ?thesis using f(2) by (auto simp: best_list_def list_le_def)
qed

lemma best_list_none:
  assumes inv: "fl_inv c t m cls" and s: "\<forall>y j. cls y = Some (fl, j) \<longrightarrow> sl \<le> j \<longrightarrow> SLLEN c \<le> j"
    and f: "\<forall>y i j. cls y = Some (i, j) \<longrightarrow> fl < i \<longrightarrow> FLLEN c \<le> i"
  shows "best_list cls (fl, sl) None"
proof -
  have "\<not> list_le (fl, sl) (i, j)" if y: "cls y = Some (i, j)" for y i j
  proof -
    have "i < FLLEN c \<and> j < SLLEN c" using inv y by (auto simp: fl_inv_def classes_ok_def)
    then show ?thesis using s [rule_format, of y j] f [rule_format, OF y] y by (auto simp: list_le_def)
  qed
  then show ?thesis by (auto simp: best_list_def)
qed

lemma search_ok:
  fixes t :: "('f::len word, 's::len word) tlsf"
  assumes inv: "fl_inv c t m cls" and x: "block_size x"
  shows "\<exists>r. search_suitable_free_block_list_for_allocation c t x = Some r \<and>
    (case map_ceil c x of Some (Some a) \<Rightarrow> best_list cls a r | _ \<Rightarrow> r = None)"
proof -
  have ok: "cfg_ok c" "fl_shape c t" using inv by (simp_all add: fl_inv_def)
  obtain q where q: "map_ceil c x = Some q" using seg.ceil_total [OF ok(1) x] by blast
  show ?thesis
  proof (cases q)
    case None
    then show ?thesis using q by (simp add: search_suitable_free_block_list_for_allocation_def)
  next
    case (Some a)
    obtain fl sl where a: "a = (fl, sl)" by (cases a)
    have rng: "fl < FLLEN c" "sl < SLLEN c"
      using seg.ceil_range [OF ok(1) x] q Some a by auto
    note ev = search_suitable_free_block_list_for_allocation_def q Some a index_eval(3) [OF ok(2) _ cfg_ok_pos(1) [OF ok(1)]]
    obtain s where s: "bit_scan_forward (sl_bitmap t ! fl) sl = Some s"
        "s < SLLEN c \<longrightarrow> sl \<le> s \<and> bit (sl_bitmap t ! fl) s"
        "\<forall>y j. cls y = Some (fl, j) \<longrightarrow> sl \<le> j \<longrightarrow> s \<le> j"
      by (rule bit_scan_sl [OF inv rng(1), of sl])
    obtain f where f: "bit_scan_forward (fl_bitmap t) (fl + 1) = Some f"
        "f < FLLEN c \<longrightarrow> fl + 1 \<le> f \<and> bit (fl_bitmap t) f"
        "\<forall>y i j. cls y = Some (i, j) \<longrightarrow> fl + 1 \<le> i \<longrightarrow> f \<le> i"
      by (rule bit_scan_fl [OF inv, of "fl + 1"])
    consider (same) "s < SLLEN c" | (above) "\<not> s < SLLEN c" "f < FLLEN c" | (none) "\<not> s < SLLEN c" "\<not> f < FLLEN c"
      by blast
    then show ?thesis
    proof cases
      case same
      have "best_list cls a (Some (fl, s))"
        using s(2,3) same sl_bit_class [OF inv rng(1)]
        by (auto simp: best_list_def list_le_def a)
      then show ?thesis using same s(1,2) rng by (simp add: ev)
    next
      case above
      note tz = trailing_zeros_sl [OF inv above(2)]
      have b: "fl + 1 \<le> f" "bit (fl_bitmap t) f" using f(2) above by auto
      have "best_list cls a (Some (f, word_trailing_zeros (sl_bitmap t ! f)))"
        unfolding a using s(3) f(3) above b by (intro best_list_above [OF inv]) force+
      then show ?thesis using above s(1) f(1) b tz(1,2) [OF b(2)] rng by (simp add: ev)
    next
      case none
      have "best_list cls a None" unfolding a using s(3) f(3) none by (intro best_list_none [OF inv]) force+
      then show ?thesis using none s(1) f(1) rng by (simp add: ev)
    qed
  qed
qed

section \<open>The contract of the free lists\<close>

text \<open>
  What the block operations rely on. \<open>I t m cls\<close> says that the structure \<open>t\<close> over memory
  \<open>m\<close> holds exactly the blocks of \<open>cls\<close>, each in its list. The structure depends on
  nothing but the link cells of the blocks it holds (\<open>frame\<close>) and writes nothing else.
\<close>

definition free_class :: "cfg \<Rightarrow> usize \<Rightarrow> (nat \<times> nat) option" where
  "free_class c z = (if block_size z then (case map_floor c z of None \<Rightarrow> None | Some r \<Rightarrow> r) else None)"

lemma link_cells_not_header:
  assumes "\<And>x. x \<in> D \<Longrightarrow> 32 dvd x" and "32 dvd b"
  shows "b \<notin> link_cells D" "b + 8 \<notin> link_cells D"
  using assms aligned_neq by (auto simp: link_cells_def)

locale free_list_store =
  fixes I :: "'t \<Rightarrow> mem \<Rightarrow> classes \<Rightarrow> bool"
    and list_of :: "usize \<Rightarrow> (nat \<times> nat) option"
    and link :: "'t \<Rightarrow> mem \<Rightarrow> usize \<Rightarrow> usize \<Rightarrow> ('t \<times> mem) option"
    and unlink :: "'t \<Rightarrow> mem \<Rightarrow> usize \<Rightarrow> usize \<Rightarrow> ('t \<times> mem) option"
  assumes frame: "I t m cls \<Longrightarrow> (\<And>a. a \<in> link_cells (dom cls) \<Longrightarrow> m' a = m a) \<Longrightarrow> I t m' cls"
    and aligned: "I t m cls \<Longrightarrow> cls x = Some l \<Longrightarrow> 32 dvd x \<and> 0 < x"
    and link_law: "I t m cls \<Longrightarrow> list_of z = Some l \<Longrightarrow> cls x = None \<Longrightarrow> 32 dvd x \<Longrightarrow> 0 < x \<Longrightarrow>
      m (x + 16) \<noteq> None \<Longrightarrow> m (x + 24) \<noteq> None \<Longrightarrow>
      \<exists>t' m'. link t m x z = Some (t', m') \<and> I t' m' (cls(x \<mapsto> l)) \<and>
        changes_only m m' (link_cells (insert x (dom cls)))"
    and unlink_law: "I t m cls \<Longrightarrow> list_of z = Some l \<Longrightarrow> cls x = Some l \<Longrightarrow>
      \<exists>t' m'. unlink t m x z = Some (t', m') \<and> I t' m' (cls(x := None)) \<and>
        changes_only m m' (link_cells (dom cls))"
begin

lemma frame_changes:
  assumes "I t m cls" and "changes_only m m' S" and "S \<inter> link_cells (dom cls) = {}"
  shows "I t m' cls"
  using assms(1) by (rule frame) (use assms(2,3) in \<open>auto simp: changes_only_def\<close>)

lemma header_frame:
  assumes "I t m cls" and "changes_only m m' (link_cells (dom cls))" and "32 dvd b"
  shows "m' b = m b \<and> m' (b + 8) = m (b + 8)"
proof -
  have "32 dvd x" if "x \<in> dom cls" for x using aligned [OF assms(1)] that by auto
  then show ?thesis using assms(2) link_cells_not_header [OF _ assms(3)] by (auto simp: changes_only_def)
qed

lemma unlink_obtain:
  assumes "I t m cls" and "list_of z = Some l" and "cls x = Some l"
  obtains t' m' where "unlink t m x z = Some (t', m')" and "I t' m' (cls(x := None))"
    and "changes_only m m' (link_cells (dom cls))"
    and "\<forall>b. 32 dvd b \<longrightarrow> m' b = m b \<and> m' (b + 8) = m (b + 8)"
  using unlink_law [OF assms] header_frame [OF assms(1)] by blast

lemma link_obtain:
  assumes "I t m cls" and "list_of z = Some l" and "cls x = None" and "32 dvd x" and "0 < x"
    and "m (x + 16) \<noteq> None" and "m (x + 24) \<noteq> None"
  obtains t' m' where "link t m x z = Some (t', m')" and "I t' m' (cls(x \<mapsto> l))"
    and "changes_only m m' (link_cells (insert x (dom cls)))"
    and "\<forall>b. 32 dvd b \<longrightarrow> m' b = m b \<and> m' (b + 8) = m (b + 8)"
proof -
  obtain t' m' where tm: "link t m x z = Some (t', m')" "I t' m' (cls(x \<mapsto> l))"
      "changes_only m m' (link_cells (insert x (dom cls)))"
    using link_law [OF assms] by blast
  have "32 dvd y" if "y \<in> insert x (dom cls)" for y using aligned [OF assms(1)] assms(4) that by auto
  then have "b \<notin> link_cells (insert x (dom cls)) \<and> b + 8 \<notin> link_cells (insert x (dom cls))" if "32 dvd b" for b
    using link_cells_not_header [of "insert x (dom cls)" b] that by blast
  with tm(3) have "\<forall>b. 32 dvd b \<longrightarrow> m' b = m b \<and> m' (b + 8) = m (b + 8)"
    by (simp add: changes_only_def)
  with tm show thesis by (rule that)
qed

text \<open>A block that is linked and unlinked again leaves the set of blocks as it was.\<close>

lemma link_unlink:
  assumes "I t m cls" and "list_of z = Some l" and "cls x = None" and "32 dvd x" and "0 < x"
    and "m (x + 16) \<noteq> None" and "m (x + 24) \<noteq> None"
  obtains t' m' t'' m'' where "link t m x z = Some (t', m')" and "unlink t' m' x z = Some (t'', m'')"
    and "I t'' m'' cls"
proof -
  obtain t' m' where 1: "link t m x z = Some (t', m')" "I t' m' (cls(x \<mapsto> l))"
    by (rule link_obtain [OF assms])
  obtain t'' m'' where 2: "unlink t' m' x z = Some (t'', m'')" "I t'' m'' ((cls(x \<mapsto> l))(x := None))"
    by (rule unlink_obtain [OF 1(2) assms(2), of x]) simp_all
  have "(cls(x \<mapsto> l))(x := None) = cls" using assms(3) by auto
  with 1 2 show thesis by (auto intro: that)
qed

end

text \<open>Allocation also searches the lists and takes the first block of the list it finds.\<close>

locale free_list_search = free_list_store +
  fixes ceil :: "usize \<Rightarrow> (nat \<times> nat) option option"
    and search :: "'a \<Rightarrow> usize \<Rightarrow> (nat \<times> nat) option option"
    and first :: "'a \<Rightarrow> nat \<Rightarrow> nat \<Rightarrow> usize option option"
    and take_first :: "'a \<Rightarrow> mem \<Rightarrow> nat \<Rightarrow> nat \<Rightarrow> usize \<Rightarrow> ('a \<times> mem) option"
  assumes search_law: "I t m cls \<Longrightarrow> block_size z \<Longrightarrow> \<exists>r. search t z = Some r \<and>
      (case ceil z of Some (Some a) \<Rightarrow> best_list cls a r | _ \<Rightarrow> r = None)"
    and first_law: "I t m cls \<Longrightarrow> cls y = Some (fl, sl) \<Longrightarrow> \<exists>x. first t fl sl = Some (Some x)"
    and take_law: "I t m cls \<Longrightarrow> first t fl sl = Some (Some x) \<Longrightarrow> cls x = Some (fl, sl) \<and>
      (\<exists>t' m'. take_first t m fl sl x = Some (t', m') \<and> I t' m' (cls(x := None)) \<and>
        changes_only m m' (link_cells (dom cls)))"
begin

lemma search_take:
  assumes "I t m cls" and "block_size z" and "search t z = Some (Some (fl, sl))"
  obtains x t' m' a where "first t fl sl = Some (Some x)" and "cls x = Some (fl, sl)"
    and "ceil z = Some (Some a)" and "list_le a (fl, sl)"
    and "take_first t m fl sl x = Some (t', m')" and "I t' m' (cls(x := None))"
    and "changes_only m m' (link_cells (dom cls))"
    and "\<forall>b. 32 dvd b \<longrightarrow> m' b = m b \<and> m' (b + 8) = m (b + 8)"
proof -
  obtain a where a: "ceil z = Some (Some a)" and "best_list cls a (Some (fl, sl))"
    using search_law [OF assms(1,2)] assms(3) by (auto split: option.splits)
  then obtain y where "cls y = Some (fl, sl)" and le: "list_le a (fl, sl)"
    by (auto simp: best_list_def)
  then obtain x where x: "first t fl sl = Some (Some x)" using first_law [OF assms(1)] by blast
  show thesis using take_law [OF assms(1) x] header_frame [OF assms(1)] that [OF x _ a le] by blast
qed

end

interpretation fls: free_list_search
  "fl_inv c :: ('f::len word, 's::len word) tlsf \<Rightarrow> mem \<Rightarrow> classes \<Rightarrow> bool"
  "free_class c" "link_free_block c" "unlink_free_block c" "map_ceil c"
  "search_suitable_free_block_list_for_allocation c" get_first_free unlink_first_free
  for c
proof (unfold_locales, goal_cases)
  case (1 t m cls m')
  have "lists_ok c t m' cls" unfolding lists_ok_def
  proof (intro allI impI)
    fix fl sl assume l: "fl < FLLEN c" "sl < SLLEN c"
    obtain xs where xs: "dll m None (first_free t ! fl ! sl) xs" "distinct xs" "set xs = {x. cls x = Some (fl, sl)}"
      using 1(1) l by (auto simp: fl_inv_def elim: lists_okD)
    have "dll m' None (first_free t ! fl ! sl) xs"
      using xs(1) by (rule dll_frame) (use xs(3) 1(2) in auto)
    with xs show "\<exists>xs. dll m' None (first_free t ! fl ! sl) xs \<and> distinct xs \<and> set xs = {x. cls x = Some (fl, sl)}"
      by blast
  qed
  with 1(1) show ?case by (simp add: fl_inv_def)
next
  case (2 t m cls x l)
  then show ?case by (cases l) (auto simp: fl_inv_def classes_ok_def)
next
  case (3 t m cls z l x)
  then have bs: "block_size z" "map_floor c z = Some (Some l)"
    by (auto simp: free_class_def split: if_splits option.splits)
  then have "fst l < FLLEN c" "snd l < SLLEN c"
    using seg.floor_range [of c z "fst l" "snd l"] 3(1) by (auto simp: fl_inv_def)
  then show ?case using link_free_block_ok [OF 3(1), of z "fst l" "snd l" x] bs 3 by simp
next
  case (4 t m cls z l x)
  then have "map_floor c z = Some (Some l)"
    by (auto simp: free_class_def split: if_splits option.splits)
  then show ?case using unlink_free_block_ok [OF 4(1), of x "fst l" "snd l" z] 4 by simp
next
  case (5 t m cls z)
  then show ?case by (rule search_ok)
next
  case (6 t m cls y fl sl)
  then have rng: "fl < FLLEN c" "sl < SLLEN c" "fl_shape c t" by (auto simp: fl_inv_def classes_ok_def)
  then show ?case using first_free_class [OF 6(1) rng(1,2)] 6(2) by (auto simp: index_eval)
next
  case (7 t m cls fl sl x)
  then have "fl < FLLEN c" "sl < SLLEN c"
    by (auto simp: fl_inv_def fl_shape_def get_first_free_def split: if_splits)
  with 7 show ?case
    by (intro unlink_first_free_ok [OF 7(1)]) (auto simp: get_first_free_def split: if_splits)
qed

section \<open>What the free lists promise\<close>

lemma fl_inv_new:
  assumes "cfg_ok c" "FLLEN c \<le> LENGTH('f)" "SLLEN c \<le> LENGTH('s)"
  shows "fl_inv c (tlsf_new c :: ('f::len word, 's::len word) tlsf) m Map.empty"
proof -
  have "lists_ok c (tlsf_new c :: ('f word, 's word) tlsf) m Map.empty"
    unfolding lists_ok_def tlsf_new_def by (auto intro!: exI [of _ "[]"])
  then show ?thesis using assms
    by (simp add: fl_inv_def fl_shape_def bitmaps_ok_def classes_ok_def tlsf_new_def)
qed

lemma demo_new: "fl_inv demo_cfg (tlsf_new demo_cfg :: (16 word, 16 word) tlsf) m Map.empty"
  using demo_cfg_ok by (rule fl_inv_new) (simp_all add: demo_lens)

lemma demo_class: "free_class demo_cfg 1088 = Some (5, 1)"
proof -
  have bs: "block_size 1056" "block_size 1088" by (simp_all add: block_size_def USIZE_LIM_def)
  have "map_floor demo_cfg 1088 = Some (Some (5, 1))"
    using seg.unmap_floor [OF demo_cfg_ok bs(1) demo_unmap] demo_map_ceil by simp
  then show ?thesis using bs(2) by (simp add: free_class_def)
qed

text \<open>C33: \<open>link_free_block\<close> refines insertion into the map of free blocks: it never faults, it
  adds the block to the list of its size, keeps the lists and both levels of bitmaps consistent, and
  writes only link cells of free blocks.\<close>

theorem link_free_block_refines:
  fixes t :: "('f::len word, 's::len word) tlsf"
  assumes "fl_inv c t m cls" and "free_class c z = Some l" and "cls x = None" and "32 dvd x" and "0 < x"
    and "m (x + 16) \<noteq> None" and "m (x + 24) \<noteq> None"
  shows "\<exists>t' m'. link_free_block c t m x z = Some (t', m') \<and> fl_inv c t' m' (cls(x \<mapsto> l)) \<and>
    changes_only m m' (link_cells (insert x (dom cls)))"
  using fls.link_law [OF assms] .

theorem link_free_block_refines_witness:
  "\<exists>(t' :: (16 word, 16 word) tlsf) m'. link_free_block demo_cfg (tlsf_new demo_cfg) (\<lambda>_. Some 0) 4096 1088 = Some (t', m') \<and>
    fl_inv demo_cfg t' m' [4096 \<mapsto> (5, 1)]"
  using link_free_block_refines [OF demo_new demo_class, of 4096 "\<lambda>_. Some 0"] by auto

text \<open>C34: \<open>unlink_free_block\<close> refines deletion: for a block that is in the list of its size it
  never faults, removes exactly that block, keeps lists and bitmaps consistent, and writes only link
  cells of free blocks.\<close>

theorem unlink_free_block_refines:
  fixes t :: "('f::len word, 's::len word) tlsf"
  assumes "fl_inv c t m cls" and "free_class c z = Some l" and "cls x = Some l"
  shows "\<exists>t' m'. unlink_free_block c t m x z = Some (t', m') \<and> fl_inv c t' m' (cls(x := None)) \<and>
    changes_only m m' (link_cells (dom cls))"
  using fls.unlink_law [OF assms] .

theorem unlink_free_block_refines_witness:
  "\<exists>(t :: (16 word, 16 word) tlsf) m t' m'. fl_inv demo_cfg t m [4096 \<mapsto> (5, 1)] \<and>
    unlink_free_block demo_cfg t m 4096 1088 = Some (t', m') \<and> fl_inv demo_cfg t' m' Map.empty"
proof -
  obtain t :: "(16 word, 16 word) tlsf" and m where i: "fl_inv demo_cfg t m [4096 \<mapsto> (5, 1)]"
    using fls.link_law [OF demo_new demo_class, of 4096 "\<lambda>_. Some 0"] by auto
  obtain t' m' where "unlink_free_block demo_cfg t m 4096 1088 = Some (t', m')"
      "fl_inv demo_cfg t' m' ([4096 \<mapsto> (5, 1)](4096 := None))"
    using unlink_free_block_refines [OF i demo_class, of 4096] by auto
  with i show ?thesis by (intro exI conjI) simp_all
qed

text \<open>C32: the search returns the first non-empty list at or after the one \<open>map_ceil\<close> names, and
  \<open>None\<close> exactly when every such list is empty; it never faults.\<close>

theorem search_first_suitable:
  fixes t :: "('f::len word, 's::len word) tlsf"
  assumes "fl_inv c t m cls" and "block_size x"
  shows "\<exists>r. search_suitable_free_block_list_for_allocation c t x = Some r \<and>
    (case map_ceil c x of Some (Some a) \<Rightarrow> best_list cls a r | _ \<Rightarrow> r = None)"
  using fls.search_law [OF assms] .

theorem search_first_suitable_witness:
  "\<exists>(t :: (16 word, 16 word) tlsf) r. search_suitable_free_block_list_for_allocation demo_cfg t 1056 = Some r \<and> r = Some (5, 1)"
proof -
  obtain t :: "(16 word, 16 word) tlsf" and m where i: "fl_inv demo_cfg t m [4096 \<mapsto> (5, 1)]"
    using fls.link_law [OF demo_new demo_class, of 4096 "\<lambda>_. Some 0"] by auto
  have "block_size 1056" by (simp add: block_size_def USIZE_LIM_def)
  from search_first_suitable [OF i this] obtain r where "search_suitable_free_block_list_for_allocation demo_cfg t 1056 = Some r"
      "best_list [4096 \<mapsto> (5, 1)] (5, 1) r" by (auto simp: demo_map_ceil)
  moreover have "r = Some (5, 1)"
    using calculation(2) by (cases r) (auto simp: best_list_def list_le_def split: if_splits)
  ultimately show ?thesis by blast
qed

end
