(* ===== verification/Tlsf_Layout.thy ===== *)
theory Tlsf_Layout
  imports Free_List
begin

text \<open>
  The abstract view of the memory pools and the invariant of the allocator.

  A pool is a start address and the list of its blocks from left to right, each with its size and
  its kind; the addresses of the blocks and their \<open>prev_phys_block\<close> pointers follow from the
  list. The kind of a used block records what the client was given: the payload pointer, the
  alignment and the size requested.

  \<open>tlsf_inv\<close> relates a state of the allocator (struct and memory) to such a list of pools: pools are
  disjoint and well-shaped (granular sizes, a sentinel block at the end and only there, no two
  adjacent free blocks), every header in memory is the one the list prescribes, and the free lists
  hold exactly the free blocks, each in the list of its size.

  The lemmas of the last section (\<open>replace_inv\<close>, \<open>replace_keeps\<close>) carry the proofs of
  all block operations: an operation replaces a run of adjacent blocks of one pool by another run of
  the same total size.
\<close>

unbundle bit_operations_syntax

section \<open>Pools\<close>

datatype kind = Free | Used usize usize usize | Sentinel

type_synonym blk = "usize \<times> kind"
type_synonym pool = "usize \<times> blk list"
type_synonym entry = "usize \<times> usize \<times> kind \<times> usize option"

definition extent :: "blk list \<Rightarrow> nat" where
  "extent xs = sum_list (map fst xs)"

fun entries :: "usize option \<Rightarrow> usize \<Rightarrow> blk list \<Rightarrow> entry list" where
  "entries p b [] = []"
| "entries p b ((z, k) # xs) = (b, z, k, p) # entries (Some b) (b + z) xs"

fun last_addr :: "usize option \<Rightarrow> usize \<Rightarrow> blk list \<Rightarrow> usize option" where
  "last_addr p b [] = p"
| "last_addr p b ((z, k) # xs) = last_addr (Some b) (b + z) xs"

fun all_entries :: "pool list \<Rightarrow> entry list" where
  "all_entries [] = []"
| "all_entries ((s, xs) # ps) = entries None s xs @ all_entries ps"

fun frees :: "cfg \<Rightarrow> usize \<Rightarrow> blk list \<Rightarrow> classes" where
  "frees c b [] = Map.empty"
| "frees c b ((z, k) # xs) = (case (k, free_class c z) of
     (Free, Some l) \<Rightarrow> (frees c (b + z) xs)(b \<mapsto> l) | _ \<Rightarrow> frees c (b + z) xs)"

fun all_frees :: "cfg \<Rightarrow> pool list \<Rightarrow> classes" where
  "all_frees c [] = Map.empty"
| "all_frees c ((s, xs) # ps) = all_frees c ps ++ frees c s xs"

definition plug :: "pool list \<Rightarrow> usize \<Rightarrow> blk list \<Rightarrow> blk list \<Rightarrow> blk list \<Rightarrow> pool list \<Rightarrow> pool list" where
  "plug P s xs mid ys Q = P @ (s, xs @ mid @ ys) # Q"

section \<open>The invariant\<close>

definition blk_ok :: "blk \<Rightarrow> bool" where
  "blk_ok x \<longleftrightarrow> snd x \<noteq> Sentinel \<and> 32 \<le> fst x \<and> 32 dvd fst x"

definition no_adjacent_free :: "blk list \<Rightarrow> bool" where
  "no_adjacent_free xs \<longleftrightarrow> successively (\<lambda>x y. \<not> (snd x = Free \<and> snd y = Free)) xs"

definition shape :: "blk list \<Rightarrow> bool" where
  "shape xs \<longleftrightarrow> (\<exists>ys. xs = ys @ [(32, Sentinel)] \<and> ys \<noteq> [] \<and> list_all blk_ok ys) \<and> no_adjacent_free xs"

definition pool_ok :: "cfg \<Rightarrow> pool \<Rightarrow> bool" where
  "pool_ok c p \<longleftrightarrow> shape (snd p) \<and> 32 dvd fst p \<and> 0 < fst p \<and> fst p + extent (snd p) \<le> USIZE_LIM \<and>
     (\<forall>mx. MAX_POOL_SIZE c = Some mx \<longrightarrow> extent (snd p) \<le> mx)"

definition pool_range :: "pool \<Rightarrow> usize set" where
  "pool_range p = {fst p ..< fst p + extent (snd p)}"

definition size_word :: "usize \<Rightarrow> kind \<Rightarrow> usize" where
  "size_word z k = (case k of Free \<Rightarrow> z | Used _ _ _ \<Rightarrow> z + 1 | Sentinel \<Rightarrow> z + 3)"

definition used_ok :: "mem \<Rightarrow> usize \<Rightarrow> usize \<Rightarrow> usize \<Rightarrow> usize \<Rightarrow> usize \<Rightarrow> bool" where
  "used_ok m b z ptr al sz \<longleftrightarrow> b + 16 \<le> ptr \<and> ptr + sz \<le> b + z \<and> is_power_of_two al \<and> al dvd ptr \<and>
     (if al < 32 then ptr = b + 16 else b + 32 \<le> ptr \<and> m (ptr - 8) = Some b)"

fun hdr :: "mem \<Rightarrow> entry \<Rightarrow> bool" where
  "hdr m (b, z, k, p) \<longleftrightarrow> m b = Some (size_word z k) \<and> m (b + 8) = Some (of_ptr p) \<and>
     (case k of Used ptr al sz \<Rightarrow> used_ok m b z ptr al sz | _ \<Rightarrow> True)"

definition pools_disjoint :: "pool list \<Rightarrow> bool" where
  "pools_disjoint ps \<longleftrightarrow> sorted_wrt (\<lambda>p q. pool_range p \<inter> pool_range q = {}) ps"

definition pools_mapped :: "mem \<Rightarrow> pool list \<Rightarrow> bool" where
  "pools_mapped m ps \<longleftrightarrow> (\<forall>p \<in> set ps. \<forall>a \<in> pool_range p. 8 dvd a \<longrightarrow> m a \<noteq> None)"

definition tlsf_inv :: "cfg \<Rightarrow> ('f::len word, 's::len word) tlsf \<Rightarrow> mem \<Rightarrow> pool list \<Rightarrow> bool" where
  "tlsf_inv c t m ps \<longleftrightarrow> list_all (pool_ok c) ps \<and> pools_disjoint ps \<and> pools_mapped m ps \<and>
     list_all (hdr m) (all_entries ps) \<and> fl_inv c t m (all_frees c ps)"

section \<open>Lists of blocks\<close>

lemma extent_simps [simp]: "extent [] = 0" "extent ((z, k) # xs) = z + extent xs" "extent (xs @ ys) = extent xs + extent ys"
  by (simp_all add: extent_def)

lemma entries_append [simp]:
  "entries p b (xs @ ys) = entries p b xs @ entries (last_addr p b xs) (b + extent xs) ys"
  by (induction p b xs rule: entries.induct) (simp_all add: add.assoc)

lemma last_addr_append [simp]:
  "last_addr p b (xs @ ys) = last_addr (last_addr p b xs) (b + extent xs) ys"
  by (induction p b xs rule: last_addr.induct) (simp_all add: add.assoc)

lemma last_addr_Some: "xs \<noteq> [] \<Longrightarrow> \<exists>q. last_addr p b xs = Some q \<and> b \<le> q"
proof (induction p b xs rule: last_addr.induct)
  case (2 p b z k xs)
  then show ?case by (cases xs) force+
qed simp

lemma all_entries_append [simp]: "all_entries (ps @ qs) = all_entries ps @ all_entries qs"
  by (induction ps rule: all_entries.induct) simp_all

lemma frees_append [simp]: "frees c b (xs @ ys) = frees c (b + extent xs) ys ++ frees c b xs"
  by (induction c b xs rule: frees.induct)
    (auto simp: add.assoc map_add_upd split: option.splits kind.splits)

lemma all_frees_append [simp]: "all_frees c (ps @ qs) = all_frees c qs ++ all_frees c ps"
  by (induction c ps rule: all_frees.induct) simp_all

lemma frees_dom: "list_all (\<lambda>x. 0 < fst x) xs \<Longrightarrow> dom (frees c b xs) \<subseteq> {b ..< b + extent xs}"
  by (induction c b xs rule: frees.induct) (force split: option.splits kind.splits if_splits)+

lemma entries_range:
  assumes "e \<in> set (entries p b xs)" and "list_all (\<lambda>x. 0 < fst x) xs"
  shows "b \<le> fst e \<and> fst e + fst (snd e) \<le> b + extent xs \<and> 0 < fst (snd e)"
  using assms by (induction p b xs rule: entries.induct) fastforce+

lemma frees_entry:
  assumes "frees c b xs y = Some l"
  shows "\<exists>z q. (y, z, Free, q) \<in> set (entries p b xs) \<and> free_class c z = Some l"
  using assms
  by (induction c b xs arbitrary: p rule: frees.induct)
    (fastforce split: option.splits kind.splits if_splits)+

lemma entries_split:
  assumes "(a, z, k, q) \<in> set (entries p b xs)"
  shows "\<exists>us vs. xs = us @ (z, k) # vs \<and> a = b + extent us \<and> q = last_addr p b us"
  using assms
proof (induction p b xs rule: entries.induct)
  case (2 p b z' k' xs)
  show ?case
  proof (cases "(a, z, k, q) = (b, z', k', p)")
    case True
    then show ?thesis by (intro exI [of _ "[]"] exI [of _ xs]) auto
  next
    case False
    with 2 obtain us vs where "xs = us @ (z, k) # vs" "a = b + z' + extent us" "q = last_addr (Some b) (b + z') us"
      by fastforce
    then show ?thesis by (intro exI [of _ "(z', k') # us"] exI [of _ vs]) auto
  qed
qed simp

lemma all_entries_split:
  assumes "(a, z, k, q) \<in> set (all_entries ps)"
  obtains P s xs ys Q where "ps = plug P s xs [(z, k)] ys Q" and "a = s + extent xs" and "q = last_addr None s xs"
  using assms
proof (induction ps arbitrary: thesis rule: all_entries.induct)
  case (2 s xs ps)
  show ?case
  proof (cases "(a, z, k, q) \<in> set (entries None s xs)")
    case True
    then obtain us vs where "xs = us @ (z, k) # vs" "a = s + extent us" "q = last_addr None s us"
      using entries_split by blast
    then show ?thesis by (intro 2(2) [of "[]" s us vs ps]) (simp_all add: plug_def)
  next
    case False
    with 2(3) have "(a, z, k, q) \<in> set (all_entries ps)" by simp
    then obtain P s' us vs Q where "ps = plug P s' us [(z, k)] vs Q" "a = s' + extent us" "q = last_addr None s' us"
      using 2(1) by blast
    then show ?thesis by (intro 2(2) [of "(s, xs) # P" s' us vs Q]) (simp_all add: plug_def)
  qed
qed simp

lemma all_entries_plug:
  "all_entries (plug P s xs mid ys Q) = all_entries P @ entries None s xs @
     entries (last_addr None s xs) (s + extent xs) mid @
     entries (last_addr (last_addr None s xs) (s + extent xs) mid) (s + extent xs + extent mid) ys @ all_entries Q"
  by (simp add: plug_def add.assoc)

section \<open>Blocks are disjoint\<close>

definition pools_ok :: "cfg \<Rightarrow> pool list \<Rightarrow> bool" where
  "pools_ok c ps \<longleftrightarrow> list_all (pool_ok c) ps \<and> pools_disjoint ps"

lemma pool_ok_pos: "pool_ok c (s, xs) \<Longrightarrow> list_all (\<lambda>x. 0 < fst x) xs"
  by (fastforce simp: pool_ok_def shape_def blk_ok_def list_all_iff)

lemma pool_ok_dvd: "pool_ok c (s, xs) \<Longrightarrow> x \<in> set xs \<Longrightarrow> 32 dvd fst x \<and> 32 \<le> fst x"
  by (auto simp: pool_ok_def shape_def blk_ok_def list_all_iff)

lemma extent_dvd: "(\<And>x. x \<in> set xs \<Longrightarrow> 32 dvd fst x) \<Longrightarrow> 32 dvd extent xs"
  by (induction xs) (auto simp: extent_def)

lemma pool_ok_extent: "pool_ok c (s, xs) \<Longrightarrow> 32 \<le> extent xs"
  by (auto simp: pool_ok_def shape_def)

lemma interval_disjoint: "{a ..< b} \<inter> {c ..< d} = {} \<Longrightarrow> a < b \<Longrightarrow> c < d \<Longrightarrow> b \<le> c \<or> d \<le> (a::nat)"
  by (metis Int_iff atLeastLessThan_iff empty_iff le_cases not_le)

lemma pools_disjoint_plug:
  "pools_disjoint (plug P s xs mid ys Q) \<Longrightarrow> q \<in> set P \<union> set Q \<Longrightarrow>
    pool_range q \<inter> pool_range (s, xs @ mid @ ys) = {}"
  by (auto simp: pools_disjoint_def plug_def sorted_wrt_append)

lemma all_entries_in_pool: "e \<in> set (all_entries ps) \<Longrightarrow> \<exists>s xs. (s, xs) \<in> set ps \<and> e \<in> set (entries None s xs)"
  by (induction ps rule: all_entries.induct) auto

lemma plug_outside:
  assumes ok: "pools_ok c (plug P s xs mid ys Q)"
    and e: "(a, z, k, q) \<in> set (all_entries P) \<union> set (entries None s xs) \<union>
      set (entries r (s + extent xs + extent mid) ys) \<union> set (all_entries Q)"
  shows "a + z \<le> s + extent xs \<or> s + extent xs + extent mid \<le> a"
proof -
  have p: "pool_ok c (s, xs @ mid @ ys)" using ok by (simp add: pools_ok_def plug_def)
  note pos = pool_ok_pos [OF p, simplified]
  consider "(a, z, k, q) \<in> set (entries None s xs)" | "(a, z, k, q) \<in> set (entries r (s + extent xs + extent mid) ys)"
    | "(a, z, k, q) \<in> set (all_entries P) \<union> set (all_entries Q)" using e by blast
  then show ?thesis
  proof cases
    case 3
    then obtain s' xs' where in': "(s', xs') \<in> set P \<union> set Q" "(a, z, k, q) \<in> set (entries None s' xs')"
      using all_entries_in_pool by blast
    have p': "pool_ok c (s', xs')" using ok in'(1) by (auto simp: pools_ok_def plug_def list_all_iff)
    note r = entries_range [OF in'(2) pool_ok_pos [OF p'], simplified]
    have "pool_range (s', xs') \<inter> pool_range (s, xs @ mid @ ys) = {}"
      using ok in'(1) by (intro pools_disjoint_plug) (auto simp: pools_ok_def)
    moreover have "0 < extent (xs @ mid @ ys)" using pool_ok_extent [OF p] by linarith
    ultimately have "s' + extent xs' \<le> s \<or> s + extent (xs @ mid @ ys) \<le> s'"
      using r by (intro interval_disjoint) (auto simp: pool_range_def)
    with r show ?thesis by auto
  qed (use pos entries_range in fastforce)+
qed

lemma entries_disjoint:
  assumes ok: "pools_ok c ps" and e: "(a, z, k, q) \<in> set (all_entries ps)" "(a', z', k', q') \<in> set (all_entries ps)"
  shows "(a, z, k, q) = (a', z', k', q') \<or> a + z \<le> a' \<or> a' + z' \<le> a"
proof -
  obtain P s xs ys Q where d: "ps = plug P s xs [(z, k)] ys Q" "a = s + extent xs" "q = last_addr None s xs"
    by (rule all_entries_split [OF e(1)])
  show ?thesis
  proof (cases "(a', z', k', q') = (a, z, k, q)")
    case False
    with e(2) d plug_outside [OF ok [unfolded d(1)], of a' z' k' q' "Some a"] show ?thesis
      by (auto simp: all_entries_plug)
  qed simp
qed

lemma entry_facts:
  assumes ok: "pools_ok c ps" and e: "(b, z, k, q) \<in> set (all_entries ps)"
  shows "32 dvd b \<and> 0 < b \<and> 32 dvd z \<and> 32 \<le> z \<and> b + z \<le> USIZE_LIM"
proof -
  obtain P s xs ys Q where d: "ps = plug P s xs [(z, k)] ys Q" "b = s + extent xs"
    by (rule all_entries_split [OF e])
  have p: "pool_ok c (s, xs @ [(z, k)] @ ys)" using ok d by (simp add: pools_ok_def plug_def)
  have "32 dvd extent xs" using pool_ok_dvd [OF p] by (intro extent_dvd) auto
  then show ?thesis using p pool_ok_dvd [OF p, of "(z, k)"] d(2) by (auto simp: pool_ok_def)
qed

lemma entry_mapped:
  assumes ok: "pools_ok c ps" and mp: "pools_mapped m ps" and e: "(b, z, k, q) \<in> set (all_entries ps)"
    and a: "b \<le> a" "a < b + z" "8 dvd a"
  shows "m a \<noteq> None"
proof -
  obtain s xs where p: "(s, xs) \<in> set ps" "(b, z, k, q) \<in> set (entries None s xs)"
    using all_entries_in_pool [OF e] by blast
  then have "pool_ok c (s, xs)" using ok by (auto simp: pools_ok_def list_all_iff)
  then have "a \<in> pool_range (s, xs)"
    using entries_range [OF p(2) pool_ok_pos, of c s] a by (auto simp: pool_range_def)
  then show ?thesis using mp p(1) a(3) by (auto simp: pools_mapped_def)
qed

section \<open>Replacing a run of blocks\<close>

lemma inv_pools_ok: "tlsf_inv c t m ps \<Longrightarrow> pools_ok c ps"
  by (simp add: tlsf_inv_def pools_ok_def)

lemma inv_hdr: "tlsf_inv c t m ps \<Longrightarrow> e \<in> set (all_entries ps) \<Longrightarrow> hdr m e"
  by (simp add: tlsf_inv_def list_all_iff)

lemma all_frees_entry:
  "all_frees c ps y = Some l \<Longrightarrow> \<exists>z q. (y, z, Free, q) \<in> set (all_entries ps) \<and> free_class c z = Some l"
proof (induction c ps rule: all_frees.induct)
  case (2 c s xs ps)
  then show ?case using frees_entry [of c s xs y l None] by (auto split: option.splits)
qed simp

lemma plug_frees:
  assumes ok: "pools_ok c (plug P s xs mid ys Q)"
  defines "b \<equiv> s + extent xs" and "n \<equiv> s + extent xs + extent mid"
  shows "all_frees c (plug P s xs mid ys Q) y =
    (if b \<le> y \<and> y < n then frees c b mid y
     else (all_frees c Q ++ (frees c n ys ++ frees c s xs) ++ all_frees c P) y)"
proof -
  have eq: "all_frees c (plug P s xs mid ys Q) =
      all_frees c Q ++ ((frees c n ys ++ frees c b mid) ++ frees c s xs) ++ all_frees c P"
    by (simp add: plug_def b_def n_def add.assoc)
  have out: "y < b \<or> n \<le> y" if "all_frees c P y = Some l \<or> frees c s xs y = Some l \<or> frees c n ys y = Some l
      \<or> all_frees c Q y = Some l" for l
  proof -
    have "\<exists>z q. (y, z, Free, q) \<in> set (all_entries P) \<union> set (entries None s xs) \<union>
        set (entries (last_addr (last_addr None s xs) b mid) n ys) \<union> set (all_entries Q)"
      using that all_frees_entry [of c P y l] all_frees_entry [of c Q y l] frees_entry [of c s xs y l None]
        frees_entry [of c n ys y l "last_addr (last_addr None s xs) b mid"] by blast
    then obtain z q where e: "(y, z, Free, q) \<in> set (all_entries P) \<union> set (entries None s xs) \<union>
        set (entries (last_addr (last_addr None s xs) b mid) n ys) \<union> set (all_entries Q)" by blast
    then have "(y, z, Free, q) \<in> set (all_entries (plug P s xs mid ys Q))"
      by (auto simp: all_entries_plug b_def n_def)
    then have "32 \<le> z" using entry_facts [OF ok] by blast
    then show ?thesis using plug_outside [OF ok, of y z Free q] e by (force simp: b_def n_def)
  qed
  have "dom (frees c b mid) \<subseteq> {b ..< n}"
    using frees_dom [of mid c b] pool_ok_pos [of c s "xs @ mid @ ys"] ok
    by (simp add: pools_ok_def plug_def b_def n_def)
  then have mid: "b \<le> y \<and> y < n" if "frees c b mid y = Some l" for l using that by force
  show ?thesis
  proof (cases "b \<le> y \<and> y < n")
    case True
    then have "all_frees c P y = None" "frees c s xs y = None" "frees c n ys y = None" "all_frees c Q y = None"
      using out not_le [of n y] not_less [of y b] option.exhaust_sel by blast+
    with True show ?thesis by (simp add: eq map_add_def split: option.splits)
  next
    case False
    then have "frees c b mid y = None" using mid by fastforce
    with False show ?thesis by (auto simp: eq map_add_def split: option.splits)
  qed
qed

lemma shape_plug:
  assumes "shape (xs @ mid @ ys)" "list_all blk_ok mid" "mid \<noteq> []"
  obtains ys' where "ys = ys' @ [(32, Sentinel)]" and "list_all blk_ok xs" and "list_all blk_ok ys'"
proof -
  obtain us where us: "xs @ mid @ ys = us @ [(32, Sentinel)]" "list_all blk_ok us"
    using assms(1) by (auto simp: shape_def)
  have "ys \<noteq> []"
  proof
    assume "ys = []"
    with us(1) have "last mid = (32, Sentinel)" using assms(3) by (metis append_Nil2 last_appendR last_snoc)
    with assms(2,3) show False by (metis blk_ok_def last_in_set list_all_iff snd_conv)
  qed
  then obtain ys' x where ys: "ys = ys' @ [x]" by (metis rev_exhaust)
  with us have "us = xs @ mid @ ys'" "x = (32, Sentinel)" by auto
  with us ys show thesis by (intro that) auto
qed

lemma plug_pools_ok:
  assumes ok: "pools_ok c (plug P s xs mid ys Q)" and mid: "mid \<noteq> []" "list_all blk_ok mid"
    and mid': "mid' \<noteq> []" "list_all blk_ok mid'" "extent mid' = extent mid" "no_adjacent_free (xs @ mid' @ ys)"
  shows "pools_ok c (plug P s xs mid' ys Q)"
proof -
  have p: "pool_ok c (s, xs @ mid @ ys)" using ok by (simp add: pools_ok_def plug_def)
  obtain ys' where ys': "ys = ys' @ [(32, Sentinel)]" "list_all blk_ok xs" "list_all blk_ok ys'"
    using p mid by (auto simp: pool_ok_def elim: shape_plug)
  have "shape (xs @ mid' @ ys)" unfolding shape_def
    using ys' mid' by (intro conjI exI [of _ "xs @ mid' @ ys'"]) simp_all
  then have "pool_ok c (s, xs @ mid' @ ys)" using p mid'(3) by (simp add: pool_ok_def)
  moreover have "pool_range (s, xs @ mid' @ ys) = pool_range (s, xs @ mid @ ys)"
    using mid'(3) by (simp add: pool_range_def)
  ultimately show ?thesis using ok
    by (auto simp: pools_ok_def plug_def pools_disjoint_def sorted_wrt_append)
qed

text \<open>The cells of a block that must not change behind its owner's back: all of a used block, the
  header of a free one.\<close>

fun protected :: "entry \<Rightarrow> usize set" where
  "protected (b, z, k, p) = (if k = Free then {b, b + 8} else {b ..< b + z})"

lemma hdr_frame:
  assumes "hdr m (b, z, k, p)" "32 \<le> z" "\<And>a. a \<in> protected (b, z, k, p) \<Longrightarrow> a \<noteq> b + 8 \<Longrightarrow> m' a = m a"
    and "m' (b + 8) = Some (of_ptr p')"
  shows "hdr m' (b, z, k, p')"
proof (cases k)
  case (Used ptr al sz)
  have "m' (ptr - 8) = m (ptr - 8)" if "b + 32 \<le> ptr" "ptr + sz \<le> b + z"
  proof -
    have "b \<le> ptr - 8" "ptr - 8 < b + z" "ptr - 8 \<noteq> b + 8" using that by linarith+
    then show ?thesis using assms(3) [of "ptr - 8"] Used by simp
  qed
  then show ?thesis using assms Used by (auto simp: used_ok_def)
qed (use assms in auto)

lemma links_not_protected:
  assumes ok: "pools_ok c ps" and e: "(b, z, k, q) \<in> set (all_entries ps)"
    and a: "a \<in> link_cells (dom (all_frees c ps))"
  shows "a \<notin> protected (b, z, k, q)"
proof -
  obtain y where y: "a = y + 16 \<or> a = y + 24" "y \<in> dom (all_frees c ps)" using a by (auto simp: link_cells_def)
  then obtain zy qy where ey: "(y, zy, Free, qy) \<in> set (all_entries ps)" using all_frees_entry by blast
  note f = entry_facts [OF ok e] and fy = entry_facts [OF ok ey]
  show ?thesis
  proof (cases "k = Free")
    case True
    then show ?thesis using y(1) f fy aligned_neq [of y b] by auto
  next
    case False
    then have "y + zy \<le> b \<or> b + z \<le> y" using entries_disjoint [OF ok ey e] by auto
    with False y(1) fy show ?thesis by auto
  qed
qed

lemma replace_unchanged:
  assumes ok: "pools_ok c (plug P s xs mid ys Q)"
    and ch: "changes_only m m' (link_cells (dom (all_frees c (plug P s xs mid ys Q))) \<union>
      {s + extent xs ..< s + extent xs + extent mid} \<union> {s + extent xs + extent mid + 8})"
    and e: "(a, z, k, q) \<in> set (all_entries (plug P s xs mid ys Q))"
    and a: "a \<notin> {s + extent xs ..< s + extent xs + extent mid}"
    and x: "x \<in> protected (a, z, k, q)" "x \<noteq> s + extent xs + extent mid + 8"
  shows "m' x = m x"
proof -
  have p: "pool_ok c (s, xs @ mid @ ys)" using ok by (simp add: pools_ok_def plug_def)
  have "a + z \<le> s + extent xs \<or> s + extent xs + extent mid \<le> a"
  proof (rule plug_outside [OF ok])
    have "(a, z, k, q) \<notin> set (entries (last_addr None s xs) (s + extent xs) mid)"
      using entries_range [of "(a, z, k, q)" _ "s + extent xs" mid] pool_ok_pos [OF p] a by fastforce
    with e show "(a, z, k, q) \<in> set (all_entries P) \<union> set (entries None s xs) \<union>
      set (entries (last_addr (last_addr None s xs) (s + extent xs) mid) (s + extent xs + extent mid) ys) \<union>
      set (all_entries Q)" by (auto simp: all_entries_plug)
  qed
  moreover have "a \<le> x \<and> x < a + z" using x(1) entry_facts [OF ok e] by (auto split: if_splits)
  moreover have "x \<notin> link_cells (dom (all_frees c (plug P s xs mid ys Q)))"
    using links_not_protected [OF ok e] x(1) by blast
  ultimately show ?thesis using ch x(2) by (auto simp: changes_only_def)
qed

text \<open>The contents of used blocks outside the run do not change.\<close>

lemma replace_keeps:
  assumes ok: "pools_ok c (plug P s xs mid ys Q)"
    and ch: "changes_only m m' (link_cells (dom (all_frees c (plug P s xs mid ys Q))) \<union>
      {s + extent xs ..< s + extent xs + extent mid} \<union> {s + extent xs + extent mid + 8})"
    and e: "(a, z, Used ptr al sz, q) \<in> set (all_entries (plug P s xs mid ys Q))"
    and a: "a \<notin> {s + extent xs ..< s + extent xs + extent mid}"
    and x: "a + 16 \<le> x" "x < a + z"
    and n: "(s + extent xs + extent mid, zn, kn, qn) \<in> set (all_entries (plug P s xs mid ys Q))"
  shows "m' x = m x"
proof (rule replace_unchanged [OF ok ch e a])
  show "x \<in> protected (a, z, Used ptr al sz, q)" using x by simp
  show "x \<noteq> s + extent xs + extent mid + 8"
    using entries_disjoint [OF ok e n] entry_facts [OF ok e] entry_facts [OF ok n] x by auto
qed

lemma pools_mapped_plug:
  "pools_mapped m (plug P s xs mid ys Q) \<Longrightarrow> extent mid' = extent mid \<Longrightarrow> dom m' = dom m \<Longrightarrow>
    pools_mapped m' (plug P s xs mid' ys Q)"
  unfolding pools_mapped_def plug_def by (auto simp: pool_range_def domIff set_eq_iff)

lemma replace_hdr_kept:
  assumes I: "tlsf_inv c t m (plug P s xs mid ys Q)"
    and ch: "changes_only m m' (link_cells (dom (all_frees c (plug P s xs mid ys Q))) \<union>
      {s + extent xs ..< s + extent xs + extent mid} \<union> {s + extent xs + extent mid + 8})"
    and n: "(s + extent xs + extent mid, zn, kn, qn) \<in> set (all_entries (plug P s xs mid ys Q))"
    and e: "(a, z, k, q) \<in> set (all_entries (plug P s xs mid ys Q))"
      "a \<notin> {s + extent xs ..< s + extent xs + extent mid}" "a \<noteq> s + extent xs + extent mid"
  shows "hdr m' (a, z, k, q)"
proof -
  note ok = inv_pools_ok [OF I]
  have h: "hdr m (a, z, k, q)" by (rule inv_hdr [OF I e(1)])
  have "s + extent xs + extent mid + 8 \<notin> protected (a, z, k, q)"
    using entries_disjoint [OF ok e(1) n] e(3) entry_facts [OF ok n] entry_facts [OF ok e(1)] by (auto split: if_splits)
  then have "m' x = m x" if "x \<in> protected (a, z, k, q)" for x
    using replace_unchanged [OF ok ch e(1,2) that] that by fastforce
  with h entry_facts [OF ok e(1)] show ?thesis by (intro hdr_frame [OF h]) auto
qed

lemma plug_outside_next:
  assumes ok: "pools_ok c (plug P s xs mid ((zn, kn) # ys) Q)"
    and e: "(a, z, k, q) \<in> set (all_entries P) \<union> set (entries None s xs) \<union>
      set (entries (Some (s + extent xs + extent mid)) (s + extent xs + extent mid + zn) ys) \<union> set (all_entries Q)"
  shows "a \<notin> {s + extent xs ..< s + extent xs + extent mid} \<and> a \<noteq> s + extent xs + extent mid"
    and "(a, z, k, q) \<in> set (all_entries (plug P s xs mid ((zn, kn) # ys) Q))"
proof -
  let ?ps = "plug P s xs mid ((zn, kn) # ys) Q" and ?n = "s + extent xs + extent mid"
  have n: "(?n, zn, kn, last_addr (last_addr None s xs) (s + extent xs) mid) \<in> set (all_entries ?ps)" by (simp add: all_entries_plug)
  show e': "(a, z, k, q) \<in> set (all_entries ?ps)" using e by (auto simp: all_entries_plug)
  have pl: "?ps = plug P s xs (mid @ [(zn, kn)]) ys Q" by (simp add: plug_def)
  have "a + z \<le> s + extent xs \<or> ?n + zn \<le> a"
    using plug_outside [OF ok [unfolded pl], of a z k q "Some ?n"] e by (simp add: add.assoc)
  then show "a \<notin> {s + extent xs ..< ?n} \<and> a \<noteq> ?n" using entry_facts [OF ok n] entry_facts [OF ok e'] by fastforce
qed

lemma replace_inv:
  assumes I: "tlsf_inv c t m (plug P s xs mid ys Q)" and mid: "mid \<noteq> []" "list_all blk_ok mid"
    and mid': "mid' \<noteq> []" "list_all blk_ok mid'" "extent mid' = extent mid" "no_adjacent_free (xs @ mid' @ ys)"
    and ch: "changes_only m m' (link_cells (dom (all_frees c (plug P s xs mid ys Q))) \<union>
      {s + extent xs ..< s + extent xs + extent mid} \<union> {s + extent xs + extent mid + 8})"
    and hd: "list_all (hdr m') (entries (last_addr None s xs) (s + extent xs) mid')"
    and nx: "m' (s + extent xs + extent mid + 8) =
      Some (of_ptr (last_addr (last_addr None s xs) (s + extent xs) mid'))"
    and fl: "fl_inv c t' m' (\<lambda>y. if s + extent xs \<le> y \<and> y < s + extent xs + extent mid
      then frees c (s + extent xs) mid' y else all_frees c (plug P s xs mid ys Q) y)"
  shows "tlsf_inv c t' m' (plug P s xs mid' ys Q)"
proof -
  let ?b = "s + extent xs" and ?n = "s + extent xs + extent mid" and ?p = "last_addr None s xs"
  let ?ps = "plug P s xs mid ys Q" and ?ps' = "plug P s xs mid' ys Q"
  note ok = inv_pools_ok [OF I]
  have ok': "pools_ok c ?ps'" by (rule plug_pools_ok [OF ok mid mid'])
  have p: "pool_ok c (s, xs @ mid @ ys)" using ok by (simp add: pools_ok_def plug_def)
  obtain zy ky ys' where ys: "ys = (zy, ky) # ys'"
  proof (rule shape_plug [OF _ mid(2,1)])
    show "shape (xs @ mid @ ys)" using p by (simp add: pool_ok_def)
    show thesis if "ys = us @ [(32, Sentinel)]" for us
      using that by (cases us) (auto intro: \<open>\<And>zy ky ys'. ys = (zy, ky) # ys' \<Longrightarrow> thesis\<close>)
  qed
  have n: "(?n, zy, ky, last_addr ?p ?b mid) \<in> set (all_entries ?ps)" by (simp add: all_entries_plug ys)
  note fn = entry_facts [OF ok n]
  note keep = replace_hdr_kept [OF I ch n]
  have next_ok: "hdr m' (?n, zy, ky, last_addr ?p ?b mid')"
    by (rule hdr_frame [OF inv_hdr [OF I n]]) (use replace_unchanged [OF ok ch n] fn nx in auto)
  have "hdr m' e" if mem: "e \<in> set (all_entries ?ps')" for e
  proof -
    obtain a z k q where e: "e = (a, z, k, q)" by (cases e)
    consider "e \<in> set (entries ?p ?b mid')" | "e = (?n, zy, ky, last_addr ?p ?b mid')"
      | "e \<in> set (all_entries P) \<union> set (entries None s xs) \<union>
          set (entries (Some ?n) (?n + zy) ys') \<union> set (all_entries Q)"
      using mem mid'(3) by (auto simp: all_entries_plug ys)
    then show ?thesis
    proof cases
      case 3
      note o = plug_outside_next [OF ok [unfolded ys] 3 [unfolded e], folded ys]
      show ?thesis unfolding e using keep [OF o(2)] o(1) by blast
    qed (use hd next_ok in \<open>auto simp: list_all_iff\<close>)
  qed
  moreover have "pools_mapped m ?ps" using I by (simp only: tlsf_inv_def)
  then have "pools_mapped m' ?ps'" by (rule pools_mapped_plug [OF _ mid'(3)]) (use ch in \<open>simp only: changes_only_def\<close>)
  moreover have "all_frees c ?ps' = (\<lambda>y. if ?b \<le> y \<and> y < ?n then frees c ?b mid' y else all_frees c ?ps y)"
    by (rule ext) (simp add: plug_frees [OF ok] plug_frees [OF ok'] mid'(3))
  ultimately show ?thesis using ok' fl by (simp add: tlsf_inv_def pools_ok_def list_all_iff)
qed

section \<open>Sizes and neighbours\<close>

lemma inv_cfg_ok: "tlsf_inv c t m ps \<Longrightarrow> cfg_ok c"
  by (simp add: tlsf_inv_def fl_inv_def)

lemma free_class_Some:
  assumes "cfg_ok c" "32 \<le> z" "32 dvd z" "z < USIZE_LIM" "\<And>mx. MAX_POOL_SIZE c = Some mx \<Longrightarrow> z < mx"
  obtains l where "free_class c z = Some l"
proof -
  have bs: "block_size z" using assms(2-4) by (simp add: block_size_def)
  have "z < 2 ^ (FLLEN c + 5)"
  proof (cases "FLLEN c + 5 < 64")
    case True
    then show ?thesis using assms(5) by (simp add: MAX_POOL_SIZE_def USIZE_BITS_def Let_def add.commute)
  next
    case False
    then have "(2::nat) ^ 64 \<le> 2 ^ (FLLEN c + 5)" by (intro power_increasing) simp_all
    with assms(4) show ?thesis by (simp only: USIZE_LIM_def)
  qed
  then have "map_floor c z \<noteq> Some None" using map_floor_None_iff [OF assms(1) bs] by simp
  then obtain fl sl where "map_floor c z = Some (Some (fl, sl))" by (rule seg.floor_obtain [OF assms(1) bs])
  then show thesis using bs by (intro that [of "(fl, sl)"]) (simp add: free_class_def)
qed

lemma plug_class:
  assumes ok: "pools_ok c (plug P s xs mid ys Q)" and c: "cfg_ok c" and mid: "mid \<noteq> []" "list_all blk_ok mid"
    and z: "32 \<le> z" "32 dvd z" "z \<le> extent mid"
  obtains l where "free_class c z = Some l"
proof -
  have p: "pool_ok c (s, xs @ mid @ ys)" using ok by (simp add: pools_ok_def plug_def)
  then have sh: "shape (xs @ mid @ ys)" by (simp add: pool_ok_def)
  obtain us where "ys = us @ [(32, Sentinel)]" by (rule shape_plug [OF sh mid(2,1)])
  then have le: "z + 32 \<le> extent (xs @ mid @ ys)" using z(3) by simp
  have "s + extent (xs @ mid @ ys) \<le> USIZE_LIM" and mx: "\<And>mx. MAX_POOL_SIZE c = Some mx \<Longrightarrow> extent (xs @ mid @ ys) \<le> mx"
    using p unfolding pool_ok_def by simp_all
  then have lim: "z < USIZE_LIM" using le by linarith
  have "z < mx" if "MAX_POOL_SIZE c = Some mx" for mx using mx [OF that] le by linarith
  then show thesis by (rule free_class_Some [OF c z(1,2) lim _ that])
qed

lemma free_entry_class:
  assumes I: "tlsf_inv c t m ps" and e: "(b, z, Free, q) \<in> set (all_entries ps)"
  obtains l where "free_class c z = Some l" and "all_frees c ps b = Some l"
proof -
  obtain P s xs ys Q where d: "ps = plug P s xs [(z, Free)] ys Q" "b = s + extent xs"
    by (rule all_entries_split [OF e])
  note ok = inv_pools_ok [OF I]
  note f = entry_facts [OF ok e]
  obtain l where l: "free_class c z = Some l"
    by (rule plug_class [OF ok [unfolded d(1)] inv_cfg_ok [OF I], of z]) (use f in \<open>auto simp: blk_ok_def\<close>)
  have "all_frees c ps b = Some l"
    using plug_frees [OF ok [unfolded d(1)], of b] d f l by simp
  with l show thesis by (rule that)
qed

lemma no_adjacent_free_append:
  "no_adjacent_free (xs @ ys) \<longleftrightarrow> no_adjacent_free xs \<and> no_adjacent_free ys \<and>
     (xs = [] \<or> ys = [] \<or> \<not> (snd (last xs) = Free \<and> snd (hd ys) = Free))"
  by (auto simp: no_adjacent_free_def successively_append_iff)

lemma no_adjacent_free_simps [simp]:
  "no_adjacent_free []" "no_adjacent_free [x]"
  "no_adjacent_free (x # y # xs) \<longleftrightarrow> \<not> (snd x = Free \<and> snd y = Free) \<and> no_adjacent_free (y # xs)"
  by (simp_all add: no_adjacent_free_def)

text \<open>A block other than the sentinel has a right neighbour, whose \<open>prev_phys_block\<close> is the
  block.\<close>

lemma next_entry:
  assumes ok: "pools_ok c (plug P s xs mid ys Q)" and mid: "mid \<noteq> []" "list_all blk_ok mid"
  obtains zn kn ys' where "ys = (zn, kn) # ys'"
    and "(s + extent xs + extent mid, zn, kn, last_addr (last_addr None s xs) (s + extent xs) mid)
      \<in> set (all_entries (plug P s xs mid ys Q))"
    and "s + extent xs + extent mid + zn \<le> USIZE_LIM" and "32 \<le> zn" and "32 dvd s + extent xs + extent mid"
    and "no_adjacent_free (xs @ mid @ ys)"
proof -
  have p: "pool_ok c (s, xs @ mid @ ys)" using ok by (simp add: pools_ok_def plug_def)
  then have sh: "shape (xs @ mid @ ys)" by (simp add: pool_ok_def)
  obtain us where "ys = us @ [(32, Sentinel)]" by (rule shape_plug [OF sh mid(2,1)])
  then obtain zn kn ys' where ys: "ys = (zn, kn) # ys'" by (cases us) auto
  then have e: "(s + extent xs + extent mid, zn, kn, last_addr (last_addr None s xs) (s + extent xs) mid)
      \<in> set (all_entries (plug P s xs mid ys Q))" by (simp add: all_entries_plug)
  show thesis using that [OF ys e] entry_facts [OF ok e] sh by (simp add: shape_def)
qed

lemma size_word_used [mem_simps]:
  assumes "32 dvd z"
  shows "size_word z k AND SIZE_USED = 0 \<longleftrightarrow> k = Free" and "0 < size_word z k AND SIZE_USED \<longleftrightarrow> k \<noteq> Free"
proof -
  have "z mod 2 = 0" using assms by (auto elim!: dvdE)
  then show "size_word z k AND SIZE_USED = 0 \<longleftrightarrow> k = Free"
    by (cases k) (auto simp: size_word_def SIZE_USED_def and_one_eq mod_2_eq_odd)
  then show "0 < size_word z k AND SIZE_USED \<longleftrightarrow> k \<noteq> Free" by auto
qed

text \<open>Cells of the run are not link cells of free blocks outside it.\<close>

lemma run_not_linked:
  assumes ok: "pools_ok c (plug P s xs mid ys Q)"
    and a: "s + extent xs \<le> a" "a < s + extent xs + extent mid"
    and D: "D \<subseteq> dom (all_frees c (plug P s xs mid ys Q))" "\<And>y. y \<in> D \<Longrightarrow> y \<notin> {s + extent xs ..< s + extent xs + extent mid}"
  shows "a \<notin> link_cells D"
proof
  assume "a \<in> link_cells D"
  then obtain y where y: "y \<in> D" "a = y + 16 \<or> a = y + 24" by (auto simp: link_cells_def)
  then obtain zy qy where e: "(y, zy, Free, qy) \<in> set (all_entries (plug P s xs mid ys Q))"
    using all_frees_entry D(1) by blast
  have p: "pool_ok c (s, xs @ mid @ ys)" using ok by (simp add: pools_ok_def plug_def)
  have "(y, zy, Free, qy) \<notin> set (entries (last_addr None s xs) (s + extent xs) mid)"
    using entries_range [of "(y, zy, Free, qy)" _ "s + extent xs" mid] pool_ok_pos [OF p] D(2) [OF y(1)] by fastforce
  with e have "(y, zy, Free, qy) \<in> set (all_entries P) \<union> set (entries None s xs) \<union>
      set (entries (last_addr (last_addr None s xs) (s + extent xs) mid) (s + extent xs + extent mid) ys) \<union>
      set (all_entries Q)" by (auto simp: all_entries_plug)
  from plug_outside [OF ok this] show False using y(2) a entry_facts [OF ok e] by auto
qed

lemma changes_only_mapped: "changes_only m m' S \<Longrightarrow> m' a \<noteq> None \<longleftrightarrow> m a \<noteq> None"
  by (auto simp: changes_only_def)

lemma changes_only_mono: "changes_only m m' S \<Longrightarrow> S \<subseteq> U \<Longrightarrow> changes_only m m' U"
  by (auto simp: changes_only_def)

lemma link_cells_mono: "D \<subseteq> E \<Longrightarrow> link_cells D \<subseteq> link_cells E"
  by (auto simp: link_cells_def)

lemma link_cells_insert [simp]: "link_cells (insert x D) = {x + 16, x + 24} \<union> link_cells D"
  by (auto simp: link_cells_def)

lemma run_mapped:
  assumes "tlsf_inv c t m (plug P s xs mid ys Q)" "s + extent xs \<le> a" "a < s + extent xs + extent mid" "8 dvd a"
  shows "m a \<noteq> None"
  using assms by (auto simp: tlsf_inv_def pools_mapped_def plug_def pool_range_def)

lemma blk_ok_pos: "list_all blk_ok xs \<Longrightarrow> list_all (\<lambda>x. 0 < fst x) xs"
  by (induction xs) (auto simp: blk_ok_def)

lemma blk_ok_extent:
  assumes "list_all blk_ok xs" "xs \<noteq> []"
  shows "32 dvd extent xs" "32 \<le> extent xs"
proof -
  have "x \<in> set xs \<Longrightarrow> 32 dvd fst x" for x using assms(1) by (simp add: list_all_iff blk_ok_def)
  then show "32 dvd extent xs" by (rule extent_dvd)
  show "32 \<le> extent xs" using assms by (cases xs) (auto simp: blk_ok_def)
qed

lemma run_blk_ok:
  assumes "pools_ok c (plug P s xs mid ys Q)" "\<And>x. x \<in> set mid \<Longrightarrow> snd x \<noteq> Sentinel"
  shows "list_all blk_ok mid"
proof -
  have p: "pool_ok c (s, xs @ mid @ ys)" using assms(1) by (simp add: pools_ok_def plug_def)
  have "32 dvd fst x \<and> 32 \<le> fst x" if "x \<in> set mid" for x
    by (rule pool_ok_dvd [OF p]) (simp add: that)
  then show ?thesis using assms(2) by (auto simp: list_all_iff blk_ok_def)
qed

lemma dvd_32_8: "32 dvd a \<Longrightarrow> 8 dvd (a::nat)"
  using dvd_trans [of 8 32 a] by simp

lemma run_start:
  assumes "pools_ok c (plug P s xs mid ys Q)" "mid \<noteq> []"
  shows "32 dvd s + extent xs" "0 < s + extent xs"
proof -
  obtain zm km mid1 where mm: "mid = (zm, km) # mid1" using assms(2) by (cases mid) auto
  have "(s + extent xs, zm, km, last_addr None s xs) \<in> set (all_entries (plug P s xs mid ys Q))"
    by (simp add: all_entries_plug mm)
  from entry_facts [OF assms(1) this] show "32 dvd s + extent xs" "0 < s + extent xs" by auto
qed

end
