(* ===== verification/Tlsf_Alloc.thy ===== *)
theory Tlsf_Alloc
  imports Tlsf_Layout
begin

text \<open>
  \<open>Tlsf::allocate\<close> and \<open>Tlsf::pool_size_to_contain_allocation\<close>
  (crates/rlsf/src/tlsf.rs). A result is a triple of the returned pointer, the struct and the memory.

  The lemmas \<open>allocate_take\<close> and \<open>allocate_fail\<close> give the behaviour on every branch: the
  function never faults; either it returns \<open>None\<close> and changes nothing, or it carves the
  allocation out of one free block.
\<close>

unbundle bit_operations_syntax

section \<open>Operations\<close>

definition pool_size_to_contain_allocation :: "cfg \<Rightarrow> layout \<Rightarrow> usize option fallible" where
  "pool_size_to_contain_allocation c l = do {
     max_overhead \<leftarrow> add_usize (saturating_sub (lalign l) (GRANULARITY div 2)) SIZE_OF_UsedBlockHdr;
     case checked_add (lsize l) max_overhead of None \<Rightarrow> Some None | Some search_size \<Rightarrow>
     case checked_add search_size (GRANULARITY - 1) of None \<Rightarrow> Some None | Some search_size \<Rightarrow> do {
       let search_size = search_size AND not_usize (GRANULARITY - 1);
       r \<leftarrow> map_ceil_and_unmap c search_size;
       case r of None \<Rightarrow> Some None
       | Some list_min_size \<Rightarrow> Some (checked_add list_min_size GRANULARITY)
     }
   }"

definition allocate ::
  "cfg \<Rightarrow> ('f::len word, 's::len word) tlsf \<Rightarrow> mem \<Rightarrow> layout \<Rightarrow>
   (usize option \<times> ('f word, 's word) tlsf \<times> mem) fallible" where
  "allocate c t m l = do {
     max_overhead \<leftarrow> add_usize (saturating_sub (lalign l) (GRANULARITY div 2)) SIZE_OF_UsedBlockHdr;
     case checked_add (lsize l) max_overhead of None \<Rightarrow> Some (None, t, m) | Some search_size \<Rightarrow>
     case checked_add search_size (GRANULARITY - 1) of None \<Rightarrow> Some (None, t, m) | Some search_size \<Rightarrow> do {
       let search_size = search_size AND not_usize (GRANULARITY - 1);
       r \<leftarrow> search_suitable_free_block_list_for_allocation c t search_size;
       case r of None \<Rightarrow> Some (None, t, m)
       | Some (fl, sl) \<Rightarrow> do {
           first_free \<leftarrow> get_first_free t fl sl;
           block \<leftarrow> first_free;
           next_phys \<leftarrow> next_phys_block m block;
           size_and_flags \<leftarrow> read_size m block;
           let sz = size_and_flags;
           debug_assert (sz = size_and_flags AND SIZE_SIZE_MASK);
           debug_assert (search_size \<le> sz);
           (t, m) \<leftarrow> unlink_first_free t m fl sl block;
           unaligned_ptr \<leftarrow> add_usize block SIZE_OF_UsedBlockHdr;
           let ptr = wrapping_add unaligned_ptr (lalign l - 1) AND not_usize (lalign l - 1);
           debug_assert (if lalign l < GRANULARITY then unaligned_ptr = ptr else unaligned_ptr \<noteq> ptr);
           overhead \<leftarrow> sub_usize ptr block;
           debug_assert (overhead \<le> max_overhead);
           new_size \<leftarrow> add_usize overhead (lsize l);
           new_size \<leftarrow> add_usize new_size GRANULARITY;
           new_size \<leftarrow> sub_usize new_size 1;
           let new_size = new_size AND not_usize (GRANULARITY - 1);
           debug_assert (new_size \<le> search_size);
           (t, m) \<leftarrow> (if new_size = sz then Some (t, m)
             else do {
               new_free_block \<leftarrow> add_usize block new_size;
               new_free_block_size \<leftarrow> sub_usize sz new_size;
               next_flags \<leftarrow> read_size m next_phys;
               debug_assert (next_flags AND SIZE_USED \<noteq> 0);
               m \<leftarrow> write_prev_phys m next_phys (Some new_free_block);
               m \<leftarrow> write_hdr m new_free_block
                 \<lparr>bh_size = new_free_block_size, bh_prev_phys_block = Some block\<rparr>;
               link_free_block c t m new_free_block new_free_block_size
             });
           m \<leftarrow> write_size m block (new_size OR SIZE_USED);
           m \<leftarrow> (if GRANULARITY \<le> lalign l then write_pad m ptr block else Some m);
           Some (Some ptr, t, m)
         }
     }
   }"

section \<open>The payload address\<close>

lemma align_cases:
  assumes "is_power_of_two al"
  shows "al < 32 \<Longrightarrow> al dvd 16" and "32 \<le> al \<Longrightarrow> 32 dvd al"
proof -
  obtain k where k: "al = 2 ^ k" using assms by (rule is_power_of_two_obtain)
  show "al dvd 16" if "al < 32"
  proof -
    have "(2::nat) ^ k < 2 ^ 5" using that k by simp
    then have "k < 5" by (rule power_less_imp_less_exp [rotated]) simp
    then show ?thesis using k le_imp_power_dvd [of k 4 "2::nat"] by simp
  qed
  show "32 dvd al" if "32 \<le> al"
  proof -
    have "(2::nat) ^ 5 \<le> 2 ^ k" using that k by simp
    then have "5 \<le> k" by (rule power_le_imp_le_exp [rotated]) simp
    then show ?thesis using k le_imp_power_dvd [of 5 k "2::nat"] by simp
  qed
qed

lemma round_up_payload:
  assumes "32 dvd b" "is_power_of_two al"
  shows "al < 32 \<Longrightarrow> round_up al (b + 16) = b + 16"
    and "32 \<le> al \<Longrightarrow> b + 32 \<le> round_up al (b + 16) \<and> round_up al (b + 16) \<le> b + al"
proof -
  show "round_up al (b + 16) = b + 16" if "al < 32"
  proof -
    have al: "al dvd 16" by (rule align_cases(1) [OF assms(2) that])
    also have "(16::nat) dvd b" using assms(1) by (rule dvd_trans [rotated]) simp
    finally have "al dvd b" .
    then have "al dvd b + 16" using al by simp
    moreover have "0 < al" using assms(2) by (simp add: is_power_of_two_def)
    ultimately show ?thesis by (rule round_up_id [rotated])
  qed
  show "b + 32 \<le> round_up al (b + 16) \<and> round_up al (b + 16) \<le> b + al" if "32 \<le> al"
  proof
    let ?r = "round_up al (b + 16)"
    have al: "32 dvd al" by (rule align_cases(2) [OF assms(2) that])
    then have r: "32 dvd ?r" by (meson dvd_trans round_up_dvd)
    have "b < ?r" using round_up_ge [of al "b + 16"] that by simp
    then show "b + 32 \<le> ?r" by (rule dvd_less_add_le [OF assms(1) r])
    show "?r \<le> b + al"
    proof (rule ccontr)
      assume "\<not> ?r \<le> b + al"
      then have "b + al + 32 \<le> ?r" using assms(1) al r by (intro dvd_less_add_le) auto
      moreover have "?r < b + 16 + al" using round_up_lt [of al "b + 16"] that by simp
      ultimately show False by linarith
    qed
  qed
qed

lemma and_not_align:
  assumes "is_power_of_two al" "al < USIZE_LIM" "x + (al - 1) < USIZE_LIM"
  shows "(x + (al - 1)) AND not_usize (al - 1) = round_up al x"
proof -
  obtain k where k: "al = 2 ^ k" using assms(1) by (rule is_power_of_two_obtain)
  then have "(2::nat) ^ k < 2 ^ 64" using assms(2) by (simp add: USIZE_LIM_def)
  then have "k < 64" by (rule power_less_imp_less_exp [rotated]) simp
  then show ?thesis using and_not_round_up [of x k] assms(3) k by simp
qed

section \<open>Sizes\<close>

definition search_size :: "layout \<Rightarrow> usize" where
  "search_size l = round_up 32 (lsize l + max 16 (lalign l))"

lemma layout_sizes:
  assumes "layout_ok l"
  shows "add_usize (saturating_sub (lalign l) (GRANULARITY div 2)) SIZE_OF_UsedBlockHdr = Some (max 16 (lalign l))"
    and "checked_add (lsize l) (max 16 (lalign l)) = Some (lsize l + max 16 (lalign l))"
    and "checked_add (lsize l + max 16 (lalign l)) (GRANULARITY - 1) = Some (lsize l + max 16 (lalign l) + 31)"
    and "(lsize l + max 16 (lalign l) + 31) AND not_usize (GRANULARITY - 1) = search_size l"
    and "block_size (search_size l)" and "search_size l + 32 < USIZE_LIM"
proof -
  have al: "0 < lalign l" using assms by (simp add: layout_ok_def is_power_of_two_def)
  have "lsize l + (lalign l - 1) \<le> 9223372036854775807" using assms by (simp add: layout_ok_def ISIZE_MAX_def)
  then have "lsize l + lalign l \<le> 9223372036854775808" using al by linarith
  then have le: "lsize l + lalign l \<le> 2 ^ 63" by simp
  then have "lalign l \<le> 2 ^ 63" and sum: "lsize l + max 16 (lalign l) \<le> 2 ^ 63 + 16" by (simp_all add: max_def)
  then show "add_usize (saturating_sub (lalign l) (GRANULARITY div 2)) SIZE_OF_UsedBlockHdr = Some (max 16 (lalign l))"
    by (auto simp: saturating_sub_def SIZE_OF_UsedBlockHdr_def add_usize_def USIZE_LIM_def max_def)
  show "checked_add (lsize l) (max 16 (lalign l)) = Some (lsize l + max 16 (lalign l))"
    and "checked_add (lsize l + max 16 (lalign l)) (GRANULARITY - 1) = Some (lsize l + max 16 (lalign l) + 31)"
    using sum by (simp_all add: checked_add_def USIZE_LIM_def)
  show "(lsize l + max 16 (lalign l) + 31) AND not_usize (GRANULARITY - 1) = search_size l"
    using and_not_31_round_up [of "lsize l + max 16 (lalign l)"] sum
    by (simp add: search_size_def USIZE_LIM_def)
  have r: "lsize l + max 16 (lalign l) \<le> search_size l" "search_size l < lsize l + max 16 (lalign l) + 32"
      "32 dvd search_size l"
    unfolding search_size_def by (simp_all add: round_up_32)
  show lim: "search_size l + 32 < USIZE_LIM" using r(2) sum by (simp add: USIZE_LIM_def)
  have "0 < search_size l" using r(1) by simp
  then have "32 \<le> search_size l" using r(3) dvd_imp_le by blast
  then show "block_size (search_size l)" using r(3) lim by (simp add: block_size_def)
qed

definition carve :: "usize \<Rightarrow> usize \<Rightarrow> kind \<Rightarrow> blk list" where
  "carve z ns k = (if ns = z then [(z, k)] else [(ns, k), (z - ns, Free)])"

lemma payload_sizes:
  assumes L: "layout_ok l" and b: "32 dvd b" and z: "search_size l \<le> z" "b + z + 32 \<le> USIZE_LIM"
  defines "ptr \<equiv> round_up (lalign l) (b + 16)"
  defines "ns \<equiv> round_up 32 (ptr - b + lsize l)"
  shows "add_usize b SIZE_OF_UsedBlockHdr = Some (b + 16)"
    and "wrapping_add (b + 16) (lalign l - 1) AND not_usize (lalign l - 1) = ptr"
    and "b + 16 \<le> ptr" and "ptr - b \<le> max 16 (lalign l)" and "lalign l dvd ptr"
    and "if lalign l < 32 then ptr = b + 16 else b + 32 \<le> ptr"
    and "add_usize (ptr - b) (lsize l) = Some (ptr - b + lsize l)"
    and "add_usize (ptr - b + lsize l) GRANULARITY = Some (ptr - b + lsize l + 32)"
    and "(ptr - b + lsize l + 31) AND not_usize 31 = ns"
    and "ns \<le> search_size l" and "32 \<le> ns" and "32 dvd ns" and "ptr + lsize l \<le> b + ns"
proof -
  have al: "is_power_of_two (lalign l)" "lalign l < USIZE_LIM" using L by (simp_all add: layout_ok_def)
  then have pos: "0 < lalign l" by (simp add: is_power_of_two_def)
  have ss: "lsize l + max 16 (lalign l) \<le> search_size l" unfolding search_size_def by (simp add: round_up_32)
  have sum: "b + lsize l + max 16 (lalign l) + 32 \<le> USIZE_LIM" using ss z by linarith
  show "add_usize b SIZE_OF_UsedBlockHdr = Some (b + 16)"
    using sum by (intro add_usize_Some [THEN trans]) (simp_all add: SIZE_OF_UsedBlockHdr_def)
  have wr: "b + 16 + (lalign l - 1) < USIZE_LIM" using sum pos by linarith
  then show "wrapping_add (b + 16) (lalign l - 1) AND not_usize (lalign l - 1) = ptr"
    using and_not_align [OF al wr] by (simp add: usize_simps ptr_def)
  note ru = round_up_payload [OF b al(1)]
  show ge: "b + 16 \<le> ptr" unfolding ptr_def by (rule round_up_ge [OF pos])
  show le: "ptr - b \<le> max 16 (lalign l)" using ru by (cases "lalign l < 32") (auto simp: ptr_def)
  show "lalign l dvd ptr" by (simp add: ptr_def)
  show "if lalign l < 32 then ptr = b + 16 else b + 32 \<le> ptr" using ru by (simp add: ptr_def)
  have tot: "ptr - b + lsize l + 32 < USIZE_LIM" using le ss layout_sizes(6) [OF L] by linarith
  then show "add_usize (ptr - b) (lsize l) = Some (ptr - b + lsize l)"
    and "add_usize (ptr - b + lsize l) GRANULARITY = Some (ptr - b + lsize l + 32)"
    by (simp_all add: add_usize_def)
  show "(ptr - b + lsize l + 31) AND not_usize 31 = ns"
    unfolding ns_def using tot by (intro and_not_31_round_up) linarith
  have "ptr - b + lsize l \<le> lsize l + max 16 (lalign l)" using le by linarith
  then have "ptr - b + lsize l \<le> search_size l" using ss by linarith
  then show "ns \<le> search_size l" unfolding ns_def by (intro round_up_least) (simp_all add: search_size_def)
  have n: "ptr - b + lsize l \<le> ns" "32 dvd ns" unfolding ns_def by (simp_all add: round_up_32)
  then have "0 < ns" using ge by linarith
  with n show "32 \<le> ns" "32 dvd ns" "ptr + lsize l \<le> b + ns" using dvd_imp_le [of 32 ns] ge by linarith+
qed

section \<open>Turning the start of a run into a used block\<close>

text \<open>A run of blocks becomes a used block of size \<open>ns\<close> followed by \<open>mid'\<close>. In
  \<open>m2\<close> everything is in place but the size word of the used block and, possibly, its pad.\<close>

text \<open>Writes to the header of the new block and inside it leave the free lists alone.\<close>

lemma used_cells_frame:
  fixes t2 :: "('f::len word, 's::len word) tlsf"
  assumes ok: "pools_ok c (plug P s xs mid ys Q)" and b: "b = s + extent xs" "z = extent mid"
    and fl: "fl_inv c t2 m2 (\<lambda>y. if b \<le> y \<and> y < b + z then frees c (b + ns) mid' y else all_frees c (plug P s xs mid ys Q) y)"
    and mid': "list_all blk_ok mid'" "ns + extent mid' = z" and b32: "32 dvd b"
    and same: "\<And>a. M a \<noteq> m2 a \<Longrightarrow> a = b \<or> b + 24 \<le> a \<and> a < b + ns"
  shows "fl_inv c t2 M (\<lambda>y. if b \<le> y \<and> y < b + z then frees c (b + ns) mid' y else all_frees c (plug P s xs mid ys Q) y)"
    (is "fl_inv c t2 M ?G")
proof (rule fls.frame [OF fl])
  let ?F = "all_frees c (plug P s xs mid ys Q)"
  fix a assume a: "a \<in> link_cells (dom ?G)"
  have "32 dvd y" if "y \<in> dom ?G" for y using fls.aligned [OF fl] that by auto
  then have "a \<noteq> b" using a link_cells_not_header(1) [of "dom ?G" b] b32 by blast
  moreover have "\<not> (b + 24 \<le> a \<and> a < b + ns)"
  proof
    assume in_blk: "b + 24 \<le> a \<and> a < b + ns"
    from a obtain y where y: "y \<in> dom ?G" "a = y + 16 \<or> a = y + 24" by (auto simp: link_cells_def)
    show False
    proof (cases "b \<le> y \<and> y < b + z")
      case True
      then obtain l where "frees c (b + ns) mid' y = Some l" using y(1) by auto
      moreover have "dom (frees c (b + ns) mid') \<subseteq> {b + ns ..< b + ns + extent mid'}"
        by (rule frees_dom [OF blk_ok_pos [OF mid'(1)]])
      ultimately have "b + ns \<le> y" by force
      with y(2) in_blk show False by linarith
    next
      case False
      then have "y \<in> dom ?F - {b ..< b + z}" using y(1) by auto
      then have "a \<in> link_cells (dom ?F - {b ..< b + z})" using y(2) by auto
      moreover have "a \<notin> link_cells (dom ?F - {b ..< b + z})"
        using in_blk mid'(2) by (intro run_not_linked [OF ok]) (auto simp: b)
      ultimately show False by simp
    qed
  qed
  ultimately show "M a = m2 a" using same by blast
qed

lemma free_hdrs_kept:
  assumes hd: "list_all (hdr m) (entries p b xs)" and fr: "\<forall>x \<in> set xs. snd x = Free" and xs: "list_all blk_ok xs"
    and M: "\<And>a. b \<le> a \<Longrightarrow> M a = m a"
  shows "list_all (hdr M) (entries p b xs)"
  unfolding list_all_iff
proof
  fix e assume e': "e \<in> set (entries p b xs)"
  obtain a z k q where e: "e = (a, z, k, q)" by (cases e)
  have "(z, k) \<in> set xs" using entries_split [OF e' [unfolded e]] by auto
  then have "k = Free" using fr by auto
  moreover have "b \<le> a" using entries_range [OF e' blk_ok_pos [OF xs]] by (simp add: e)
  moreover have "hdr m e" using hd e' by (simp add: list_all_iff)
  ultimately show "hdr M e" using M by (simp add: e)
qed

lemma use_run:
  fixes t2 :: "('f::len word, 's::len word) tlsf"
  assumes I: "tlsf_inv c t m (plug P s xs mid ys Q)" and mid: "mid \<noteq> []" "list_all blk_ok mid"
    and b: "b = s + extent xs" "z = extent mid"
    and mid': "no_adjacent_free (xs @ ((ns, Used ptr al sz) # mid') @ ys)" "list_all blk_ok mid'" "ns + extent mid' = z"
    and u: "b + 16 \<le> ptr" "ptr + sz \<le> b + ns" "is_power_of_two al" "al dvd ptr"
      "if al < 32 then ptr = b + 16 else b + 32 \<le> ptr" "32 \<le> ns" "32 dvd ns"
    and ch: "changes_only m m2 (link_cells (dom (all_frees c (plug P s xs mid ys Q))) \<union> {b ..< b + z} \<union> {b + z + 8})"
    and pp: "m2 (b + 8) = Some (of_ptr (last_addr None s xs))"
    and hd: "list_all (hdr m2) (entries (Some b) (b + ns) mid')" and fr: "\<forall>x \<in> set mid'. snd x = Free"
    and nx: "m2 (b + z + 8) = Some (of_ptr (last_addr (Some b) (b + ns) mid'))"
    and fl: "fl_inv c t2 m2 (\<lambda>y. if b \<le> y \<and> y < b + z then frees c (b + ns) mid' y
      else all_frees c (plug P s xs mid ys Q) y)"
    and M: "M = m2(b \<mapsto> ns + 1) \<and> (32 \<le> al \<longrightarrow> m2 (ptr - 8) = Some b) \<or>
      M = m2(b \<mapsto> ns + 1, ptr - 8 \<mapsto> b) \<and> 32 \<le> al"
  shows "tlsf_inv c t2 M (plug P s xs ((ns, Used ptr al sz) # mid') ys Q)"
    and "changes_only m M (link_cells (dom (all_frees c (plug P s xs mid ys Q))) \<union> {b ..< b + z} \<union> {b + z + 8})"
proof -
  let ?F = "all_frees c (plug P s xs mid ys Q)"
  let ?G = "\<lambda>y. if b \<le> y \<and> y < b + z then frees c (b + ns) mid' y else ?F y"
  note ok = inv_pools_ok [OF I]
  note ba = run_start [OF ok mid(1), folded b(1)]
  have al32: "32 dvd ptr" if "32 \<le> al" using u(3,4) that align_cases(2) [of al] by (meson dvd_trans)
  have pad: "b + 24 \<le> ptr - 8" "ptr - 8 < b + ns" "8 dvd ptr - 8" if "32 \<le> al"
    using u(2,5,6) that dvd_32_8 [OF al32 [OF that]] by (auto intro: dvd_diff_nat)
  have mp: "m a \<noteq> None" if "b \<le> a" "a < b + z" "8 dvd a" for a
    using run_mapped [OF I, of a] that by (simp add: b)
  have M': "M a = m2 a" if "a \<noteq> b" "a \<noteq> ptr - 8 \<or> al < 32" for a
    using M that by auto
  have Mb: "M b = Some (ns + 1)" and Mp: "32 \<le> al \<Longrightarrow> M (ptr - 8) = Some b"
    using M pad by auto
  show chM: "changes_only m M (link_cells (dom ?F) \<union> {b ..< b + z} \<union> {b + z + 8})"
  proof -
    let ?S = "link_cells (dom ?F) \<union> {b ..< b + z} \<union> {b + z + 8}"
    have 1: "changes_only m (m2(b \<mapsto> ns + 1)) ?S"
      using mp [of b] u(6) mid'(3) dvd_32_8 [OF ba(1)] by (intro changes_only_upd2 [OF ch]) auto
    have "changes_only m (m2(b \<mapsto> ns + 1, ptr - 8 \<mapsto> b)) ?S" if "32 \<le> al"
      using pad [OF that] mp [of "ptr - 8"] mid'(3) by (intro changes_only_upd2 [OF 1]) auto
    with 1 show ?thesis using M by blast
  qed
  have "a = b \<or> b + 24 \<le> a \<and> a < b + ns" if "M a \<noteq> m2 a" for a using M' [of a] pad that by (cases "al < 32") auto
  note G = used_cells_frame [OF ok b fl mid'(2,3) ba(1) this]
  have Mh: "M a = m2 a" if "b + ns \<le> a" for a using M' [of a] pad u(6) that by (cases "al < 32") auto
  show "tlsf_inv c t2 M (plug P s xs ((ns, Used ptr al sz) # mid') ys Q)"
  proof (rule replace_inv [OF I mid _ _ _ mid'(1)])
    show "list_all blk_ok ((ns, Used ptr al sz) # mid')" using mid'(2) u(6,7) by (simp add: blk_ok_def)
    show "extent ((ns, Used ptr al sz) # mid') = extent mid" using mid'(3) b by simp
    show "changes_only m M (link_cells (dom ?F) \<union> {s + extent xs ..< s + extent xs + extent mid} \<union>
        {s + extent xs + extent mid + 8})" using chM by (simp add: b)
    have "M (b + 8) = m2 (b + 8)" using M' [of "b + 8"] pad(1) by (cases "al < 32") auto
    moreover have "list_all (hdr M) (entries (Some b) (b + ns) mid')" by (rule free_hdrs_kept [OF hd fr mid'(2) Mh])
    ultimately show "list_all (hdr M) (entries (last_addr None s xs) (s + extent xs) ((ns, Used ptr al sz) # mid'))"
      using Mb Mp u pp by (auto simp: b [symmetric] used_ok_def size_word_def list_all_iff)
    show "M (s + extent xs + extent mid + 8) =
        Some (of_ptr (last_addr (last_addr None s xs) (s + extent xs) ((ns, Used ptr al sz) # mid')))"
      using nx Mh [of "b + z + 8"] mid'(3) by (simp add: b [symmetric])
    have "frees c (s + extent xs) ((ns, Used ptr al sz) # mid') = frees c (b + ns) mid'" by (simp add: b)
    then show "fl_inv c t2 M (\<lambda>y. if s + extent xs \<le> y \<and> y < s + extent xs + extent mid
        then frees c (s + extent xs) ((ns, Used ptr al sz) # mid') y else ?F y)"
      using G by (simp only: b)
  qed simp
qed

section \<open>Linking the rest of the run\<close>

text \<open>A free block is created at the end of the run: the header of the right neighbour and its own
  header are written, then it is linked. Cells of the free lists are aligned, so the header writes
  leave the lists alone.\<close>

lemma header_writes_frame:
  assumes fl: "fl_inv c t m cls" and ch: "changes_only m m' S"
    and S: "\<And>a. a \<in> S \<Longrightarrow> 32 dvd a \<or> (\<exists>b. 32 dvd b \<and> a = b + 8)"
  shows "fl_inv c t m' cls"
proof (rule fls.frame_changes [OF fl ch])
  have "32 dvd y" if "y \<in> dom cls" for y using fls.aligned [OF fl] that by auto
  then show "S \<inter> link_cells (dom cls) = {}" using S link_cells_not_header by blast
qed

lemma rest_writes:
  fixes t1 :: "('f::len word, 's::len word) tlsf"
  assumes I: "tlsf_inv c t m (plug P s xs mid ys Q)" and mid: "mid \<noteq> []" "list_all blk_ok mid"
    and b: "b = s + extent xs" "z = extent mid"
    and ns: "32 \<le> ns" "32 dvd ns" "ns < z"
    and fl: "fl_inv c t1 m1 G"
    and ch: "changes_only m m1 (link_cells (dom (all_frees c (plug P s xs mid ys Q))) \<union> {b ..< b + z} \<union> {b + z + 8})"
    and m2: "m2 = m1(b + z + 8 \<mapsto> b + ns, b + ns \<mapsto> z - ns, b + ns + 8 \<mapsto> b) \<or>
      m2 = m1(b + ns \<mapsto> z - ns, b + ns + 8 \<mapsto> b)"
  shows "changes_only m m2 (link_cells (dom (all_frees c (plug P s xs mid ys Q))) \<union> {b ..< b + z} \<union> {b + z + 8})"
    and "fl_inv c t1 m2 G"
    and "32 dvd z - ns" "32 \<le> z - ns" "32 dvd b + ns" "0 < b + ns" "m2 (b + ns + 16) \<noteq> None" "m2 (b + ns + 24) \<noteq> None"
proof -
  let ?n = "b + ns" and ?S = "link_cells (dom (all_frees c (plug P s xs mid ys Q))) \<union> {b ..< b + z} \<union> {b + z + 8}"
  note ok = inv_pools_ok [OF I]
  note ba = run_start [OF ok mid(1), folded b(1)]
  have dz: "32 dvd z" unfolding b(2) using mid(2) by (intro extent_dvd) (auto simp: list_all_iff blk_ok_def)
  then show rest: "32 dvd z - ns" "32 \<le> z - ns"
    using ns dvd_imp_le [of 32 "z - ns"] by (auto simp: dvd_diff_nat)
  show n: "32 dvd ?n" "0 < ?n" using ba ns by auto
  have mp: "m a \<noteq> None" if "b \<le> a" "a < b + z" "8 dvd a" for a
    using run_mapped [OF I, of a] that by (simp add: b)
  obtain zn kn ys' where ys: "(b + z, zn, kn, last_addr (last_addr None s xs) b mid) \<in> set (all_entries (plug P s xs mid ys Q))"
      "32 \<le> zn"
    by (rule next_entry [OF ok mid, folded b])
  have mn: "m (b + z + 8) \<noteq> None"
    using entry_mapped [OF ok _ ys(1), of m "b + z + 8"] I ys(2) dvd_32_8 [OF ba(1)] dvd_32_8 [OF dz]
    by (auto simp: tlsf_inv_def)
  have cells: "m ?n \<noteq> None" "m (?n + 8) \<noteq> None" "m (?n + 16) \<noteq> None" "m (?n + 24) \<noteq> None"
    using mp [of ?n] mp [of "?n + 8"] mp [of "?n + 16"] mp [of "?n + 24"] rest ns dvd_32_8 [OF n(1)] by auto
  have in_S: "b + z + 8 \<in> ?S" "?n \<in> ?S" "?n + 8 \<in> ?S" using ns rest by auto
  show ch2: "changes_only m m2 ?S"
    using m2 by (elim disjE; simp only:) (intro changes_only_upd2 ch in_S cells mn)+
  show "m2 (?n + 16) \<noteq> None" "m2 (?n + 24) \<noteq> None" using cells(3,4) changes_only_mapped [OF ch2] by blast+
  have cells1: "m1 (b + z + 8) \<noteq> None" "m1 ?n \<noteq> None" "m1 (?n + 8) \<noteq> None"
    using changes_only_mapped [OF ch] cells mn by blast+
  have "changes_only m1 m2 {b + z + 8, ?n, ?n + 8}"
    using m2 by (elim disjE; simp only:) (intro changes_only_upd2 changes_only_refl insertI1 insertI2 cells1)+
  then show "fl_inv c t1 m2 G"
  proof (rule header_writes_frame [OF fl])
    have "32 dvd b + z" using ba(1) dz by (rule dvd_add)
    then show "32 dvd a \<or> (\<exists>d. 32 dvd d \<and> a = d + 8)" if "a \<in> {b + z + 8, ?n, ?n + 8}" for a
      using that n(1) by blast
  qed
qed

lemma link_rest:
  fixes t1 :: "('f::len word, 's::len word) tlsf"
  assumes I: "tlsf_inv c t m (plug P s xs mid ys Q)" and mid: "mid \<noteq> []" "list_all blk_ok mid"
    and b: "b = s + extent xs" "z = extent mid"
    and ns: "32 \<le> ns" "32 dvd ns" "ns < z"
    and fl: "fl_inv c t1 m1 (\<lambda>y. if b \<le> y \<and> y < b + z then None else all_frees c (plug P s xs mid ys Q) y)"
    and ch: "changes_only m m1 (link_cells (dom (all_frees c (plug P s xs mid ys Q))) \<union> {b ..< b + z} \<union> {b + z + 8})"
    and m2: "m2 = m1(b + z + 8 \<mapsto> b + ns, b + ns \<mapsto> z - ns, b + ns + 8 \<mapsto> b) \<or>
      m2 = m1(b + ns \<mapsto> z - ns, b + ns + 8 \<mapsto> b)"
  obtains t3 m3 where "link_free_block c t1 m2 (b + ns) (z - ns) = Some (t3, m3)"
    and "fl_inv c t3 m3 (\<lambda>y. if b \<le> y \<and> y < b + z then frees c (b + ns) [(z - ns, Free)] y
      else all_frees c (plug P s xs mid ys Q) y)"
    and "changes_only m m3 (link_cells (dom (all_frees c (plug P s xs mid ys Q))) \<union> {b ..< b + z} \<union> {b + z + 8})"
    and "\<forall>a. 32 dvd a \<longrightarrow> m3 a = m2 a \<and> m3 (a + 8) = m2 (a + 8)"
    and "32 dvd z - ns" and "32 \<le> z - ns" and "\<forall>a. b \<le> a \<and> a < b + ns \<longrightarrow> m3 a = m1 a"
proof -
  let ?F = "all_frees c (plug P s xs mid ys Q)" and ?n = "b + ns"
  let ?H = "\<lambda>y. if b \<le> y \<and> y < b + z then None else ?F y"
  let ?S = "link_cells (dom ?F) \<union> {b ..< b + z} \<union> {b + z + 8}"
  note ok = inv_pools_ok [OF I]
  note w = rest_writes [OF I mid b ns fl ch m2]
  obtain l where l: "free_class c (z - ns) = Some l"
    by (rule plug_class [OF ok inv_cfg_ok [OF I] mid w(4,3)]) (simp_all add: b)
  obtain t3 m3 where link: "link_free_block c t1 m2 ?n (z - ns) = Some (t3, m3)" "fl_inv c t3 m3 (?H(?n \<mapsto> l))"
      "changes_only m2 m3 (link_cells (insert ?n (dom ?H)))"
      "\<forall>a. 32 dvd a \<longrightarrow> m3 a = m2 a \<and> m3 (a + 8) = m2 (a + 8)"
  proof (rule fls.link_obtain [OF w(2) l _ w(5,6)])
    show "?H ?n = None" using ns by simp
  qed (rule w)+
  have eq: "?H(?n \<mapsto> l) = (\<lambda>y. if b \<le> y \<and> y < b + z then frees c ?n [(z - ns, Free)] y else ?F y)"
    using l ns by (auto simp: fun_eq_iff)
  have sub: "link_cells (insert ?n (dom ?H)) \<subseteq> ?S"
  proof -
    have "dom ?H \<subseteq> dom ?F" by (auto split: if_splits)
    from link_cells_mono [OF this] show ?thesis using w(4) ns by auto
  qed
  have "m3 a = m1 a" if a: "b \<le> a" "a < b + ns" for a
  proof -
    have "a \<notin> link_cells (dom ?H)"
      by (rule run_not_linked [OF ok, of a]) (use a ns(3) in \<open>auto simp: b split: if_splits\<close>)
    then have "m3 a = m2 a" using link(3) a unfolding changes_only_def link_cells_insert by auto
    also have "m2 a = m1 a" using m2 a ns(3) by auto
    finally show ?thesis .
  qed
  then show thesis
    by (intro that [OF link(1) link(2) [unfolded eq] changes_only_trans [OF w(1) link(3) subset_refl sub] link(4) w(3,4)]) simp
qed

section \<open>Filling a run\<close>

text \<open>The free blocks of the run have been unlinked; the run is to become a used block of size
  \<open>ns\<close>, followed by a free block unless the used block takes all of it. This is the common end of
  \<open>allocate\<close> and of all three ways of reallocating in place, which differ in the order in which
  they write \<open>prev_phys_block\<close> of the right neighbour and in whether the pad is there already.\<close>

definition rest :: "usize \<Rightarrow> usize \<Rightarrow> blk list" where
  "rest z ns = (if ns = z then [] else [(z - ns, Free)])"

lemma carve_rest: "carve z ns k = (ns, k) # rest z ns"
  by (simp add: carve_def rest_def)

lemma rest_facts:
  assumes "32 dvd z" "32 dvd ns" "ns \<le> z"
  shows "list_all blk_ok (rest z ns)" and "ns + extent (rest z ns) = z" and "\<forall>x \<in> set (rest z ns). snd x = Free"
    and "last_addr (Some b) (b + ns) (rest z ns) = Some (if ns = z then b else b + ns)"
proof -
  have "32 \<le> z - ns" if "ns \<noteq> z" using assms that dvd_imp_le [of 32 "z - ns"] by (auto simp: dvd_diff_nat)
  then show "list_all blk_ok (rest z ns)" using assms by (simp add: rest_def blk_ok_def dvd_diff_nat)
qed (use assms in \<open>simp_all add: rest_def\<close>)

lemma link_fill:
  fixes t1 :: "('f::len word, 's::len word) tlsf"
  assumes I: "tlsf_inv c t m (plug P s xs mid ys Q)" and mid: "mid \<noteq> []" "list_all blk_ok mid"
    and b: "b = s + extent xs" "z = extent mid" and ns: "32 \<le> ns" "32 dvd ns" "ns \<le> z"
    and fl: "fl_inv c t1 m1 (\<lambda>y. if b \<le> y \<and> y < b + z then None else all_frees c (plug P s xs mid ys Q) y)"
    and ch: "changes_only m m1 (link_cells (dom (all_frees c (plug P s xs mid ys Q))) \<union> {b ..< b + z} \<union> {b + z + 8})"
    and m2: "m2 = m1(b + z + 8 \<mapsto> b + ns, b + ns \<mapsto> z - ns, b + ns + 8 \<mapsto> b) \<or>
      m2 = m1(b + ns \<mapsto> z - ns, b + ns + 8 \<mapsto> b)"
  obtains t3 m3 where "(if ns = z then Some (t1, m1) else link_free_block c t1 m2 (b + ns) (z - ns)) = Some (t3, m3)"
    and "fl_inv c t3 m3 (\<lambda>y. if b \<le> y \<and> y < b + z then frees c (b + ns) (rest z ns) y
      else all_frees c (plug P s xs mid ys Q) y)"
    and "changes_only m m3 (link_cells (dom (all_frees c (plug P s xs mid ys Q))) \<union> {b ..< b + z} \<union> {b + z + 8})"
    and "\<forall>a. b \<le> a \<and> a < b + ns \<longrightarrow> m3 a = m1 a"
    and "ns < z \<longrightarrow> (\<forall>a. 32 dvd a \<longrightarrow> m3 a = m2 a \<and> m3 (a + 8) = m2 (a + 8))"
    and "list_all (hdr m3) (entries (Some b) (b + ns) (rest z ns))"
proof (cases "ns = z")
  case True
  show thesis by (rule that [of t1 m1]) (use True fl ch in \<open>simp_all add: rest_def cong: if_cong\<close>)
next
  case False
  then have lt: "ns < z" using ns by simp
  obtain t3 m3 where r: "link_free_block c t1 m2 (b + ns) (z - ns) = Some (t3, m3)"
      "fl_inv c t3 m3 (\<lambda>y. if b \<le> y \<and> y < b + z then frees c (b + ns) [(z - ns, Free)] y
        else all_frees c (plug P s xs mid ys Q) y)"
      "changes_only m m3 (link_cells (dom (all_frees c (plug P s xs mid ys Q))) \<union> {b ..< b + z} \<union> {b + z + 8})"
      "\<forall>a. 32 dvd a \<longrightarrow> m3 a = m2 a \<and> m3 (a + 8) = m2 (a + 8)" "32 dvd z - ns" "32 \<le> z - ns"
      "\<forall>a. b \<le> a \<and> a < b + ns \<longrightarrow> m3 a = m1 a"
    by (rule link_rest [OF I mid b ns(1,2) lt fl ch m2])
  have n: "32 dvd b + ns" using run_start(1) [OF inv_pools_ok [OF I] mid(1)] ns(2) by (simp add: b)
  have "m2 (b + ns) = Some (z - ns)" "m2 (b + ns + 8) = Some b" using m2 by auto
  then have "list_all (hdr m3) (entries (Some b) (b + ns) (rest z ns))"
    using False r(4) n by (simp add: rest_def size_word_def)
  with False r show thesis by (intro that [of t3 m3]) (simp_all add: rest_def cong: if_cong)
qed

lemma fill_run:
  fixes t1 :: "('f::len word, 's::len word) tlsf"
  assumes I: "tlsf_inv c t m (plug P s xs mid ys Q)" and mid: "mid \<noteq> []" "list_all blk_ok mid"
    and b: "b = s + extent xs" "z = extent mid" and ns: "32 \<le> ns" "32 dvd ns" "ns \<le> z" and nf: "snd (hd ys) \<noteq> Free"
    and u: "b + 16 \<le> ptr" "ptr + sz \<le> b + ns" "is_power_of_two al" "al dvd ptr"
      "if al < 32 then ptr = b + 16 else b + 32 \<le> ptr"
    and fl: "fl_inv c t1 m1 (\<lambda>y. if b \<le> y \<and> y < b + z then None else all_frees c (plug P s xs mid ys Q) y)"
    and ch: "changes_only m m1 (link_cells (dom (all_frees c (plug P s xs mid ys Q))) \<union> {b ..< b + z} \<union> {b + z + 8})"
    and pp: "m1 (b + 8) = Some (of_ptr (last_addr None s xs))"
    and m2: "m2 = m1(b + z + 8 \<mapsto> b + ns, b + ns \<mapsto> z - ns, b + ns + 8 \<mapsto> b) \<or>
      m2 = m1(b + ns \<mapsto> z - ns, b + ns + 8 \<mapsto> b)"
  obtains t3 m3 where "(if ns = z then Some (t1, m1) else link_free_block c t1 m2 (b + ns) (z - ns)) = Some (t3, m3)"
    and "changes_only m m3 (link_cells (dom (all_frees c (plug P s xs mid ys Q))) \<union> {b ..< b + z} \<union> {b + z + 8})"
    and "ns < z \<longrightarrow> (\<forall>a. 32 dvd a \<longrightarrow> m3 a = m2 a \<and> m3 (a + 8) = m2 (a + 8))"
    and "\<forall>M N. N = m3(b + z + 8 \<mapsto> if ns = z then b else b + ns) \<longrightarrow>
      M = N(b \<mapsto> ns + 1) \<and> (32 \<le> al \<longrightarrow> m1 (ptr - 8) = Some b) \<or> M = N(b \<mapsto> ns + 1, ptr - 8 \<mapsto> b) \<and> 32 \<le> al \<longrightarrow>
      tlsf_inv c t3 M (plug P s xs (carve z ns (Used ptr al sz)) ys Q) \<and>
      changes_only m M (link_cells (dom (all_frees c (plug P s xs mid ys Q))) \<union> {b ..< b + z} \<union> {b + z + 8}) \<and>
      (\<forall>a. ptr \<le> a \<and> a < b + ns \<longrightarrow> M a = m1 a)"
proof -
  let ?F = "all_frees c (plug P s xs mid ys Q)" and ?S = "link_cells (dom (all_frees c (plug P s xs mid ys Q))) \<union> {b ..< b + z} \<union> {b + z + 8}"
  note ok = inv_pools_ok [OF I]
  note ba = run_start [OF ok mid(1), folded b(1)]
  obtain zn kn ys' where nx: "ys = (zn, kn) # ys'" "(b + z, zn, kn, last_addr (last_addr None s xs) b mid) \<in> set (all_entries (plug P s xs mid ys Q))"
      "32 dvd b + z" "no_adjacent_free (xs @ mid @ ys)" "b + z + zn \<le> USIZE_LIM" "32 \<le> zn"
    by (rule next_entry [OF ok mid, folded b])
  have dz: "32 dvd z" using blk_ok_extent [OF mid(2,1)] by (simp add: b)
  note rf = rest_facts [OF dz ns(2,3)]
  obtain t3 m3 where r: "(if ns = z then Some (t1, m1) else link_free_block c t1 m2 (b + ns) (z - ns)) = Some (t3, m3)"
      "fl_inv c t3 m3 (\<lambda>y. if b \<le> y \<and> y < b + z then frees c (b + ns) (rest z ns) y else ?F y)"
      "changes_only m m3 ?S" "\<forall>a. b \<le> a \<and> a < b + ns \<longrightarrow> m3 a = m1 a"
      "ns < z \<longrightarrow> (\<forall>a. 32 dvd a \<longrightarrow> m3 a = m2 a \<and> m3 (a + 8) = m2 (a + 8))"
      "list_all (hdr m3) (entries (Some b) (b + ns) (rest z ns))"
    by (rule link_fill [OF I mid b ns fl ch m2])
  define N where "N = m3(b + z + 8 \<mapsto> if ns = z then b else b + ns)"
  have mn: "m (b + z + 8) \<noteq> None" using inv_hdr [OF I nx(2)] by simp
  have N: "changes_only m N ?S" unfolding N_def by (rule changes_only_upd2 [OF r(3) _ mn]) simp
  have "changes_only m3 N {b + z + 8}"
    using changes_only_mapped [OF r(3), of "b + z + 8"] mn unfolding N_def by (intro changes_only_upd) auto
  then have flN: "fl_inv c t3 N (\<lambda>y. if b \<le> y \<and> y < b + z then frees c (b + ns) (rest z ns) y else ?F y)"
    by (rule header_writes_frame [OF r(2)]) (use nx(3) in blast)
  have Nk: "N a = m1 a" if "b \<le> a" "a < b + ns" for a using that r(4) ns(3) by (simp add: N_def)
  have hN: "list_all (hdr N) (entries (Some b) (b + ns) (rest z ns))"
    using r(6) ba(1) ns(2) nx(3) by (auto simp: rest_def N_def aligned_neq)
  have nxN: "N (b + z + 8) = Some (of_ptr (last_addr (Some b) (b + ns) (rest z ns)))" using rf(4) by (simp add: N_def)
  have ppN: "N (b + 8) = Some (of_ptr (last_addr None s xs))" using Nk [of "b + 8"] ns(1) pp by simp
  have adj: "no_adjacent_free (xs @ ((ns, Used ptr al sz) # rest z ns) @ ys)"
    using nx(1,4) nf by (auto simp: no_adjacent_free_append rest_def)
  have fin: "tlsf_inv c t3 M (plug P s xs (carve z ns (Used ptr al sz)) ys Q) \<and> changes_only m M ?S \<and>
      (\<forall>a. ptr \<le> a \<and> a < b + ns \<longrightarrow> M a = m1 a)"
    if M: "M = N(b \<mapsto> ns + 1) \<and> (32 \<le> al \<longrightarrow> m1 (ptr - 8) = Some b) \<or> M = N(b \<mapsto> ns + 1, ptr - 8 \<mapsto> b) \<and> 32 \<le> al" for M
  proof -
    have "N (ptr - 8) = m1 (ptr - 8)" using u(1,2) by (intro Nk) linarith+
    then have M': "M = N(b \<mapsto> ns + 1) \<and> (32 \<le> al \<longrightarrow> N (ptr - 8) = Some b) \<or> M = N(b \<mapsto> ns + 1, ptr - 8 \<mapsto> b) \<and> 32 \<le> al"
      using M by simp
    have "M a = m1 a" if "ptr \<le> a" "a < b + ns" for a using M that u(1) Nk [of a] by auto
    then show ?thesis unfolding carve_rest
      using use_run [OF I mid b adj rf(1,2) u ns(1,2) N ppN hN rf(3) nxN flN M'] by blast
  qed
  show thesis by (rule that [OF r(1,3,5)]) (use fin in \<open>simp add: N_def\<close>)
qed

section \<open>The behaviour of \<open>allocate\<close>\<close>

text \<open>The block that is taken, its neighbours, and the state after it was unlinked.\<close>

lemma take_block:
  fixes t :: "('f::len word, 's::len word) tlsf"
  assumes I: "tlsf_inv c t m ps" and L: "layout_ok l"
    and S: "search_suitable_free_block_list_for_allocation c t (search_size l) = Some (Some (fl, sl))"
  obtains b t1 m1 z P s xs ys Q zn kn where "get_first_free t fl sl = Some (Some b)" and "unlink_first_free t m fl sl b = Some (t1, m1)"
    and "next_phys_block m b = Some (b + z)" and "m b = Some z" and "search_size l \<le> z"
    and "ps = plug P s xs [(z, Free)] ys Q" and "b = s + extent xs" and "32 dvd b" and "32 dvd z" and "32 \<le> z"
    and "b + z + zn \<le> USIZE_LIM" and "32 \<le> zn" and "32 dvd zn" and "kn \<noteq> Free" and "snd (hd ys) \<noteq> Free"
    and "m1 (b + z) = Some (size_word zn kn)" and "m1 (b + z + 8) = Some b" and "m1 (b + 8) = Some (of_ptr (last_addr None s xs))"
    and "fl_inv c t1 m1 (\<lambda>y. if b \<le> y \<and> y < b + z then None else all_frees c ps y)"
    and "changes_only m m1 (link_cells (dom (all_frees c ps)))" and "\<forall>a. b \<le> a \<and> a < b + z \<and> 8 dvd a \<longrightarrow> m a \<noteq> None"
proof -
  let ?F = "all_frees c ps"
  have fl0: "fl_inv c t m ?F" using I by (simp add: tlsf_inv_def)
  note ls = layout_sizes [OF L] and ok = inv_pools_ok [OF I]
  obtain b t1 m1 a where take: "get_first_free t fl sl = Some (Some b)" "?F b = Some (fl, sl)"
      "map_ceil c (search_size l) = Some (Some a)" "list_le a (fl, sl)"
      "unlink_first_free t m fl sl b = Some (t1, m1)" "fl_inv c t1 m1 (?F(b := None))"
      "changes_only m m1 (link_cells (dom ?F))"
      "\<forall>b. 32 dvd b \<longrightarrow> m1 b = m b \<and> m1 (b + 8) = m (b + 8)"
    by (rule fls.search_take [OF fl0 ls(5) S])
  obtain z q where e: "(b, z, Free, q) \<in> set (all_entries ps)" and zc: "free_class c z = Some (fl, sl)"
    using all_frees_entry [OF take(2)] by blast
  note fb = entry_facts [OF ok e]
  obtain P s xs ys Q where pl: "ps = plug P s xs [(z, Free)] ys Q" and bs: "b = s + extent xs" and qs: "q = last_addr None s xs"
    by (rule all_entries_split [OF e])
  have mid: "[(z, Free)] \<noteq> []" "list_all blk_ok [(z, Free)]" using fb by (simp_all add: blk_ok_def)
  obtain zn kn ys' where nx: "ys = (zn, kn) # ys'" "(b + z, zn, kn, Some b) \<in> set (all_entries ps)"
      "b + z + zn \<le> USIZE_LIM" "32 \<le> zn" "32 dvd b + z" "no_adjacent_free (xs @ [(z, Free)] @ ys)"
    using next_entry [OF ok [unfolded pl] mid] unfolding pl bs by auto
  have kn: "kn \<noteq> Free" using nx(1,6) by (simp add: no_adjacent_free_append)
  have hb: "m b = Some z" "m (b + 8) = Some (of_ptr q)" using inv_hdr [OF I e] by (simp_all add: size_word_def)
  have le: "search_size l \<le> z"
    using map_ceil_fit [OF inv_cfg_ok [OF I] ls(5) _ take(3) _ take(4), of z] zc
    by (auto simp: free_class_def split: if_splits option.splits)
  have eqF: "?F(b := None) = (\<lambda>y. if b \<le> y \<and> y < b + z then None else ?F y)"
    using plug_frees [OF ok [unfolded pl]] fb zc by (auto simp: fun_eq_iff pl bs)
  have nxt: "next_phys_block m b = Some (b + z)" using fb hb nx(3,4) by (intro next_phys_block_free) auto
  have m1: "m1 (b + z) = Some (size_word zn kn)" "m1 (b + z + 8) = Some b" "m1 (b + 8) = Some (of_ptr (last_addr None s xs))"
    using take(8) fb hb(2) nx(5) inv_hdr [OF I nx(2)] by (simp_all add: qs)
  have mp: "\<forall>a. b \<le> a \<and> a < b + z \<and> 8 dvd a \<longrightarrow> m a \<noteq> None" using entry_mapped [OF ok _ e, of m] I by (simp add: tlsf_inv_def)
  have zn: "32 dvd zn" using entry_facts [OF ok nx(2)] by blast
  show thesis
    by (rule that [OF take(1,5) nxt hb(1) le pl bs _ _ _ nx(3,4) zn kn _ m1 take(6) [unfolded eqF] take(7) mp]) (use fb nx(1) kn in simp_all)
qed

text \<open>The pad before a payload with a large alignment.\<close>

lemma pad_writes:
  assumes p: "32 dvd ptr" "b + 32 \<le> ptr" "ptr \<le> b + z" "ptr < USIZE_LIM" and ch: "changes_only m m2 S"
    and mp: "\<forall>a. b \<le> a \<and> a < b + z \<and> 8 dvd a \<longrightarrow> m a \<noteq> None"
  shows "write_pad (m2(b \<mapsto> n)) ptr b = Some (m2(b \<mapsto> n, ptr - 8 \<mapsto> b))"
proof (rule write_pad_eq)
  show d: "8 dvd ptr" using p(1) by (rule dvd_32_8)
  show "8 \<le> ptr" "ptr < USIZE_LIM" using p by linarith+
  have "8 dvd ptr - 8" using d by (simp add: dvd_diff_nat)
  moreover have "b \<le> ptr - 8" "ptr - 8 < b + z" using p by linarith+
  ultimately show "(m2(b \<mapsto> n)) (ptr - 8) \<noteq> None" using mp changes_only_mapped [OF ch] by simp
qed

text \<open>Splitting off the rest of the block.\<close>

lemma split_rest:
  assumes r: "(if ns = z then Some (t1, m1) else link_free_block c t1 (m1(b + z + 8 \<mapsto> b + ns, b + ns \<mapsto> z - ns, b + ns + 8 \<mapsto> b)) (b + ns) (z - ns)) = Some (t2, m2)"
    and d: "32 dvd b" "32 dvd z" "32 dvd ns" "ns \<le> z" and zn: "b + z + zn \<le> USIZE_LIM" "32 \<le> zn" "32 dvd zn" "kn \<noteq> Free"
    and m1: "m1 (b + z) = Some (size_word zn kn)" "m1 (b + z + 8) = Some b" "\<forall>a. b \<le> a \<and> a < b + z \<and> 8 dvd a \<longrightarrow> m1 a \<noteq> None"
  shows "(if ns = z then Some (t1, m1) else do {
        new_free_block \<leftarrow> add_usize b ns;
        new_free_block_size \<leftarrow> sub_usize z ns;
        next_flags \<leftarrow> read_size m1 (b + z);
        debug_assert (next_flags AND SIZE_USED \<noteq> 0);
        m \<leftarrow> write_prev_phys m1 (b + z) (Some new_free_block);
        m \<leftarrow> write_hdr m new_free_block \<lparr>bh_size = new_free_block_size, bh_prev_phys_block = Some b\<rparr>;
        link_free_block c t1 m new_free_block new_free_block_size}) = Some (t2, m2)"
proof (cases "ns = z")
  case False
  then have lt: "ns < z" using d(4) by simp
  then have "ns + 32 \<le> z" using d(2,3) by (simp add: dvd_less_add_le)
  moreover have "8 dvd b + ns" using dvd_32_8 [OF d(1)] dvd_32_8 [OF d(3)] by simp
  ultimately have m1n: "m1 (b + ns) \<noteq> None" "m1 (b + ns + 8) \<noteq> None" using m1(3) by simp_all
  have bz: "32 dvd b + z" using d(1,2) by simp
  show ?thesis unfolding r [symmetric] using False lt zn m1(1,2) m1n d(1,3) bz
    by (simp add: add_usize_Some sub_usize_Some mem_simps)
qed (use r in simp)

text \<open>The run of \<open>allocate\<close> once the block, the payload and the size of the used block are known.\<close>

lemma allocate_run:
  fixes t :: "('f::len word, 's::len word) tlsf"
  assumes L: "layout_ok l" and S: "search_suitable_free_block_list_for_allocation c t (search_size l) = Some (Some (fl, sl))"
    and tk: "get_first_free t fl sl = Some (Some b)" "unlink_first_free t m fl sl b = Some (t1, m1)"
      "next_phys_block m b = Some (b + z)" "m b = Some z"
    and d: "32 dvd b" "32 dvd z" and le: "search_size l \<le> z" and zl: "b + z + 32 \<le> USIZE_LIM"
    and ptr: "ptr = round_up (lalign l) (b + 16)" and ns: "ns = round_up 32 (ptr - b + lsize l)"
    and split: "(if ns = z then Some (t1, m1) else do {
         new_free_block \<leftarrow> add_usize b ns;
         new_free_block_size \<leftarrow> sub_usize z ns;
         next_flags \<leftarrow> read_size m1 (b + z);
         debug_assert (next_flags AND SIZE_USED \<noteq> 0);
         m \<leftarrow> write_prev_phys m1 (b + z) (Some new_free_block);
         m \<leftarrow> write_hdr m new_free_block \<lparr>bh_size = new_free_block_size, bh_prev_phys_block = Some b\<rparr>;
         link_free_block c t1 m new_free_block new_free_block_size
       }) = Some (t2, m2)"
    and m2: "m2 b \<noteq> None" and pad: "\<not> lalign l < 32 \<Longrightarrow> write_pad (m2(b \<mapsto> ns + 1)) ptr b = Some (m2(b \<mapsto> ns + 1, ptr - 8 \<mapsto> b))"
  shows "allocate c t m l = Some (Some ptr, t2, if lalign l < 32 then m2(b \<mapsto> ns + 1) else m2(b \<mapsto> ns + 1, ptr - 8 \<mapsto> b))"
    (is "_ = Some (_, _, ?M)")
proof -
  note ls = layout_sizes [OF L] and py = payload_sizes [OF L d(1) le zl, folded ptr, folded ns]
  have "z < USIZE_LIM" using zl by simp
  then have steps: "read_size m b = Some z" "(z = z AND SIZE_SIZE_MASK) = True" "(search_size l \<le> z) = True"
    "(if lalign l < GRANULARITY then b + 16 = ptr else b + 16 \<noteq> ptr) = True"
    "sub_usize ptr b = Some (ptr - b)" "(ptr - b \<le> max 16 (lalign l)) = True"
    "sub_usize (ptr - b + lsize l + 32) 1 = Some (ptr - b + lsize l + 31)"
    "(ptr - b + lsize l + 31) AND not_usize (GRANULARITY - 1) = ns" "(ns \<le> search_size l) = True"
    "write_size m2 b (ns OR SIZE_USED) = Some (m2(b \<mapsto> ns + 1))"
    "(if GRANULARITY \<le> lalign l then write_pad (m2(b \<mapsto> ns + 1)) ptr b else Some (m2(b \<mapsto> ns + 1))) = Some ?M"
    using tk(4) d le py pad m2 by (auto simp: mem_simps sub_usize_Some)
  show ?thesis by (simp only: allocate_def ls(1-4) S tk(1-3) py(1,2,7,8) split steps run_simps)
qed

lemma allocate_take:
  fixes t :: "('f::len word, 's::len word) tlsf"
  assumes I: "tlsf_inv c t m ps" and L: "layout_ok l"
    and S: "search_suitable_free_block_list_for_allocation c t (search_size l) = Some (Some (fl, sl))"
  obtains ptr t' m' P s xs z ys Q ns where "allocate c t m l = Some (Some ptr, t', m')"
    and "ps = plug P s xs [(z, Free)] ys Q"
    and "ns \<le> search_size l" and "search_size l \<le> z" and "ptr = round_up (lalign l) (s + extent xs + 16)"
    and "tlsf_inv c t' m' (plug P s xs (carve z ns (Used ptr (lalign l) (lsize l))) ys Q)"
    and "changes_only m m' (link_cells (dom (all_frees c ps)) \<union> {s + extent xs ..< s + extent xs + z} \<union>
      {s + extent xs + z + 8})"
proof -
  obtain b t1 m1 z P s xs ys Q zn kn where tk: "get_first_free t fl sl = Some (Some b)" "unlink_first_free t m fl sl b = Some (t1, m1)"
      "next_phys_block m b = Some (b + z)" "m b = Some z" and le: "search_size l \<le> z"
    and pl: "ps = plug P s xs [(z, Free)] ys Q" and bs: "b = s + extent xs" and d: "32 dvd b" "32 dvd z" "32 \<le> z"
    and nx: "b + z + zn \<le> USIZE_LIM" "32 \<le> zn" "32 dvd zn" "kn \<noteq> Free" "snd (hd ys) \<noteq> Free"
    and m1: "m1 (b + z) = Some (size_word zn kn)" "m1 (b + z + 8) = Some b" "m1 (b + 8) = Some (of_ptr (last_addr None s xs))"
    and fl1: "fl_inv c t1 m1 (\<lambda>y. if b \<le> y \<and> y < b + z then None else all_frees c ps y)"
    and ch: "changes_only m m1 (link_cells (dom (all_frees c ps)))" and mp: "\<forall>a. b \<le> a \<and> a < b + z \<and> 8 dvd a \<longrightarrow> m a \<noteq> None"
    by (rule take_block [OF I L S])
  let ?F = "all_frees c ps"
  let ?C = "link_cells (dom ?F) \<union> {b ..< b + z} \<union> {b + z + 8}"
  have mid: "[(z, Free)] \<noteq> []" "list_all blk_ok [(z, Free)]" and zx: "z = extent [(z, Free)]" using d by (simp_all add: blk_ok_def)
  define ptr where "ptr = round_up (lalign l) (b + 16)"
  define ns where "ns = round_up 32 (ptr - b + lsize l)"
  have zl: "b + z + 32 \<le> USIZE_LIM" using nx(1,2) by linarith
  note py = payload_sizes [OF L d(1) le zl, folded ptr_def, folded ns_def]
  have ch1: "changes_only m m1 ?C" using ch by (rule changes_only_mono) auto
  have al: "is_power_of_two (lalign l)" using L by (simp add: layout_ok_def)
  have nsz: "ns \<le> z" using py(10) le by linarith
  obtain t2 m2 where tm2: "(if ns = z then Some (t1, m1) else link_free_block c t1 (m1(b + z + 8 \<mapsto> b + ns, b + ns \<mapsto> z - ns, b + ns + 8 \<mapsto> b)) (b + ns) (z - ns)) = Some (t2, m2)"
      "changes_only m m2 ?C" "ns < z \<longrightarrow> (\<forall>a. 32 dvd a \<longrightarrow> m2 a = (m1(b + z + 8 \<mapsto> b + ns, b + ns \<mapsto> z - ns, b + ns + 8 \<mapsto> b)) a \<and>
        m2 (a + 8) = (m1(b + z + 8 \<mapsto> b + ns, b + ns \<mapsto> z - ns, b + ns + 8 \<mapsto> b)) (a + 8))"
      "\<forall>M N. N = m2(b + z + 8 \<mapsto> if ns = z then b else b + ns) \<longrightarrow>
        M = N(b \<mapsto> ns + 1) \<and> (32 \<le> lalign l \<longrightarrow> m1 (ptr - 8) = Some b) \<or> M = N(b \<mapsto> ns + 1, ptr - 8 \<mapsto> b) \<and> 32 \<le> lalign l \<longrightarrow>
        tlsf_inv c t2 M (plug P s xs (carve z ns (Used ptr (lalign l) (lsize l))) ys Q) \<and> changes_only m M ?C \<and>
        (\<forall>a. ptr \<le> a \<and> a < b + ns \<longrightarrow> M a = m1 a)"
    unfolding pl
    by (rule fill_run [OF I [unfolded pl] mid bs zx py(11,12) nsz nx(5) py(3,13) al py(5,6) fl1 [unfolded pl] ch1 [unfolded pl] m1(3) disjI1 [OF refl]])
  have nochange: "m2 = m2(b + z + 8 \<mapsto> if ns = z then b else b + ns)"
  proof -
    have "32 dvd b + z" "32 dvd b + ns" using d py(12) by simp_all
    then have "m2 (b + z + 8) = Some (if ns = z then b else b + ns)" using tm2(1,3) m1(2) nsz by (cases "ns = z") (simp_all add: aligned_neq)
    then show ?thesis by (metis fun_upd_triv)
  qed
  define M where "M = (if lalign l < 32 then m2(b \<mapsto> ns + 1) else m2(b \<mapsto> ns + 1, ptr - 8 \<mapsto> b))"
  have pad: "write_pad (m2(b \<mapsto> ns + 1)) ptr b = Some (m2(b \<mapsto> ns + 1, ptr - 8 \<mapsto> b))" if "\<not> lalign l < 32"
    using that py(5,6,10,13) al align_cases(2) [of "lalign l"] le zl
    by (intro pad_writes [OF _ _ _ _ tm2(2) mp]) (auto intro: dvd_trans)
  have "\<forall>a. b \<le> a \<and> a < b + z \<and> 8 dvd a \<longrightarrow> m1 a \<noteq> None" using mp changes_only_mapped [OF ch] by blast
  note split = split_rest [OF tm2(1) d(1,2) py(12) nsz nx(1-4) m1(1,2) this]
  have "m2 b \<noteq> None" using changes_only_mapped [OF tm2(2), of b] tk(4) by simp
  then have ev: "allocate c t m l = Some (Some ptr, t2, M)"
    unfolding M_def by (rule allocate_run [OF L S tk d(1,2) le zl ptr_def ns_def split _ pad])
  have "M = m2(b \<mapsto> ns + 1) \<and> (32 \<le> lalign l \<longrightarrow> m1 (ptr - 8) = Some b) \<or>
      M = m2(b \<mapsto> ns + 1, ptr - 8 \<mapsto> b) \<and> 32 \<le> lalign l" by (auto simp: M_def)
  note fin = tm2(4) [rule_format, OF nochange this]
  show thesis
    by (rule that [OF ev pl py(10) le _ conjunct1 [OF fin]]) (use fin in \<open>simp_all add: bs ptr_def\<close>)
qed

lemma allocate_fail:
  fixes t :: "('f::len word, 's::len word) tlsf"
  assumes I: "tlsf_inv c t m ps" and L: "layout_ok l"
    and S: "search_suitable_free_block_list_for_allocation c t (search_size l) = Some None"
  shows "allocate c t m l = Some (None, t, m)"
    and "\<And>a b z q. map_ceil c (search_size l) = Some (Some a) \<Longrightarrow> (b, z, Free, q) \<in> set (all_entries ps) \<Longrightarrow>
      \<exists>k. free_class c z = Some k \<and> \<not> list_le a k"
proof -
  show "allocate c t m l = Some (None, t, m)"
    by (simp only: allocate_def layout_sizes(1-4) [OF L] S run_simps)
  fix a b z q assume a: "map_ceil c (search_size l) = Some (Some a)" and e: "(b, z, Free, q) \<in> set (all_entries ps)"
  have "fl_inv c t m (all_frees c ps)" using I by (simp add: tlsf_inv_def)
  from fls.search_law [OF this layout_sizes(5) [OF L]] have "best_list (all_frees c ps) a None"
    using S a by simp
  then have "\<not> list_le a k" if "all_frees c ps b = Some k" for k
    using that by (cases k) (auto simp: best_list_def)
  then show "\<exists>k. free_class c z = Some k \<and> \<not> list_le a k"
    by (rule_tac free_entry_class [OF I e]) blast
qed

lemma allocate_search:
  fixes t :: "('f::len word, 's::len word) tlsf"
  assumes "tlsf_inv c t m ps" and "layout_ok l"
  obtains r where "search_suitable_free_block_list_for_allocation c t (search_size l) = Some r"
  using fls.search_law [of c t m "all_frees c ps" "search_size l"] assms layout_sizes(5)
  by (auto simp: tlsf_inv_def)

text \<open>A free block of the size \<open>pool_size_to_contain_allocation\<close> asks for, less the sentinel
  block, is enough for the allocation to succeed.\<close>

lemma pool_size_eval:
  assumes "layout_ok l" and "pool_size_to_contain_allocation c l = Some (Some n)"
  obtains y where "map_ceil_and_unmap c (search_size l) = Some (Some y)" and "n = y + 32"
proof -
  have "pool_size_to_contain_allocation c l =
      map_ceil_and_unmap c (search_size l) \<bind>
        (\<lambda>r. case r of None \<Rightarrow> Some None | Some y \<Rightarrow> Some (checked_add y GRANULARITY))"
    by (simp only: pool_size_to_contain_allocation_def layout_sizes(1-4) [OF assms(1)] run_simps)
  with assms(2) show thesis
    by (auto simp: checked_add_def intro: that split: Option.bind_splits option.splits if_splits)
qed

lemma allocate_contained:
  fixes t :: "('f::len word, 's::len word) tlsf"
  assumes I: "tlsf_inv c t m ps" and L: "layout_ok l" and n: "pool_size_to_contain_allocation c l = Some (Some n)"
    and e: "(b, z, Free, q) \<in> set (all_entries ps)" and le: "n \<le> z + 32"
  obtains fl sl where "search_suitable_free_block_list_for_allocation c t (search_size l) = Some (Some (fl, sl))"
proof -
  note c = inv_cfg_ok [OF I]
  obtain y where y: "map_ceil_and_unmap c (search_size l) = Some (Some y)" "n = y + 32"
    by (rule pool_size_eval [OF L n])
  obtain k where k: "free_class c z = Some k" "all_frees c ps b = Some k" by (rule free_entry_class [OF I e])
  then have z: "block_size z" "map_floor c z = Some (Some k)"
    by (auto simp: free_class_def split: if_splits option.splits)
  obtain a where a: "map_ceil c (search_size l) = Some (Some a)" "list_le a k"
    by (rule seg.large_enough [OF c layout_sizes(5) [OF L] z(1) y(1) _ z(2)]) (use y(2) le in simp)
  obtain r where r: "search_suitable_free_block_list_for_allocation c t (search_size l) = Some r"
    by (rule allocate_search [OF I L])
  have "r \<noteq> None"
  proof
    assume "r = None"
    with allocate_fail(2) [OF I L _ a(1) e] r k(1) a(2) show False by auto
  qed
  with r that show thesis by auto
qed

end
