(* ===== verification/Tlsf_Pool.thy ===== *)
theory Tlsf_Pool
  imports Tlsf_Alloc
begin

text \<open>
  Adding memory to the allocator (crates/rlsf/src/tlsf.rs): \<open>insert_free_block_ptr\<close>, its
  loop \<open>insert_free_block_ptr_aligned\<close>, \<open>append_free_block_ptr\<close> and
  \<open>insert_free_block\<close>. A slice pointer is a pair of an address and a length.

  \<open>add_pools\<close> is the reference definition of what the loop adds: one pool of at most
  \<open>MAX_POOL_SIZE\<close> bytes after the other, each a free block and a sentinel.
\<close>

unbundle bit_operations_syntax

section \<open>Operations\<close>

definition chunk_size :: "cfg \<Rightarrow> usize \<Rightarrow> usize" where
  "chunk_size c sz = (case MAX_POOL_SIZE c of Some max_pool_size \<Rightarrow> min sz max_pool_size | None \<Rightarrow> sz)"

lemma chunk_size_le: "chunk_size c sz \<le> sz" and chunk_size_pos: "0 < sz \<Longrightarrow> 0 < chunk_size c sz"
  by (auto simp: chunk_size_def MAX_POOL_SIZE_def Let_def split: option.splits if_splits)

function insert_loop ::
  "cfg \<Rightarrow> ('f::len word, 's::len word) tlsf \<Rightarrow> mem \<Rightarrow> usize \<Rightarrow> usize \<Rightarrow> (usize \<times> ('f word, 's word) tlsf \<times> mem) option" where
  "insert_loop c t m cursor sz =
     (if sz < GRANULARITY * 2 then Some (cursor, t, m)
      else do {
        debug_assert (chunk_size c sz mod GRANULARITY = 0);
        block_sz \<leftarrow> sub_usize (chunk_size c sz) GRANULARITY;
        m \<leftarrow> write_hdr m cursor \<lparr>bh_size = block_sz, bh_prev_phys_block = None\<rparr>;
        sentinel_block \<leftarrow> next_phys_block m cursor;
        m \<leftarrow> write_hdr m sentinel_block
          \<lparr>bh_size = GRANULARITY OR SIZE_USED OR SIZE_SENTINEL, bh_prev_phys_block = Some cursor\<rparr>;
        (t, m) \<leftarrow> link_free_block c t m cursor block_sz;
        debug_assert (checked_add cursor (chunk_size c sz) \<noteq> None \<or> sz = chunk_size c sz);
        insert_loop c t m (wrapping_add cursor (chunk_size c sz)) (sz - chunk_size c sz)
      })"
  by pat_completeness auto
termination
  by (relation "measure (\<lambda>(c, t, m, cursor, sz). sz)")
    (use chunk_size_pos in \<open>auto simp: diff_less\<close>)

definition insert_free_block_ptr_aligned ::
  "cfg \<Rightarrow> ('f::len word, 's::len word) tlsf \<Rightarrow> mem \<Rightarrow> usize \<times> usize \<Rightarrow>
   (usize option \<times> ('f word, 's word) tlsf \<times> mem) option" where
  "insert_free_block_ptr_aligned c t m blk = do {
     (cursor, t, m) \<leftarrow> insert_loop c t m (nonnull_slice_start blk) (nonnull_slice_len blk);
     Some (to_ptr (wrapping_sub cursor (nonnull_slice_start blk)), t, m)
   }"

definition insert_free_block_ptr ::
  "cfg \<Rightarrow> ('f::len word, 's::len word) tlsf \<Rightarrow> mem \<Rightarrow> usize \<times> usize \<Rightarrow>
   (usize option \<times> ('f word, 's word) tlsf \<times> mem) option" where
  "insert_free_block_ptr c t m blk = (
     let len = nonnull_slice_len blk;
         unaligned_start = nonnull_slice_start blk;
         start = wrapping_add unaligned_start (GRANULARITY - 1) AND not_usize (GRANULARITY - 1)
     in case checked_sub len (wrapping_sub start unaligned_start) of
       None \<Rightarrow> Some (None, t, m)
     | Some x \<Rightarrow>
         if \<not> GRANULARITY * 2 \<le> x then Some (None, t, m)
         else do {
           (r, t, m) \<leftarrow> insert_free_block_ptr_aligned c t m (nonnull_slice_from_raw_parts start (x AND not_usize (GRANULARITY - 1)));
           case r of None \<Rightarrow> Some (None, t, m)
           | Some pool_len \<Rightarrow> do {
               n \<leftarrow> add_usize pool_len (wrapping_sub start unaligned_start);
               Some (Some n, t, m)
             }
         })"

definition append_free_block_ptr ::
  "cfg \<Rightarrow> ('f::len word, 's::len word) tlsf \<Rightarrow> mem \<Rightarrow> usize \<times> usize \<Rightarrow>
   (usize \<times> ('f word, 's word) tlsf \<times> mem) option" where
  "append_free_block_ptr c t m blk = (
     let original_start = nonnull_slice_start blk;
         len = nonnull_slice_len blk AND not_usize (GRANULARITY - 1)
     in if MAX_POOL_SIZE c \<noteq> None then do {
          (r, t, m) \<leftarrow> insert_free_block_ptr_aligned c t m (nonnull_slice_from_raw_parts original_start len);
          Some (case r of None \<Rightarrow> 0 | Some n \<Rightarrow> n, t, m)
        }
        else if len = 0 then Some (0, t, m)
        else do {
          let end_addr = wrapping_add original_start len;
          let start = wrapping_sub original_start GRANULARITY;
          sentinel_size \<leftarrow> read_size m start;
          debug_assert (sentinel_size = GRANULARITY OR SIZE_USED OR SIZE_SENTINEL);
          prev \<leftarrow> read_prev_phys m start;
          penultimate_block \<leftarrow> prev;
          pen_size \<leftarrow> read_size m penultimate_block;
          (start, last_nonassimilated_block, t, m) \<leftarrow>
            (if pen_size AND SIZE_USED = 0 then do {
               debug_assert (pen_size = pen_size AND SIZE_SIZE_MASK);
               (t, m) \<leftarrow> unlink_free_block c t m penultimate_block pen_size;
               pp \<leftarrow> read_prev_phys m penultimate_block;
               Some (penultimate_block, pp, t, m)
             }
             else Some (start, Some penultimate_block, t, m));
          (r, t, m) \<leftarrow> insert_free_block_ptr_aligned c t m (nonnull_slice_from_raw_parts start (wrapping_sub end_addr start));
          pool_len \<leftarrow> r;
          m \<leftarrow> write_prev_phys m start last_nonassimilated_block;
          n \<leftarrow> sub_usize pool_len (wrapping_sub original_start start);
          Some (n, t, m)
        })"

definition insert_free_block ::
  "cfg \<Rightarrow> ('f::len word, 's::len word) tlsf \<Rightarrow> mem \<Rightarrow> usize \<times> usize \<Rightarrow> (('f word, 's word) tlsf \<times> mem) option" where
  "insert_free_block c t m blk = do {
     (r, t, m) \<leftarrow> insert_free_block_ptr c t m blk;
     Some (t, m)
   }"

declare insert_loop.simps [simp del]

section \<open>Reference\<close>

function add_pools :: "cfg \<Rightarrow> usize \<Rightarrow> usize \<Rightarrow> pool list \<Rightarrow> pool list" where
  "add_pools c cursor sz ps =
     (if sz < 64 then ps
      else add_pools c (cursor + chunk_size c sz) (sz - chunk_size c sz)
        ((cursor, [(chunk_size c sz - 32, Free), (32, Sentinel)]) # ps))"
  by pat_completeness auto
termination
  by (relation "measure (\<lambda>(c, cursor, sz, ps). sz)")
    (use chunk_size_pos in \<open>auto simp: diff_less\<close>)

function left_over :: "cfg \<Rightarrow> usize \<Rightarrow> usize" where
  "left_over c sz = (if sz < 64 then sz else left_over c (sz - chunk_size c sz))"
  by pat_completeness auto
termination
  by (relation "measure (\<lambda>(c, sz). sz)") (use chunk_size_pos in \<open>auto simp: diff_less\<close>)

declare add_pools.simps [simp del] left_over.simps [simp del]

lemma left_over_bounds: "left_over c sz < 64 \<and> left_over c sz \<le> sz"
proof (induction c sz rule: left_over.induct)
  case (1 c sz)
  then show ?case by (auto simp: left_over.simps [of c sz])
qed

section \<open>One new pool\<close>

text \<open>Memory outside the pools may be written: the headers, the lists and the contents of the blocks
  stay.\<close>

definition fresh :: "mem \<Rightarrow> pool list \<Rightarrow> usize \<Rightarrow> usize \<Rightarrow> bool" where
  "fresh m ps s n \<longleftrightarrow> (\<forall>a. s \<le> a \<and> a < s + n \<and> 8 dvd a \<longrightarrow> m a \<noteq> None) \<and>
     (\<forall>p \<in> set ps. pool_range p \<inter> {s ..< s + n} = {})"

lemma entry_in_range:
  assumes "pools_ok c ps" "(b, z, k, q) \<in> set (all_entries ps)"
  shows "\<exists>p \<in> set ps. {b ..< b + z} \<subseteq> pool_range p"
proof -
  obtain s xs where p: "(s, xs) \<in> set ps" "(b, z, k, q) \<in> set (entries None s xs)"
    using all_entries_in_pool [OF assms(2)] by blast
  then have "pool_ok c (s, xs)" using assms(1) by (auto simp: pools_ok_def list_all_iff)
  then have "{b ..< b + z} \<subseteq> pool_range (s, xs)"
    using entries_range [OF p(2) pool_ok_pos, of c s] by (auto simp: pool_range_def)
  with p(1) show ?thesis by blast
qed

lemma protected_in_block: "32 \<le> z \<Longrightarrow> protected (b, z, k, q) \<subseteq> {b ..< b + z}"
  by auto

lemma outside_unchanged:
  assumes ok: "pools_ok c ps" and ch: "changes_only m m' (link_cells (dom (all_frees c ps)) \<union> R)"
    and R: "\<And>p. p \<in> set ps \<Longrightarrow> pool_range p \<inter> R = {}"
    and e: "(b, z, k, q) \<in> set (all_entries ps)" and x: "x \<in> protected (b, z, k, q)"
  shows "m' x = m x"
proof -
  have "x \<notin> link_cells (dom (all_frees c ps))" using links_not_protected [OF ok e] x by blast
  moreover have "x \<notin> R"
    using entry_in_range [OF ok e] protected_in_block [of z b k q] entry_facts [OF ok e] x R by fastforce
  ultimately show ?thesis using ch by (auto simp: changes_only_def)
qed

lemma outside_headers:
  assumes I: "tlsf_inv c t m ps" and ch: "changes_only m m' (link_cells (dom (all_frees c ps)) \<union> R)"
    and R: "\<And>p. p \<in> set ps \<Longrightarrow> pool_range p \<inter> R = {}"
  shows "list_all (hdr m') (all_entries ps)"
proof -
  have "hdr m' (b, z, k, q)" if e: "(b, z, k, q) \<in> set (all_entries ps)" for b z k q
  proof (rule hdr_frame [OF inv_hdr [OF I e]])
    note u = outside_unchanged [OF inv_pools_ok [OF I] ch R e]
    show z: "32 \<le> z" using entry_facts [OF inv_pools_ok [OF I] e] by blast
    show "m' a = m a" if "a \<in> protected (b, z, k, q)" for a by (rule u [OF _ that])
    have "m' (b + 8) = m (b + 8)" by (rule u) (use z in auto)
    then show "m' (b + 8) = Some (of_ptr q)" using inv_hdr [OF I e] by simp
  qed
  then show ?thesis by (auto simp: list_all_iff)
qed

lemma fresh_no_frees:
  assumes ok: "pools_ok c ps" and fr: "fresh m ps s n" and y: "s \<le> y" "y < s + n"
  shows "all_frees c ps y = None"
proof (rule ccontr)
  assume "all_frees c ps y \<noteq> None"
  then obtain zy q where e: "(y, zy, Free, q) \<in> set (all_entries ps)" using all_frees_entry by blast
  then obtain p where p: "p \<in> set ps" "y \<in> pool_range p"
    using entry_in_range [OF ok e] entry_facts [OF ok e] by fastforce
  then have "pool_range p \<inter> {s ..< s + n} = {}" using fr by (simp add: fresh_def)
  with p(2) y show False by (simp add: disjoint_iff)
qed

text \<open>Writing the headers of a free block and of the sentinel behind it, and linking the block into
its free list.\<close>

lemma place_block:
  fixes t :: "('f::len word, 's::len word) tlsf"
  assumes fl: "fl_inv c t m F" and F: "F s = None" and l: "free_class c z = Some l"
    and s: "32 dvd s" "0 < s" and z: "32 dvd z" "32 \<le> z"
    and mp: "\<And>a. s \<le> a \<Longrightarrow> a < s + z + 32 \<Longrightarrow> 8 dvd a \<Longrightarrow> m a \<noteq> None"
  defines "m2 \<equiv> m(s \<mapsto> z, s + 8 \<mapsto> 0, s + z \<mapsto> 35, s + z + 8 \<mapsto> s)"
  obtains t' m' where "link_free_block c t m2 s z = Some (t', m')" and "fl_inv c t' m' (F(s \<mapsto> l))"
    and "changes_only m m' (link_cells (dom F) \<union> {s ..< s + z + 16})"
    and "m' s = Some z" "m' (s + 8) = Some 0" "m' (s + z) = Some 35" "m' (s + z + 8) = Some s"
proof -
  let ?R = "{s ..< s + z + 16}"
  have e: "32 dvd s + z" using s z by simp
  have cells: "m s \<noteq> None" "m (s + 8) \<noteq> None" "m (s + 16) \<noteq> None" "m (s + 24) \<noteq> None"
      "m (s + z) \<noteq> None" "m (s + z + 8) \<noteq> None"
    using mp [of s] mp [of "s + 8"] mp [of "s + 16"] mp [of "s + 24"] mp [of "s + z"] mp [of "s + z + 8"]
      z dvd_32_8 [OF s(1)] dvd_32_8 [OF e] by auto
  have in_R: "s \<in> ?R" "s + 8 \<in> ?R" "s + z \<in> ?R" "s + z + 8 \<in> ?R" using z by auto
  have ch2: "changes_only m m2 ?R"
    unfolding m2_def by (intro changes_only_upd2 changes_only_refl in_R cells)
  have "changes_only m m2 {s, s + 8, s + z, s + z + 8}"
    unfolding m2_def by (intro changes_only_upd2 changes_only_refl insertI1 insertI2 cells)
  then have fl2: "fl_inv c t m2 F"
    by (rule header_writes_frame [OF fl]) (use s(1) e in blast)
  obtain t' m' where link: "link_free_block c t m2 s z = Some (t', m')" "fl_inv c t' m' (F(s \<mapsto> l))"
      "changes_only m2 m' (link_cells (insert s (dom F)))"
      "\<forall>a. 32 dvd a \<longrightarrow> m' a = m2 a \<and> m' (a + 8) = m2 (a + 8)"
  proof (rule fls.link_obtain [OF fl2 l F s])
    show "m2 (s + 16) \<noteq> None" "m2 (s + 24) \<noteq> None" using changes_only_mapped [OF ch2] cells by blast+
  qed
  show thesis
  proof (rule that [OF link(1,2)])
    show "changes_only m m' (link_cells (dom F) \<union> ?R)"
      by (rule changes_only_trans [OF ch2 link(3)]) (use z in auto)
  qed (use link(4) s(1) e z in \<open>simp_all add: m2_def aligned_neq\<close>)
qed

lemma add_pool:
  fixes t :: "('f::len word, 's::len word) tlsf"
  assumes I: "tlsf_inv c t m ps" and s: "32 dvd s" "0 < s" and z: "32 dvd z" "32 \<le> z" "s + z + 32 \<le> USIZE_LIM"
    and mx: "\<And>mx. MAX_POOL_SIZE c = Some mx \<Longrightarrow> z + 32 \<le> mx" and fr: "fresh m ps s (z + 32)"
  defines "m2 \<equiv> m(s \<mapsto> z, s + 8 \<mapsto> 0, s + z \<mapsto> 35, s + z + 8 \<mapsto> s)"
  obtains t' m' where "link_free_block c t m2 s (z) = Some (t', m')"
    and "tlsf_inv c t' m' ((s, [(z, Free), (32, Sentinel)]) # ps)"
    and "changes_only m m' (link_cells (dom (all_frees c ps)) \<union> {s ..< s + (z + 16)})"
proof -
  let ?F = "all_frees c ps" and ?e = "s + z" and ?R = "{s ..< s + (z + 16)}"
  note ok = inv_pools_ok [OF I]
  have fl: "fl_inv c t m ?F" using I by (simp add: tlsf_inv_def)
  have e: "32 dvd ?e" "32 dvd z" "32 \<le> z" using s z by auto
  have mp: "m a \<noteq> None" if "s \<le> a" "a < s + z + 32" "8 dvd a" for a using fr that by (simp add: fresh_def)
  obtain l where l: "free_class c z = Some l"
    by (rule free_class_Some [OF inv_cfg_ok [OF I] e(3,2)]) (use z mx in force)+
  have Fs: "?F s = None" by (rule fresh_no_frees [OF ok fr]) simp_all
  obtain t' m' where link: "link_free_block c t m2 s z = Some (t', m')" "fl_inv c t' m' (?F(s \<mapsto> l))"
      "changes_only m m' (link_cells (dom ?F) \<union> {s ..< s + z + 16})"
      "m' s = Some z" "m' (s + 8) = Some 0" "m' ?e = Some 35" "m' (?e + 8) = Some s"
    unfolding m2_def by (rule place_block [OF fl Fs l s z(1,2) mp])
  have ch: "changes_only m m' (link_cells (dom ?F) \<union> ?R)" using link(3) by (simp only: add.assoc)
  have R': "pool_range p \<inter> {s ..< s + (z + 32)} = {}" if "p \<in> set ps" for p using fr that by (simp add: fresh_def)
  have R: "pool_range p \<inter> ?R = {}" if "p \<in> set ps" for p using R' [OF that] by auto
  have h: "list_all (hdr m') (all_entries ps)" by (rule outside_headers [OF I ch R])
  have pk: "pool_ok c (s, [(z, Free), (32, Sentinel)])"
    using s z mx e by (auto simp: pool_ok_def shape_def blk_ok_def intro!: exI [of _ "[(z, Free)]"])
  have "pools_mapped m' ps" using I ch by (auto simp: tlsf_inv_def pools_mapped_def changes_only_def domIff set_eq_iff)
  moreover have "m' a \<noteq> None" if "s \<le> a" "a < s + (z + 32)" "8 dvd a" for a
    using mp [of a] that changes_only_mapped [OF ch] by (simp add: add.assoc)
  ultimately have mapped: "pools_mapped m' ((s, [(z, Free), (32, Sentinel)]) # ps)"
    by (auto simp: pools_mapped_def pool_range_def)
  have "pools_disjoint ((s, [(z, Free), (32, Sentinel)]) # ps)"
    using I R' by (auto simp: tlsf_inv_def pools_disjoint_def pool_range_def)
  moreover have "list_all (hdr m') (entries None s [(z, Free), (32, Sentinel)])"
    using link(4-7) by (simp add: size_word_def)
  moreover have "all_frees c ((s, [(z, Free), (32, Sentinel)]) # ps) = ?F(s \<mapsto> l)"
    using l by simp
  ultimately have "tlsf_inv c t' m' ((s, [(z, Free), (32, Sentinel)]) # ps)"
    using I pk h link(2) mapped by (simp add: tlsf_inv_def)
  with link(1) ch show thesis by (intro that)
qed

section \<open>The loop\<close>

lemma fresh_sub: "fresh m ps s n \<Longrightarrow> s \<le> s' \<Longrightarrow> s' + n' \<le> s + n \<Longrightarrow> fresh m ps s' n'"
  unfolding fresh_def by (meson Int_iff atLeastLessThan_iff disjoint_iff le_trans less_le_trans)

lemma fresh_changes: "fresh m ps s n \<Longrightarrow> changes_only m m' S \<Longrightarrow> fresh m' ps s n"
  unfolding fresh_def using changes_only_mapped by metis

lemma chunk_facts:
  assumes "cfg_ok c" "32 dvd n" "64 \<le> n"
  shows "32 dvd chunk_size c n" "64 \<le> chunk_size c n" "\<And>mx. MAX_POOL_SIZE c = Some mx \<Longrightarrow> chunk_size c n \<le> mx"
proof -
  have mx: "32 dvd x \<and> 64 \<le> x" if "MAX_POOL_SIZE c = Some x" for x
  proof -
    have x: "x = 2 ^ (5 + FLLEN c)"
      using that by (auto simp: MAX_POOL_SIZE_def Let_def split: if_splits)
    moreover have "(2::nat) ^ 6 \<le> 2 ^ (5 + FLLEN c)"
      using cfg_ok_pos(2) [OF assms(1)] by (intro power_increasing) auto
    ultimately show ?thesis using le_imp_power_dvd [of 5 "5 + FLLEN c" "2::nat"] by simp
  qed
  then show "32 dvd chunk_size c n" "64 \<le> chunk_size c n" "\<And>mx. MAX_POOL_SIZE c = Some mx \<Longrightarrow> chunk_size c n \<le> mx"
    using assms by (auto simp: chunk_size_def min_def split: option.splits)
qed

text \<open>One round of the loop.\<close>

lemma insert_round:
  assumes n: "64 \<le> n" and k: "chunk_size c n = z + 32" and z: "32 dvd z" "32 \<le> z"
    and s: "32 dvd s" "0 < s" and lim: "s + n \<le> USIZE_LIM" and fr: "\<And>a. s \<le> a \<Longrightarrow> a < s + z + 32 \<Longrightarrow> 8 dvd a \<Longrightarrow> m a \<noteq> None"
    and link: "link_free_block c t (m(s \<mapsto> z, s + 8 \<mapsto> 0, s + z \<mapsto> 35, s + z + 8 \<mapsto> s)) s z = Some (t', m')"
  shows "insert_loop c t m s n = insert_loop c t' m' (wrapping_add s (z + 32)) (n - (z + 32))"
proof -
  have e: "32 dvd s + z" using s z by simp
  have kle: "z + 32 \<le> n" using chunk_size_le [of c n] k by simp
  have cells: "m s \<noteq> None" "m (s + 8) \<noteq> None" "m (s + z) \<noteq> None" "m (s + z + 8) \<noteq> None"
    using fr [of s] fr [of "s + 8"] fr [of "s + z"] fr [of "s + z + 8"] z dvd_32_8 [OF s(1)] dvd_32_8 [OF e] by auto
  have steps: "(n < GRANULARITY * 2) = False" "((z + 32) mod GRANULARITY = 0) = True" "sub_usize (z + 32) GRANULARITY = Some z"
    "write_hdr m s \<lparr>bh_size = z, bh_prev_phys_block = None\<rparr> = Some (m(s \<mapsto> z, s + 8 \<mapsto> 0))"
    "next_phys_block (m(s \<mapsto> z, s + 8 \<mapsto> 0)) s = Some (s + z)"
    "write_hdr (m(s \<mapsto> z, s + 8 \<mapsto> 0)) (s + z)
      \<lparr>bh_size = GRANULARITY OR SIZE_USED OR SIZE_SENTINEL, bh_prev_phys_block = Some s\<rparr> =
      Some (m(s \<mapsto> z, s + 8 \<mapsto> 0, s + z \<mapsto> 35, s + z + 8 \<mapsto> s))"
    "(checked_add s (z + 32) \<noteq> None \<or> n = z + 32) = True"
    using n z s cells lim kle
    by (auto simp: sub_usize_def mem_simps next_phys_block_free checked_add_def sentinel_word(1) [simplified])
  show ?thesis by (subst insert_loop.simps) (simp only: k steps link run_simps)
qed

lemma insert_round_ok:
  fixes t :: "('f::len word, 's::len word) tlsf"
  assumes I: "tlsf_inv c t m ps" and s: "32 dvd s" "0 < s" and n: "32 dvd n" "64 \<le> n" "s + n \<le> USIZE_LIM" and fr: "fresh m ps s n"
  obtains z t1 m1 where "chunk_size c n = z + 32" "32 \<le> z"
    and "insert_loop c t m s n = insert_loop c t1 m1 (wrapping_add s (z + 32)) (n - (z + 32))"
    and "tlsf_inv c t1 m1 ((s, [(z, Free), (32, Sentinel)]) # ps)"
    and "changes_only m m1 (link_cells (dom (all_frees c ps)) \<union> {s ..< s + (z + 16)})"
proof -
  note k = chunk_facts [OF inv_cfg_ok [OF I] n(1,2)] and kle = chunk_size_le [of c n]
  obtain z where z: "chunk_size c n = z + 32" using k(2) by (metis le_add_diff_inverse2 add_leD2 numeral_Bit0)
  have zf: "32 dvd z" "32 \<le> z" using k(1,2) by (simp_all add: z)
  obtain t1 m1 where add: "link_free_block c t
        (m(s \<mapsto> z, s + 8 \<mapsto> 0, s + z \<mapsto> 35, s + z + 8 \<mapsto> s)) s z = Some (t1, m1)"
      "tlsf_inv c t1 m1 ((s, [(z, Free), (32, Sentinel)]) # ps)"
      "changes_only m m1 (link_cells (dom (all_frees c ps)) \<union> {s ..< s + (z + 16)})"
  proof (rule add_pool [OF I s zf])
    show "s + z + 32 \<le> USIZE_LIM" using n(3) kle z by linarith
    show "z + 32 \<le> mx" if "MAX_POOL_SIZE c = Some mx" for mx using k(3) [OF that] z by simp
    show "fresh m ps s (z + 32)" using kle z by (intro fresh_sub [OF fr]) auto
  qed
  have mp: "m a \<noteq> None" if "s \<le> a" "a < s + z + 32" "8 dvd a" for a
    using fr that kle z by (simp add: fresh_def)
  show thesis by (rule that [OF z zf(2) insert_round [OF n(2) z zf s n(3) mp add(1)] add(2,3)])
qed

lemma insert_loop_ok:
  fixes t :: "('f::len word, 's::len word) tlsf"
  assumes "tlsf_inv c t m ps" and "n = 0 \<or> 32 dvd s \<and> 0 < s" and "32 dvd n" "s + n \<le> USIZE_LIM" and "fresh m ps s n"
    and "s < USIZE_LIM"
  shows "\<exists>t' m'. insert_loop c t m s n = Some ((s + (n - left_over c n)) mod USIZE_LIM, t', m') \<and>
    tlsf_inv c t' m' (add_pools c s n ps) \<and> changes_only m m' (link_cells (dom (all_frees c ps)) \<union> {s ..< s + (n - left_over c n) - 16})"
  using assms
proof (induction n arbitrary: t m ps s rule: less_induct)
  case (less n)
  show ?case
  proof (cases "n < 64")
    case True
    then show ?thesis using less.prems
      by (simp add: insert_loop.simps [of c t m s] left_over.simps [of c n] add_pools.simps [of c s])
  next
    case False
    let ?k = "chunk_size c n"
    have n: "64 \<le> n" and s: "32 dvd s" "0 < s" using False less.prems(2) by auto
    note k = chunk_facts [OF inv_cfg_ok [OF less.prems(1)] less.prems(3) n] and kle = chunk_size_le [of c n]
    obtain z t1 m1 where z: "?k = z + 32" "32 \<le> z"
      and ev: "insert_loop c t m s n = insert_loop c t1 m1 (wrapping_add s ?k) (n - ?k)"
      and add: "tlsf_inv c t1 m1 ((s, [(z, Free), (32, Sentinel)]) # ps)"
        "changes_only m m1 (link_cells (dom (all_frees c ps)) \<union> {s ..< s + (z + 16)})"
      by (rule insert_round_ok [OF less.prems(1) s less.prems(3) n less.prems(4,5)]) metis
    let ?ps = "(s, [(z, Free), (32, Sentinel)]) # ps" and ?S = "link_cells (dom (all_frees c ps)) \<union> {s ..< s + (n - left_over c n) - 16}"
    have ref: "add_pools c s n ps = add_pools c (s + ?k) (n - ?k) ?ps" "left_over c n = left_over c (n - ?k)"
      using n z by (simp_all add: add_pools.simps [of c s n] left_over.simps [of c n])
    have "?k \<le> n - left_over c n" using ref(2) kle left_over_bounds [of c "n - ?k"] by linarith
    then have ch1: "changes_only m m1 ?S" using add(2) by (rule_tac changes_only_mono) (use z in auto)
    show ?thesis
    proof (cases "n = ?k")
      case True
      then show ?thesis using ev ref add(1) ch1 less.prems(4)
        by (simp add: insert_loop.simps [of c t1 m1] add_pools.simps [of c _ 0] left_over.simps [of c 0] wrapping_add_def)
    next
      case False
      have lt: "s + ?k < USIZE_LIM" using False kle less.prems(4) by linarith
      have "fresh m1 ps (s + ?k) (n - ?k)"
        using kle by (intro fresh_sub [OF fresh_changes [OF less.prems(5) ch1]]) auto
      then have "fresh m1 ?ps (s + ?k) (n - ?k)" using z by (auto simp: fresh_def pool_range_def)
      then obtain t' m' where r: "insert_loop c t1 m1 (s + ?k) (n - ?k) =
            Some ((s + ?k + (n - ?k - left_over c (n - ?k))) mod USIZE_LIM, t', m')"
          "tlsf_inv c t' m' (add_pools c (s + ?k) (n - ?k) ?ps)"
          "changes_only m1 m' (link_cells (dom (all_frees c ?ps)) \<union> {s + ?k ..< s + ?k + (n - ?k - left_over c (n - ?k)) - 16})"
        using less.IH [of "n - ?k" t1 m1 ?ps "s + ?k"] add(1) less.prems(3,4) k s kle lt n
        by (auto simp: dvd_diff_nat)
      have "dom (all_frees c ?ps) \<subseteq> insert s (dom (all_frees c ps))"
        by (auto split: option.splits)
      then have "link_cells (dom (all_frees c ?ps)) \<subseteq> link_cells (insert s (dom (all_frees c ps)))"
        by (rule link_cells_mono)
      moreover have eq: "s + ?k + (n - ?k - left_over c (n - ?k)) = s + (n - left_over c n)"
        using kle left_over_bounds [of c "n - ?k"] ref(2) by linarith
      moreover have "{s + 16, s + 24} \<subseteq> ?S" using \<open>?k \<le> n - left_over c n\<close> z by auto
      ultimately have "changes_only m m' ?S"
        by (intro changes_only_trans [OF ch1 r(3)]) auto
      then show ?thesis
        unfolding ev ref(1) wrapping_add_exact [OF lt] using r(1) [unfolded eq] r(2) by blast
    qed
  qed
qed

section \<open>Insertion\<close>

lemma wrapping_sub_wrapped:
  assumes "0 < s" "s + u \<le> USIZE_LIM"
  shows "wrapping_sub ((s + u) mod USIZE_LIM) s = u"
proof (cases "s + u = USIZE_LIM")
  case True
  then have "USIZE_LIM - s = u" "u < USIZE_LIM" using assms(1) by linarith+
  with True show ?thesis by (simp add: wrapping_sub_def)
next
  case False
  then have "s + u < USIZE_LIM" using assms by simp
  then show ?thesis by (simp add: wrapping_sub_exact)
qed

lemma insert_aligned_ok:
  fixes t :: "('f::len word, 's::len word) tlsf"
  assumes "tlsf_inv c t m ps" and s: "32 dvd s" "0 < s" and n: "32 dvd n" "s + n \<le> USIZE_LIM" "s < USIZE_LIM"
    and "fresh m ps s n"
  obtains t' m' where "insert_free_block_ptr_aligned c t m (s, n) = Some (to_ptr (n - left_over c n), t', m')"
    and "tlsf_inv c t' m' (add_pools c s n ps)"
    and "changes_only m m' (link_cells (dom (all_frees c ps)) \<union> {s ..< s + (n - left_over c n) - 16})"
proof -
  obtain t' m' where r: "insert_loop c t m s n = Some ((s + (n - left_over c n)) mod USIZE_LIM, t', m')"
      "tlsf_inv c t' m' (add_pools c s n ps)"
      "changes_only m m' (link_cells (dom (all_frees c ps)) \<union> {s ..< s + (n - left_over c n) - 16})"
    using insert_loop_ok [OF assms(1) disjI2 n(1,2) assms(7) n(3)] s by blast
  moreover have "wrapping_sub ((s + (n - left_over c n)) mod USIZE_LIM) s = n - left_over c n"
    using s(2) n(2) by (intro wrapping_sub_wrapped) linarith+
  ultimately show thesis using that [of t' m'] by (simp add: insert_free_block_ptr_aligned_def)
qed

lemma aligned_start:
  assumes "ptr + 31 < USIZE_LIM"
  shows "wrapping_add ptr (GRANULARITY - 1) AND not_usize (GRANULARITY - 1) = round_up 32 ptr"
    and "wrapping_sub (round_up 32 ptr) ptr = round_up 32 ptr - ptr"
proof -
  show "wrapping_add ptr (GRANULARITY - 1) AND not_usize (GRANULARITY - 1) = round_up 32 ptr"
    using and_not_31_round_up [OF assms] by (simp add: wrapping_add_exact assms)
  have "ptr \<le> round_up 32 ptr" "round_up 32 ptr < USIZE_LIM" using round_up_32 [of ptr] assms by linarith+
  then show "wrapping_sub (round_up 32 ptr) ptr = round_up 32 ptr - ptr" by (rule wrapping_sub_exact)
qed

text \<open>Rounding up wraps around when the block lies in the last granule of the address space.\<close>

lemma wrapped_start:
  assumes "ptr < USIZE_LIM" "USIZE_LIM \<le> ptr + 31"
  shows "wrapping_add ptr (GRANULARITY - 1) AND not_usize (GRANULARITY - 1) = 0"
    and "wrapping_sub 0 ptr = USIZE_LIM - ptr"
proof -
  have small: "ptr + 31 - USIZE_LIM < 32" "(32::nat) < USIZE_LIM"
    using assms(1) by linarith (simp add: USIZE_LIM_def)
  then have "wrapping_add ptr 31 = ptr + 31 - USIZE_LIM"
    unfolding wrapping_add_def using assms(2) by (simp only: le_mod_geq mod_less less_trans)
  with small show "wrapping_add ptr (GRANULARITY - 1) AND not_usize (GRANULARITY - 1) = 0"
    using and_not_31 [of "ptr + 31 - USIZE_LIM"] by (simp add: less_trans)
  have "(32::nat) < USIZE_LIM" by (simp add: USIZE_LIM_def)
  then have "0 < ptr" using assms by linarith
  then show "wrapping_sub 0 ptr = USIZE_LIM - ptr" using assms(1) by (simp add: wrapping_sub_def)
qed

definition usable_len :: "usize \<times> usize \<Rightarrow> usize" where
  "usable_len blk = (snd blk - (round_up 32 (fst blk) - fst blk)) div 32 * 32"

lemma usable_len_facts:
  assumes "fst blk + snd blk \<le> USIZE_LIM" "round_up 32 (fst blk) - fst blk \<le> snd blk" "0 < fst blk"
  shows "round_up 32 (fst blk) + usable_len blk \<le> fst blk + snd blk" and "32 dvd usable_len blk"
    and "(snd blk - (round_up 32 (fst blk) - fst blk)) AND not_usize (GRANULARITY - 1) = usable_len blk"
    and "64 \<le> snd blk - (round_up 32 (fst blk) - fst blk) \<Longrightarrow> 64 \<le> usable_len blk"
proof -
  let ?x = "snd blk - (round_up 32 (fst blk) - fst blk)"
  have r: "fst blk \<le> round_up 32 (fst blk)" using round_up_32 by simp
  have u: "usable_len blk = ?x - ?x mod 32" by (simp add: usable_len_def minus_mod_eq_div_mult)
  then have "usable_len blk \<le> ?x" by (simp only: diff_le_self)
  then show "round_up 32 (fst blk) + usable_len blk \<le> fst blk + snd blk" using r assms(2) by linarith
  show "32 dvd usable_len blk" by (simp add: usable_len_def)
  show "?x AND not_usize (GRANULARITY - 1) = usable_len blk"
  proof (cases "?x < USIZE_LIM")
    case True
    then show ?thesis using and_not_31 [OF True] u by simp
  next
    case False
    then have "fst blk = 0" "snd blk = USIZE_LIM" using assms by linarith+
    with assms(3) show ?thesis by simp
  qed
  show "64 \<le> usable_len blk" if "64 \<le> ?x"
    using div_le_mono [OF that, of 32] unfolding usable_len_def by simp
qed

lemma insert_small:
  assumes "0 < fst blk" "fst blk < USIZE_LIM" "fst blk + snd blk \<le> USIZE_LIM"
    and "snd blk < (round_up 32 (fst blk) - fst blk) + 64"
  shows "insert_free_block_ptr c t m blk = Some (None, t, m)"
proof (cases "fst blk + 31 < USIZE_LIM")
  case True
  note a = aligned_start [OF True]
  show ?thesis
  proof (cases "checked_sub (snd blk) (round_up 32 (fst blk) - fst blk)")
    case None
    then show ?thesis by (simp only: insert_free_block_ptr_def a run_simps)
  next
    case (Some x)
    then have "(\<not> GRANULARITY * 2 \<le> x) = True" using assms(4) by (auto simp: checked_sub_eq_Some)
    then show ?thesis by (simp only: insert_free_block_ptr_def a Some run_simps)
  qed
next
  case False
  note a = wrapped_start [OF assms(2), OF leI [OF False]]
  show ?thesis
  proof (cases "checked_sub (snd blk) (USIZE_LIM - fst blk)")
    case None
    then show ?thesis by (simp only: insert_free_block_ptr_def a run_simps)
  next
    case (Some x)
    then have "(\<not> GRANULARITY * 2 \<le> x) = True" using assms(2,3) by (auto simp: checked_sub_eq_Some)
    then show ?thesis by (simp only: insert_free_block_ptr_def a Some run_simps)
  qed
qed

lemma insert_large:
  fixes t :: "('f::len word, 's::len word) tlsf"
  assumes I: "tlsf_inv c t m ps" and blk: "0 < fst blk" "fst blk < USIZE_LIM" "fst blk + snd blk \<le> USIZE_LIM"
    and fr: "fresh m ps (fst blk) (snd blk)"
    and large: "(round_up 32 (fst blk) - fst blk) + 64 \<le> snd blk"
  obtains t' m' where "insert_free_block_ptr c t m blk =
      Some (Some (round_up 32 (fst blk) - fst blk + (usable_len blk - left_over c (usable_len blk))), t', m')"
    and "tlsf_inv c t' m' (add_pools c (round_up 32 (fst blk)) (usable_len blk) ps)"
    and "changes_only m m' (link_cells (dom (all_frees c ps)) \<union>
      {round_up 32 (fst blk) ..< round_up 32 (fst blk) + (usable_len blk - left_over c (usable_len blk)) - 16})"
proof -
  let ?s = "round_up 32 (fst blk)" and ?n = "usable_len blk"
  let ?x = "snd blk - (?s - fst blk)"
  have r: "fst blk \<le> ?s" "?s < fst blk + 32" "32 dvd ?s" using round_up_32 by simp_all
  have "?s - fst blk \<le> snd blk" using large by linarith
  note u = usable_len_facts [OF blk(3) this blk(1)]
  have n: "64 \<le> ?n" by (rule u(4)) (use large in linarith)
  have lim: "?s + ?n \<le> USIZE_LIM" "?s < USIZE_LIM" "0 < ?s" using u(1) blk r n by linarith+
  have a31: "fst blk + 31 < USIZE_LIM" using large blk(3) by linarith
  note a = aligned_start [OF a31]
  obtain t' m' where ins: "insert_free_block_ptr_aligned c t m (?s, ?n) = Some (to_ptr (?n - left_over c ?n), t', m')"
      "tlsf_inv c t' m' (add_pools c ?s ?n ps)"
      "changes_only m m' (link_cells (dom (all_frees c ps)) \<union> {?s ..< ?s + (?n - left_over c ?n) - 16})"
    by (rule insert_aligned_ok [OF I r(3) lim(3) u(2) lim(1,2) fresh_sub [OF fr r(1) u(1)]])
  have "left_over c ?n < ?n" using left_over_bounds [of c ?n] n by linarith
  then have p: "to_ptr (?n - left_over c ?n) = Some (?n - left_over c ?n)" by simp
  have steps: "checked_sub (snd blk) (?s - fst blk) = Some ?x" "(\<not> GRANULARITY * 2 \<le> ?x) = False"
    "add_usize (?n - left_over c ?n) (?s - fst blk) = Some (?s - fst blk + (?n - left_over c ?n))"
    using large u(1) blk(1,3) r(1) by (auto simp: checked_sub_def add_usize_def)
  have "insert_free_block_ptr c t m blk = Some (Some (?s - fst blk + (?n - left_over c ?n)), t', m')"
    by (simp only: insert_free_block_ptr_def a steps u(3) ins(1) p run_simps)
  then show thesis using ins(2,3) by (intro that)
qed

section \<open>Extending a pool\<close>

lemma fresh_disjoint: "fresh m ps s n \<Longrightarrow> p \<in> set ps \<Longrightarrow> pool_range p \<inter> {s ..< s + n} = {}"
  by (simp add: fresh_def)

lemma extend_pools_ok:
  assumes ok: "pools_ok c (plug P s xs old [] Q)" and mx: "MAX_POOL_SIZE c = None"
    and fr: "fresh m (plug P s xs old [] Q) (s + extent xs + extent old) len"
    and old: "old \<noteq> []" and xs: "list_all blk_ok xs" "xs = [] \<or> snd (last xs) \<noteq> Free"
    and z: "32 \<le> z" "32 dvd z" "z + 32 = extent old + len" and lim: "s + extent xs + z + 32 \<le> USIZE_LIM"
  shows "pools_ok c (plug P s xs [(z, Free), (32, Sentinel)] [] Q)"
proof -
  let ?ps = "plug P s xs old [] Q"
  have p: "pool_ok c (s, xs @ old)" using ok by (simp add: pools_ok_def plug_def)
  have naf: "no_adjacent_free xs" using p by (auto simp: pool_ok_def shape_def no_adjacent_free_append)
  have "shape (xs @ [(z, Free), (32, Sentinel)])" unfolding shape_def
    using xs z naf by (auto simp: no_adjacent_free_append blk_ok_def intro!: exI [of _ "xs @ [(z, Free)]"])
  then have pk: "pool_ok c (s, xs @ [(z, Free), (32, Sentinel)])"
    using p mx lim by (simp add: pool_ok_def add.assoc)
  have range: "pool_range (s, xs @ [(z, Free), (32, Sentinel)]) =
      pool_range (s, xs @ old) \<union> {s + extent xs + extent old ..< s + extent xs + extent old + len}"
    using z(3) by (auto simp: pool_range_def)
  have dis: "pool_range q \<inter> pool_range (s, xs @ [(z, Free), (32, Sentinel)]) = {}" if "q \<in> set P \<union> set Q" for q
  proof -
    have "pool_range q \<inter> pool_range (s, xs @ old) = {}"
      using pools_disjoint_plug [of P s xs old "[]" Q q] ok that by (simp add: pools_ok_def)
    moreover have "q \<in> set ?ps" using that by (auto simp: plug_def)
    ultimately show ?thesis unfolding range using fresh_disjoint [OF fr] by blast
  qed
  show ?thesis using ok pk dis
    by (auto simp: pools_ok_def plug_def pools_disjoint_def sorted_wrt_append)
qed

lemma extend_mapped:
  assumes old: "pools_mapped m (plug P s xs old [] Q)" and fr: "fresh m (plug P s xs old [] Q) (s + extent xs + extent old) len"
    and z: "extent new = extent old + len" and m': "\<And>a. m' a \<noteq> None \<longleftrightarrow> m a \<noteq> None"
  shows "pools_mapped m' (plug P s xs new [] Q)"
proof -
  have "m a \<noteq> None" if "q \<in> set (plug P s xs new [] Q)" "a \<in> pool_range q" "8 dvd a" for q a
  proof (cases "q \<in> set P \<union> set Q")
    case True
    then have "q \<in> set (plug P s xs old [] Q)" by (auto simp: plug_def)
    then show ?thesis using old that by (auto simp: pools_mapped_def)
  next
    case False
    then have "a \<in> pool_range (s, xs @ old) \<or> s + extent xs + extent old \<le> a \<and> a < s + extent xs + extent old + len"
      using that z by (auto simp: plug_def pool_range_def)
    then show ?thesis using old fr that(3) by (auto simp: pools_mapped_def fresh_def plug_def)
  qed
  then show ?thesis using m' unfolding pools_mapped_def by blast
qed

lemma extend_inv:
  fixes t :: "('f::len word, 's::len word) tlsf"
  assumes I: "tlsf_inv c t m (plug P s xs old [] Q)" and mx: "MAX_POOL_SIZE c = None"
    and fr: "fresh m (plug P s xs old [] Q) (s + extent xs + extent old) len"
    and old: "old \<noteq> []" and xs: "list_all blk_ok xs" "xs = [] \<or> snd (last xs) \<noteq> Free"
    and z: "32 \<le> z" "32 dvd z" "z + 32 = extent old + len" and lim: "d + z + 32 \<le> USIZE_LIM"
    and d: "d = s + extent xs"
    and ch: "changes_only m m' (link_cells (dom (all_frees c (plug P s xs old [] Q))) \<union> {d ..< d + z + 32})"
    and h: "m' d = Some z" "m' (d + 8) = Some (of_ptr (last_addr None s xs))"
      "m' (d + z) = Some 35" "m' (d + z + 8) = Some d"
    and fl: "fl_inv c t' m' (\<lambda>y. if d \<le> y \<and> y < d + z + 32 then if y = d then free_class c z else None
      else all_frees c (plug P s xs old [] Q) y)"
  shows "tlsf_inv c t' m' (plug P s xs [(z, Free), (32, Sentinel)] [] Q)"
proof -
  let ?ps = "plug P s xs old [] Q" and ?ps' = "plug P s xs [(z, Free), (32, Sentinel)] [] Q"
  note ok = inv_pools_ok [OF I]
  have ok': "pools_ok c ?ps'" by (rule extend_pools_ok [OF ok mx fr old xs z lim [unfolded d]])
  have keep: "hdr m' (b, y, k, q)" if e: "(b, y, k, q) \<in> set (all_entries P @ entries None s xs @ all_entries Q)" for b y k q
  proof -
    have e1: "(b, y, k, q) \<in> set (all_entries ?ps)" using e by (auto simp: all_entries_plug)
    note f = entry_facts [OF ok e1]
    have "b + y \<le> s + extent xs \<or> s + extent xs + extent [(z, Free), (32, Sentinel)] \<le> b"
      by (rule plug_outside [OF ok', of b y k q None]) (use e in auto)
    then have out: "b + y \<le> d \<or> d + z + 32 \<le> b" by (auto simp: d)
    have u: "m' a = m a" if a: "a \<in> protected (b, y, k, q)" for a
    proof -
      have "a \<notin> link_cells (dom (all_frees c ?ps))" using links_not_protected [OF ok e1] a by blast
      moreover have "b \<le> a" "a < b + y" using a f by (auto split: if_splits)
      ultimately show ?thesis using ch out by (auto simp: changes_only_def)
    qed
    have "m' (b + 8) = m (b + 8)" by (rule u) (use f in auto)
    then show ?thesis using inv_hdr [OF I e1] f u by (intro hdr_frame [OF inv_hdr [OF I e1]]) auto
  qed
  have kept: "list_all (hdr m') (all_entries P @ entries None s xs @ all_entries Q)"
    unfolding list_all_iff using keep by (metis prod_cases4)
  have "list_all (hdr m') (entries (last_addr None s xs) d [(z, Free), (32, Sentinel)])"
    using h by (simp add: size_word_def)
  then have "list_all (hdr m') (all_entries ?ps')"
    using kept by (simp add: all_entries_plug d)
  moreover have "pools_mapped m' ?ps'"
    by (rule extend_mapped [OF _ fr _ changes_only_mapped [OF ch]]) (use I z(3) in \<open>simp_all add: tlsf_inv_def\<close>)
  moreover have "all_frees c ?ps' = (\<lambda>y. if d \<le> y \<and> y < d + z + 32 then if y = d then free_class c z else None
      else all_frees c ?ps y)"
    using z(3) by (auto simp: fun_eq_iff plug_frees [OF ok] plug_frees [OF ok'] d add.assoc split: option.splits)
  ultimately show ?thesis using ok' fl by (simp add: tlsf_inv_def pools_ok_def)
qed

text \<open>The one round of the loop when the pool size is not bounded.\<close>

lemma insert_aligned_unbounded:
  assumes mx: "MAX_POOL_SIZE c = None" and d: "32 dvd d" "0 < d" and z: "32 dvd z" "32 \<le> z" "d + z + 32 \<le> USIZE_LIM"
    and mp: "\<And>a. d \<le> a \<Longrightarrow> a < d + z + 32 \<Longrightarrow> 8 dvd a \<Longrightarrow> m a \<noteq> None"
    and link: "link_free_block c t (m(d \<mapsto> z, d + 8 \<mapsto> 0, d + z \<mapsto> 35, d + z + 8 \<mapsto> d)) d z = Some (t', m')"
  shows "insert_free_block_ptr_aligned c t m (d, z + 32) = Some (Some (z + 32), t', m')"
proof -
  have k: "chunk_size c (z + 32) = z + 32" by (simp add: chunk_size_def mx)
  have "insert_loop c t m d (z + 32) = insert_loop c t' m' (wrapping_add d (z + 32)) (z + 32 - (z + 32))"
    by (rule insert_round [OF _ k z(1,2) d _ mp link]) (use z in auto)
  also have "\<dots> = Some ((d + (z + 32)) mod USIZE_LIM, t', m')"
    by (simp add: insert_loop.simps wrapping_add_def)
  finally show ?thesis using wrapping_sub_wrapped [of d "z + 32"] d z
    by (simp add: insert_free_block_ptr_aligned_def add.assoc)
qed

lemma append_new_block:
  fixes t1 :: "('f::len word, 's::len word) tlsf"
  assumes I: "tlsf_inv c t m (plug P s xs old [] Q)" and mx: "MAX_POOL_SIZE c = None"
    and fr: "fresh m (plug P s xs old [] Q) (s + extent xs + extent old) len" and len: "32 dvd len"
    and old: "old \<noteq> []" and xs: "list_all blk_ok xs" "xs = [] \<or> snd (last xs) \<noteq> Free"
    and z: "32 \<le> z" "z + 32 = extent old + len" and lim: "d + z + 32 \<le> USIZE_LIM" and d: "d = s + extent xs"
    and fl: "fl_inv c t1 m1 (\<lambda>y. if d \<le> y \<and> y < d + extent old then None else all_frees c (plug P s xs old [] Q) y)"
    and ch: "changes_only m m1 (link_cells (dom (all_frees c (plug P s xs old [] Q))))"
  obtains t' m' where "insert_free_block_ptr_aligned c t1 m1 (d, z + 32) = Some (Some (z + 32), t', m')"
    and "write_prev_phys m' d (last_addr None s xs) = Some (m'(d + 8 \<mapsto> of_ptr (last_addr None s xs)))"
    and "tlsf_inv c t' (m'(d + 8 \<mapsto> of_ptr (last_addr None s xs))) (plug P s xs [(z, Free), (32, Sentinel)] [] Q)"
    and "changes_only m (m'(d + 8 \<mapsto> of_ptr (last_addr None s xs)))
      (link_cells (dom (all_frees c (plug P s xs old [] Q))) \<union> {d ..< d + z + 16})"
proof -
  let ?ps = "plug P s xs old [] Q"
  let ?F = "all_frees c ?ps" and ?R = "{d ..< d + z + 16}"
  let ?H = "\<lambda>y. if d \<le> y \<and> y < d + extent old then None else ?F y"
  let ?m2 = "m1(d \<mapsto> z, d + 8 \<mapsto> 0, d + z \<mapsto> 35, d + z + 8 \<mapsto> d)"
  note ok = inv_pools_ok [OF I]
  have p: "pool_ok c (s, xs @ old)" using ok by (simp add: pools_ok_def plug_def)
  have db: "32 dvd d" "0 < d" using run_start [OF ok old] d by simp_all
  have "32 dvd extent old" using pool_ok_dvd [OF p] by (intro extent_dvd) auto
  then have "32 dvd z + 32" using len z(2) by simp
  then have zd: "32 dvd z" by (simp add: dvd_add_left_iff)
  have e: "32 dvd d + z" using db zd by simp
  have mp: "m a \<noteq> None" if "d \<le> a" "a < d + z + 32" "8 dvd a" for a
  proof (cases "a < d + extent old")
    case True
    then show ?thesis using run_mapped [OF I, of a] that d by simp
  next
    case False
    then show ?thesis using fr that z(2) d by (auto simp: fresh_def)
  qed
  have mp1: "m1 a \<noteq> None" if "d \<le> a" "a < d + z + 32" "8 dvd a" for a
    using mp [OF that] changes_only_mapped [OF ch] by blast
  have Fnew: "?F y = None" if "d + extent old \<le> y" "y < d + z + 32" for y
    by (rule fresh_no_frees [OF ok fr]) (use that z(2) d in linarith)+
  have zlt: "z < USIZE_LIM" using lim db by linarith
  obtain l where l: "free_class c z = Some l"
    by (rule free_class_Some [OF inv_cfg_ok [OF I] z(1) zd zlt]) (simp_all add: mx)
  have Hd: "?H d = None" using Fnew [of d] z by auto
  obtain t' m' where link: "link_free_block c t1 ?m2 d z = Some (t', m')" "fl_inv c t' m' (?H(d \<mapsto> l))"
      "changes_only m1 m' (link_cells (dom ?H) \<union> ?R)"
      "m' d = Some z" "m' (d + 8) = Some 0" "m' (d + z) = Some 35" "m' (d + z + 8) = Some d"
    by (rule place_block [OF fl Hd l db zd z(1) mp1])
  have "dom ?H \<subseteq> dom ?F" by (auto split: if_splits)
  from link_cells_mono [OF this] have ch3: "changes_only m m' (link_cells (dom ?F) \<union> ?R)"
    by (intro changes_only_trans [OF ch link(3)]) blast+
  let ?M = "m'(d + 8 \<mapsto> of_ptr (last_addr None s xs))"
  have m'8: "m' (d + 8) \<noteq> None" by (simp add: link(5))
  then have "m (d + 8) \<noteq> None" using changes_only_mapped [OF ch3] by blast
  then have ch4: "changes_only m ?M (link_cells (dom ?F) \<union> ?R)"
    by (rule changes_only_upd2 [OF ch3, rotated]) simp
  have "changes_only m' ?M {d + 8}" by (rule changes_only_upd) (simp_all add: m'8)
  then have flM: "fl_inv c t' ?M (?H(d \<mapsto> l))"
    by (rule header_writes_frame [OF link(2)]) (use db(1) in blast)
  have eqF: "?H(d \<mapsto> l) = (\<lambda>y. if d \<le> y \<and> y < d + z + 32 then if y = d then free_class c z else None else ?F y)"
    using l Fnew z by (auto simp: fun_eq_iff)
  have h: "?M d = Some z" "?M (d + 8) = Some (of_ptr (last_addr None s xs))" "?M (d + z) = Some 35" "?M (d + z + 8) = Some d"
    using link(4-7) db e z(1) by (simp_all add: aligned_neq)
  show thesis
  proof (rule that)
    show "insert_free_block_ptr_aligned c t1 m1 (d, z + 32) = Some (Some (z + 32), t', m')"
      by (rule insert_aligned_unbounded [OF mx db zd z(1) lim mp1 link(1)])
    show "write_prev_phys m' d (last_addr None s xs) = Some ?M" using db m'8 by (simp add: mem_simps)
    show "tlsf_inv c t' ?M (plug P s xs [(z, Free), (32, Sentinel)] [] Q)"
      by (rule extend_inv [OF I mx fr old xs z(1) zd z(2) lim d changes_only_mono [OF ch4] h flM [unfolded eqF]]) auto
  qed (rule ch4)
qed

definition kept_blocks :: "blk list \<Rightarrow> blk list" where
  \<comment> \<open>the blocks of a pool that an extension leaves alone\<close>
  "kept_blocks bs = (let us = butlast bs in if snd (last us) = Free then butlast us else us)"

definition grow_tail :: "blk list \<Rightarrow> usize \<Rightarrow> blk list" where
  \<comment> \<open>the blocks of a pool extended by \<open>len\<close> bytes: the sentinel, and the free block before it if
    there is one, become part of the new free block\<close>
  "grow_tail bs len = (let us = butlast bs in
     if snd (last us) = Free then butlast us @ [(fst (last us) + len, Free), (32, Sentinel)]
     else us @ [(len, Free), (32, Sentinel)])"

lemma sentinel_entry:
  assumes "pools_ok c (P @ (s, xs @ [(z, k), (32, Sentinel)]) # Q)"
  shows "(s + extent xs, z, k, last_addr None s xs) \<in> set (all_entries (P @ (s, xs @ [(z, k), (32, Sentinel)]) # Q))"
    and "(s + extent xs + z, 32, Sentinel, Some (s + extent xs)) \<in> set (all_entries (P @ (s, xs @ [(z, k), (32, Sentinel)]) # Q))"
  by simp_all

text \<open>What the append reads before it decides which blocks to merge: the sentinel right before the
new block, and the block before the sentinel.\<close>

lemma append_reads:
  fixes t :: "('f::len word, 's::len word) tlsf"
  assumes I: "tlsf_inv c t m (P @ (s, xs @ [(zp, kp), (32, Sentinel)]) # Q)" and mx: "MAX_POOL_SIZE c = None"
    and st: "fst blk = s + extent xs + zp + 32" and blk: "fst blk + snd blk \<le> USIZE_LIM" "32 \<le> snd blk"
    and len: "len = snd blk div 32 * 32"
  shows "32 dvd len" "len \<le> snd blk" "32 \<le> len" "fst blk + len \<le> USIZE_LIM"
    and "snd blk AND not_usize (GRANULARITY - 1) = len" "(MAX_POOL_SIZE c \<noteq> None) = False" "(len = 0) = False"
    and "wrapping_sub (fst blk) GRANULARITY = s + extent xs + zp" "read_size m (s + extent xs + zp) = Some 35"
    and "((35::nat) = GRANULARITY OR SIZE_USED OR SIZE_SENTINEL) = True"
    and "read_prev_phys m (s + extent xs + zp) = Some (Some (s + extent xs))" "read_size m (s + extent xs) = Some (size_word zp kp)"
    and "wrapping_sub (wrapping_add (fst blk) len) (s + extent xs) = zp + len + 32"
    and "wrapping_sub (wrapping_add (fst blk) len) (s + extent xs + zp) = len + 32"
    and "wrapping_sub (fst blk) (s + extent xs) = zp + 32" "wrapping_sub (fst blk) (s + extent xs + zp) = 32"
proof -
  let ?b = "s + extent xs"
  note ok = inv_pools_ok [OF I]
  note e = sentinel_entry [OF ok]
  note f = entry_facts [OF ok e(1)] and fs = entry_facts [OF ok e(2)]
  have h: "m ?b = Some (size_word zp kp)" "m (?b + zp) = Some 35" "m (?b + zp + 8) = Some ?b"
    using inv_hdr [OF I e(1)] inv_hdr [OF I e(2)] by (simp_all add: size_word_def)
  show l: "32 dvd len" "len \<le> snd blk" "32 \<le> len" using blk unfolding len by auto
  have lt: "snd blk < USIZE_LIM" using blk(1) st f by simp
  show lim: "fst blk + len \<le> USIZE_LIM" using blk(1) l(2) by linarith
  have st': "fst blk < USIZE_LIM" using blk by linarith
  have al: "32 dvd ?b" "32 dvd ?b + zp" "?b + zp < USIZE_LIM" using f fs by auto
  show "snd blk AND not_usize (GRANULARITY - 1) = len" "(MAX_POOL_SIZE c \<noteq> None) = False" "(len = 0) = False"
    "wrapping_sub (fst blk) GRANULARITY = ?b + zp" "read_size m (?b + zp) = Some 35"
    "((35::nat) = GRANULARITY OR SIZE_USED OR SIZE_SENTINEL) = True"
    "read_prev_phys m (?b + zp) = Some (Some ?b)" "read_size m ?b = Some (size_word zp kp)"
    using l mx st' st h f fs al and_not_31 [OF lt]
    by (auto simp: wrapping_sub_exact mem_simps len minus_mod_eq_div_mult sentinel_word(1) [simplified] simp del: One_nat_def)
  have wadd: "wrapping_add (fst blk) len = (?b + (zp + 32 + len)) mod USIZE_LIM" "wrapping_add (fst blk) len = (?b + zp + (len + 32)) mod USIZE_LIM"
    by (simp_all add: wrapping_add_def st algebra_simps)
  show "wrapping_sub (wrapping_add (fst blk) len) ?b = zp + len + 32"
    unfolding wadd(1) using wrapping_sub_wrapped [of ?b "zp + 32 + len"] lim st f by simp
  show "wrapping_sub (wrapping_add (fst blk) len) (?b + zp) = len + 32"
    unfolding wadd(2) using wrapping_sub_wrapped [of "?b + zp" "len + 32"] lim st f by simp
  show "wrapping_sub (fst blk) ?b = zp + 32" "wrapping_sub (fst blk) (?b + zp) = 32"
    using st st' by (auto simp: wrapping_sub_exact)
qed

lemma append_after_free:
  fixes t :: "('f::len word, 's::len word) tlsf"
  assumes I: "tlsf_inv c t m ps" and ps: "ps = P @ (s, xs @ [(zp, Free), (32, Sentinel)]) # Q" and mx: "MAX_POOL_SIZE c = None"
    and st: "fst blk = s + extent xs + zp + 32" and blk: "fst blk + snd blk \<le> USIZE_LIM" "32 \<le> snd blk"
    and fr: "fresh m ps (fst blk) (snd blk)" and len: "len = snd blk div 32 * 32"
    and xk: "list_all blk_ok xs" "xs = [] \<or> snd (last xs) \<noteq> Free"
  obtains t' m' where "append_free_block_ptr c t m blk = Some (len, t', m')"
    and "tlsf_inv c t' m' (P @ (s, xs @ [(zp + len, Free), (32, Sentinel)]) # Q)"
    and "changes_only m m' (link_cells (dom (all_frees c ps)) \<union> {s + extent xs ..< fst blk + len - 16})"
proof -
  let ?b = "s + extent xs" and ?pp = "last_addr None s xs" and ?ps = "plug P s xs [(zp, Free), (32, Sentinel)] [] Q"
  note ok = inv_pools_ok [OF I]
  note reads = append_reads [OF I [unfolded ps] mx st blk len]
  note e = sentinel_entry(1) [OF ok [unfolded ps], folded ps]
  note f = entry_facts [OF ok e]
  have pl: "ps = ?ps" by (simp add: ps plug_def)
  have h: "m (?b + 8) = Some (of_ptr ?pp)" using inv_hdr [OF I e] by simp
  have p: "pool_ok c (s, xs @ [(zp, Free), (32, Sentinel)])" using ok by (simp add: pools_ok_def ps)
  have pp: "?pp \<noteq> Some 0" using last_addr_Some [of xs None s] p by (cases "xs = []") (auto simp: pool_ok_def)
  obtain l where l: "free_class c zp = Some l" "all_frees c ps ?b = Some l" by (rule free_entry_class [OF I e])
  have fl: "fl_inv c t m (all_frees c ps)" using I by (simp add: tlsf_inv_def)
  obtain t1 m1 where un: "unlink_free_block c t m ?b zp = Some (t1, m1)" "fl_inv c t1 m1 ((all_frees c ps)(?b := None))"
      "changes_only m m1 (link_cells (dom (all_frees c ps)))" "\<forall>a. 32 dvd a \<longrightarrow> m1 a = m a \<and> m1 (a + 8) = m (a + 8)"
    by (rule fls.unlink_obtain [OF fl l])
  have eqF: "(all_frees c ps)(?b := None) = (\<lambda>y. if ?b \<le> y \<and> y < ?b + extent [(zp, Free), (32, Sentinel)] then None else all_frees c ?ps y)"
    using plug_frees [OF ok [unfolded pl]] f l(1) by (auto simp: fun_eq_iff pl)
  have fr': "fresh m ps (fst blk) len" using reads(2) by (intro fresh_sub [OF fr]) simp_all
  obtain t' m' where new: "insert_free_block_ptr_aligned c t1 m1 (?b, zp + len + 32) = Some (Some (zp + len + 32), t', m')"
      "write_prev_phys m' ?b ?pp = Some (m'(?b + 8 \<mapsto> of_ptr ?pp))"
      "tlsf_inv c t' (m'(?b + 8 \<mapsto> of_ptr ?pp)) (plug P s xs [(zp + len, Free), (32, Sentinel)] [] Q)"
      "changes_only m (m'(?b + 8 \<mapsto> of_ptr ?pp)) (link_cells (dom (all_frees c ps)) \<union> {?b ..< ?b + (zp + len) + 16})"
    unfolding pl
    by (rule append_new_block [OF I [unfolded pl] mx _ reads(1) _ xk _ _ _ refl un(2) [unfolded eqF] un(3) [unfolded pl]])
      (use fr' f reads(4) st in \<open>auto simp: pl add.assoc\<close>)
  have al: "32 dvd ?b" "32 dvd ?b + zp" "?b + zp < USIZE_LIM"
    using f entry_facts [OF ok sentinel_entry(2) [OF ok [unfolded ps], folded ps]] by auto
  have k: "size_word zp Free = zp" "(zp AND SIZE_USED = 0) = True" "(zp = zp AND SIZE_SIZE_MASK) = True"
      "read_prev_phys m1 ?b = Some ?pp" "sub_usize (zp + len + 32) (zp + 32) = Some len"
    using f un(4) h pp al by (auto simp: size_word_def mem_simps sub_usize_def)
  have "append_free_block_ptr c t m blk = Some (len, t', m'(?b + 8 \<mapsto> of_ptr ?pp))"
    by (simp only: append_free_block_ptr_def reads(5-) k un(1) new(1,2) run_simps)
  moreover have "?b + (zp + len) + 16 = fst blk + len - 16" using st by linarith
  ultimately show thesis using new(3,4) by (intro that) (simp_all add: plug_def)
qed

lemma append_after_used:
  fixes t :: "('f::len word, 's::len word) tlsf"
  assumes I: "tlsf_inv c t m ps" and ps: "ps = P @ (s, xs @ [(zp, kp), (32, Sentinel)]) # Q" and mx: "MAX_POOL_SIZE c = None"
    and st: "fst blk = s + extent xs + zp + 32" and blk: "fst blk + snd blk \<le> USIZE_LIM" "32 \<le> snd blk"
    and fr: "fresh m ps (fst blk) (snd blk)" and len: "len = snd blk div 32 * 32"
    and kp: "kp \<noteq> Free" and xk: "list_all blk_ok (xs @ [(zp, kp)])"
  obtains t' m' where "append_free_block_ptr c t m blk = Some (len, t', m')"
    and "tlsf_inv c t' m' (P @ (s, xs @ [(zp, kp), (len, Free), (32, Sentinel)]) # Q)"
    and "changes_only m m' (link_cells (dom (all_frees c ps)) \<union> {s + extent xs + zp ..< fst blk + len - 16})"
proof -
  let ?b = "s + extent xs" and ?xs = "xs @ [(zp, kp)]"
  note ok = inv_pools_ok [OF I]
  note reads = append_reads [OF I [unfolded ps] mx st blk len]
  note f = entry_facts [OF ok sentinel_entry(1) [OF ok [unfolded ps], folded ps]]
  have pl: "ps = plug P s ?xs [(32, Sentinel)] [] Q" by (simp add: ps plug_def)
  have eqF: "all_frees c ps = (\<lambda>y. if s + extent ?xs \<le> y \<and> y < s + extent ?xs + extent [(32, Sentinel)] then None else all_frees c ps y)"
    using plug_frees [OF ok [unfolded pl]] by (auto simp: fun_eq_iff pl [symmetric])
  have "fl_inv c t m (all_frees c ps)" using I by (simp add: tlsf_inv_def)
  then have fl: "fl_inv c t m (\<lambda>y. if s + extent ?xs \<le> y \<and> y < s + extent ?xs + extent [(32, Sentinel)] then None
      else all_frees c ps y)"
    by (rule back_subst [of "fl_inv c t m"]) (rule eqF)
  have fr': "fresh m ps (fst blk) len" using reads(2) by (intro fresh_sub [OF fr]) simp_all
  have xl: "?xs = [] \<or> snd (last ?xs) \<noteq> Free" using kp by simp
  obtain t' m' where new: "insert_free_block_ptr_aligned c t m (?b + zp, len + 32) = Some (Some (len + 32), t', m')"
      "write_prev_phys m' (?b + zp) (Some ?b) = Some (m'(?b + zp + 8 \<mapsto> of_ptr (Some ?b)))"
      "tlsf_inv c t' (m'(?b + zp + 8 \<mapsto> of_ptr (Some ?b))) (plug P s ?xs [(len, Free), (32, Sentinel)] [] Q)"
      "changes_only m (m'(?b + zp + 8 \<mapsto> of_ptr (Some ?b))) (link_cells (dom (all_frees c ps)) \<union> {?b + zp ..< ?b + zp + len + 16})"
  proof (rule append_new_block [OF I [unfolded pl] mx _ reads(1) _ xk xl reads(3) _ _ refl fl [unfolded pl]])
  qed (use fr' reads(4) st in \<open>auto simp: pl add.assoc\<close>)
  have k: "(size_word zp kp AND SIZE_USED = 0) = False" "sub_usize (len + 32) 32 = Some len"
    using f kp by (auto simp: mem_simps sub_usize_def)
  have "append_free_block_ptr c t m blk = Some (len, t', m'(?b + zp + 8 \<mapsto> of_ptr (Some ?b)))"
    by (simp only: append_free_block_ptr_def reads(5-) k new(1,2) run_simps)
  moreover have "?b + zp + len + 16 = fst blk + len - 16" using st by simp
  ultimately show thesis using new(3,4) by (intro that) (simp_all add: plug_def add.assoc)
qed

lemma append_unbounded:
  fixes t :: "('f::len word, 's::len word) tlsf"
  assumes I: "tlsf_inv c t m ps" and ps: "ps = P @ (s, bs) # Q" and mx: "MAX_POOL_SIZE c = None"
    and blk: "fst blk = s + extent bs" "fst blk + snd blk \<le> USIZE_LIM" "32 \<le> snd blk"
    and fr: "fresh m ps (fst blk) (snd blk)"
  defines "len \<equiv> snd blk div 32 * 32"
  obtains t' m' where "append_free_block_ptr c t m blk = Some (len, t', m')"
    and "tlsf_inv c t' m' (P @ (s, grow_tail bs len) # Q)"
    and "changes_only m m' (link_cells (dom (all_frees c ps)) \<union> {s + extent (kept_blocks bs) ..< fst blk + len - 16})"
    and "list_all blk_ok (kept_blocks bs)"
proof -
  note ok = inv_pools_ok [OF I]
  have p: "pool_ok c (s, bs)" using ok by (simp add: pools_ok_def ps)
  then obtain us where us: "bs = us @ [(32, Sentinel)]" "us \<noteq> []" "list_all blk_ok us" "no_adjacent_free bs"
    by (auto simp: pool_ok_def shape_def)
  then obtain xs zp kp where xs: "us = xs @ [(zp, kp)]" by (metis rev_exhaust surj_pair)
  have bs: "bs = xs @ [(zp, kp), (32, Sentinel)]" by (simp add: us(1) xs)
  have bl: "butlast bs = xs @ [(zp, kp)]" by (simp only: us(1) xs butlast_snoc)
  have st: "fst blk = s + extent xs + zp + 32" by (simp add: blk(1) bs)
  note I' = I ps [unfolded bs] mx st blk(2,3) fr
  show thesis
  proof (cases "kp = Free")
    case True
    have xk: "list_all blk_ok xs" "xs = [] \<or> snd (last xs) \<noteq> Free"
      using us(3,4) True by (auto simp: xs bs no_adjacent_free_append)
    have eq: "grow_tail bs len = xs @ [(zp + len, Free), (32, Sentinel)]" "kept_blocks bs = xs"
      by (simp_all add: grow_tail_def kept_blocks_def bl True)
    show thesis
      by (rule append_after_free [OF I' [unfolded True] len_def [THEN meta_eq_to_obj_eq] xk])
        (rule that; simp only: eq xk)
  next
    case False
    have xk: "list_all blk_ok (xs @ [(zp, kp)])" using us(3) by (simp add: xs)
    have eq: "grow_tail bs len = xs @ [(zp, kp), (len, Free), (32, Sentinel)]" "kept_blocks bs = xs @ [(zp, kp)]"
      by (simp_all add: grow_tail_def kept_blocks_def bl False)
    show thesis
      by (rule append_after_used [OF I' len_def [THEN meta_eq_to_obj_eq] False xk])
        (rule that; simp add: eq xk [simplified] add.assoc)
  qed
qed

end
