(* ===== verification/Tlsf_Dealloc.thy ===== *)
theory Tlsf_Dealloc
  imports Tlsf_Alloc
begin

text \<open>
  Deallocation and the queries on allocations (crates/rlsf/src/tlsf.rs):
  \<open>used_block_hdr_for_allocation\<close>, its variant for an unknown alignment,
  \<open>deallocate\<close>, \<open>deallocate_unknown_align\<close>, \<open>deallocate_block\<close>,
  \<open>size_of_allocation\<close>, its variant, and \<open>allocation_usable_size\<close>.

  The lemmas show that both header lookups find the block of a live allocation, that the usable size
  is the rest of the block, and that deallocation turns the maximal run of the block and its free
  neighbours into one free block.
\<close>

unbundle bit_operations_syntax

section \<open>Operations\<close>

definition used_block_hdr_for_allocation :: "mem \<Rightarrow> usize \<Rightarrow> usize \<Rightarrow> usize option" where
  "used_block_hdr_for_allocation m ptr al =
     (if GRANULARITY \<le> al then read_pad m ptr else sub_usize ptr (GRANULARITY div 2))"

definition used_block_hdr_for_allocation_unknown_align :: "mem \<Rightarrow> usize \<Rightarrow> usize option" where
  "used_block_hdr_for_allocation_unknown_align m ptr = do {
     let c1_block_hdr_ptr = get_for_allocation ptr;
     let c2_block_hdr = wrapping_sub ptr SIZE_OF_UsedBlockHdr;
     let c2_prev_phys_block_ptr = wrapping_add c2_block_hdr 8;
     debug_assert (c1_block_hdr_ptr = c2_prev_phys_block_ptr);
     prev \<leftarrow> load m c2_prev_phys_block_ptr;
     case to_ptr prev of
       Some block_ptr \<Rightarrow> do {
         sz \<leftarrow> read_size m block_ptr;
         block_end \<leftarrow> add_usize block_ptr sz;
         if block_end < ptr then Some c2_block_hdr else load m c1_block_hdr_ptr
       }
     | None \<Rightarrow> Some c2_block_hdr
   }"

definition deallocate_block ::
  "cfg \<Rightarrow> ('f::len word, 's::len word) tlsf \<Rightarrow> mem \<Rightarrow> usize \<Rightarrow> (('f word, 's word) tlsf \<times> mem) option" where
  "deallocate_block c t m block = do {
     size_and_flags \<leftarrow> read_size m block;
     let sz = size_and_flags AND not_usize SIZE_USED;
     debug_assert (size_and_flags AND SIZE_USED \<noteq> 0);
     next_phys \<leftarrow> next_phys_block m block;
     next_flags \<leftarrow> read_size m next_phys;
     (sz, new_next, t, m) \<leftarrow>
       (if next_flags AND SIZE_USED = 0 then do {
          debug_assert (next_flags AND SIZE_SIZE_MASK = next_flags);
          sz \<leftarrow> add_usize sz next_flags;
          new_next \<leftarrow> next_phys_block m next_phys;
          (t, m) \<leftarrow> unlink_free_block c t m next_phys next_flags;
          Some (sz, new_next, t, m)
        }
        else Some (sz, next_phys, t, m));
     prev \<leftarrow> read_prev_phys m block;
     (block, sz, t, m) \<leftarrow>
       (case prev of
          None \<Rightarrow> Some (block, sz, t, m)
        | Some prev_phys \<Rightarrow> do {
            prev_flags \<leftarrow> read_size m prev_phys;
            if prev_flags AND SIZE_USED = 0 then do {
              debug_assert (prev_flags AND SIZE_SIZE_MASK = prev_flags);
              sz \<leftarrow> add_usize sz prev_flags;
              (t, m) \<leftarrow> unlink_free_block c t m prev_phys prev_flags;
              Some (prev_phys, sz, t, m)
            }
            else Some (block, sz, t, m)
          });
     debug_assert (sz AND SIZE_USED = 0);
     m \<leftarrow> write_size m block sz;
     (t, m) \<leftarrow> link_free_block c t m block sz;
     nn \<leftarrow> next_phys_block m block;
     debug_assert (new_next = nn);
     m \<leftarrow> write_prev_phys m new_next (Some block);
     Some (t, m)
   }"

definition deallocate ::
  "cfg \<Rightarrow> ('f::len word, 's::len word) tlsf \<Rightarrow> mem \<Rightarrow> usize \<Rightarrow> usize \<Rightarrow> (('f word, 's word) tlsf \<times> mem) option" where
  "deallocate c t m ptr al = do {
     block \<leftarrow> used_block_hdr_for_allocation m ptr al;
     deallocate_block c t m block
   }"

definition deallocate_unknown_align ::
  "cfg \<Rightarrow> ('f::len word, 's::len word) tlsf \<Rightarrow> mem \<Rightarrow> usize \<Rightarrow> (('f word, 's word) tlsf \<times> mem) option" where
  "deallocate_unknown_align c t m ptr = do {
     block \<leftarrow> used_block_hdr_for_allocation_unknown_align m ptr;
     deallocate_block c t m block
   }"

definition payload_size :: "mem \<Rightarrow> usize \<Rightarrow> usize \<Rightarrow> usize option" where
  \<comment> \<open>the common tail of \<open>size_of_allocation\<close> and \<open>size_of_allocation_unknown_align\<close>\<close>
  "payload_size m block ptr = do {
     size_and_flags \<leftarrow> read_size m block;
     sz \<leftarrow> sub_usize size_and_flags SIZE_USED;
     debug_assert (sz = size_and_flags AND SIZE_SIZE_MASK);
     block_end \<leftarrow> add_usize block sz;
     sub_usize block_end ptr
   }"

definition size_of_allocation :: "mem \<Rightarrow> usize \<Rightarrow> usize \<Rightarrow> usize option" where
  "size_of_allocation m ptr al = do {
     block \<leftarrow> used_block_hdr_for_allocation m ptr al;
     payload_size m block ptr
   }"

definition size_of_allocation_unknown_align :: "mem \<Rightarrow> usize \<Rightarrow> usize option" where
  "size_of_allocation_unknown_align m ptr = do {
     block \<leftarrow> used_block_hdr_for_allocation_unknown_align m ptr;
     payload_size m block ptr
   }"

definition allocation_usable_size :: "mem \<Rightarrow> usize \<Rightarrow> usize option" where
  "allocation_usable_size m ptr = size_of_allocation_unknown_align m ptr"

section \<open>Header lookup\<close>

lemma used_entry:
  assumes I: "tlsf_inv c t m ps" and e: "(b, z, Used ptr al sz, q) \<in> set (all_entries ps)"
  shows "m b = Some (z + 1)" "m (b + 8) = Some (of_ptr q)" "used_ok m b z ptr al sz"
    and "32 dvd b" "0 < b" "32 dvd z" "32 \<le> z" "b + z + 32 \<le> USIZE_LIM" "8 dvd ptr" "ptr < USIZE_LIM"
    and "b + 16 \<le> ptr" "ptr + sz \<le> b + z"
proof -
  note ok = inv_pools_ok [OF I] and h = inv_hdr [OF I e]
  note f = entry_facts [OF ok e]
  obtain P s xs ys Q where d: "ps = plug P s xs [(z, Used ptr al sz)] ys Q" "b = s + extent xs"
    by (rule all_entries_split [OF e])
  obtain zn where "b + z + zn \<le> USIZE_LIM" "32 \<le> zn"
    using next_entry [OF ok [unfolded d(1)]] f d(2) by (auto simp: blk_ok_def)
  then show lim: "b + z + 32 \<le> USIZE_LIM" by linarith
  show "m b = Some (z + 1)" "m (b + 8) = Some (of_ptr q)" and u: "used_ok m b z ptr al sz"
    using h by (simp_all add: size_word_def)
  show "32 dvd b" "0 < b" "32 dvd z" "32 \<le> z" using f by blast+
  show "b + 16 \<le> ptr" "ptr + sz \<le> b + z" using u by (simp_all add: used_ok_def)
  then show "ptr < USIZE_LIM" using lim by linarith
  show "8 dvd ptr"
  proof (cases "al < 32")
    case True
    then show ?thesis using u dvd_32_8 [of b] f by (auto simp: used_ok_def)
  next
    case False
    then have "32 dvd ptr" using u align_cases(2) [of al] by (meson dvd_trans not_less used_ok_def)
    then show ?thesis by (rule dvd_32_8)
  qed
qed

lemma lookup_known:
  assumes I: "tlsf_inv c t m ps" and e: "(b, z, Used ptr al sz, q) \<in> set (all_entries ps)"
  shows "used_block_hdr_for_allocation m ptr al = Some b"
proof -
  note u = used_entry [OF I e]
  show ?thesis
  proof (cases "al < 32")
    case True
    then show ?thesis using u(3) by (auto simp: used_block_hdr_for_allocation_def used_ok_def sub_usize_def)
  next
    case False
    then show ?thesis using u(3,9,10,11)
      by (auto simp: used_block_hdr_for_allocation_def used_ok_def read_pad_eq)
  qed
qed

lemma prev_entry:
  assumes ok: "pools_ok c ps" and e: "(b, z, k, Some q) \<in> set (all_entries ps)"
  obtains zq kq qq where "(q, zq, kq, qq) \<in> set (all_entries ps)" and "q + zq = b" and "kq \<noteq> Sentinel"
proof -
  obtain P s xs ys Q where d: "ps = plug P s xs [(z, k)] ys Q" "b = s + extent xs" "Some q = last_addr None s xs"
    by (rule all_entries_split [OF e])
  have "xs \<noteq> []" using d(3) by auto
  then obtain us zq kq where xs: "xs = us @ [(zq, kq)]" by (metis rev_exhaust surj_pair)
  have q: "q = s + extent us" using d(3) by (simp add: xs)
  have "(q, zq, kq, last_addr None s us) \<in> set (all_entries ps)"
    by (simp add: d(1) all_entries_plug xs q)
  moreover have "kq \<noteq> Sentinel"
  proof -
    have "shape (us @ (zq, kq) # (z, k) # ys)"
      using ok by (simp add: d(1) pools_ok_def plug_def pool_ok_def xs)
    then obtain vs where vs: "us @ (zq, kq) # (z, k) # ys = vs @ [(32, Sentinel)]" "list_all blk_ok vs"
      by (auto simp: shape_def)
    then have "butlast (us @ (zq, kq) # (z, k) # ys) = vs" by simp
    then have "(zq, kq) \<in> set vs" by (auto simp: butlast_append)
    then show ?thesis using vs(2) by (auto simp: list_all_iff blk_ok_def)
  qed
  ultimately show thesis using that d(2) by (simp add: xs q)
qed

text \<open>The pad and the \<open>prev_phys_block\<close> field are read from the same cell; comparing the
  address with the end of the block the cell points to tells them apart.\<close>

lemma lookup_unknown:
  assumes I: "tlsf_inv c t m ps" and e: "(b, z, Used ptr al sz, q) \<in> set (all_entries ps)"
  shows "used_block_hdr_for_allocation_unknown_align m ptr = Some b"
proof -
  note u = used_entry [OF I e] and ok = inv_pools_ok [OF I]
  have g: "get_for_allocation ptr = ptr - 8" "wrapping_sub ptr SIZE_OF_UsedBlockHdr = ptr - 16"
      "wrapping_add (ptr - 16) 8 = ptr - 8" "(ptr - 8) mod 8 = 0"
    using u(5,9,10,11) by (auto simp: get_for_allocation_eq wrapping_sub_exact SIZE_OF_UsedBlockHdr_def
        wrapping_add_def mod_eq_0_iff_dvd dvd_diff_nat)
  have ld: "load m (ptr - 8) = m (ptr - 8)" using g(4) by (simp add: load_def)
  have ev: "used_block_hdr_for_allocation_unknown_align m ptr =
      m (ptr - 8) \<bind> (\<lambda>prev. case to_ptr prev of
          Some r \<Rightarrow> read_size m r \<bind> (\<lambda>sz. add_usize r sz \<bind>
            (\<lambda>e. if e < ptr then Some (ptr - 16) else m (ptr - 8)))
        | None \<Rightarrow> Some (ptr - 16))"
    by (simp only: used_block_hdr_for_allocation_unknown_align_def g(1-3) ld run_simps)
  show ?thesis
  proof (cases "al < 32")
    case True
    then have p: "ptr = b + 16" using u(3) by (simp add: used_ok_def)
    then have "ptr - 8 = b + 8" by linarith
    then have p8: "m (ptr - 8) = Some (of_ptr q)" "ptr - 16 = b" using u(2) p by (simp_all only: diff_add_inverse2)
    show ?thesis
    proof (cases q)
      case None
      then show ?thesis using p8 by (simp add: ev)
    next
      case (Some r)
      obtain zr kr qr where r: "(r, zr, kr, qr) \<in> set (all_entries ps)" "r + zr = b" "kr \<noteq> Sentinel"
        by (rule prev_entry [OF ok e [unfolded Some]])
      note fr = entry_facts [OF ok r(1)]
      have mr: "m r = Some (size_word zr kr)" "size_word zr kr \<le> zr + 1"
        using inv_hdr [OF I r(1)] r(3) by (auto simp: size_word_def split: kind.splits)
      have "r + size_word zr kr < ptr" "r + size_word zr kr < USIZE_LIM" using mr(2) r(2) p u(8) by linarith+
      then show ?thesis using p8 mr(1) fr Some by (simp add: ev mem_simps add_usize_def)
    qed
  next
    case False
    then have p: "b + 32 \<le> ptr" "m (ptr - 8) = Some b" using u(3) by (simp_all add: used_ok_def)
    have "\<not> b + (z + 1) < ptr" "b + (z + 1) < USIZE_LIM" using u(8,12) by linarith+
    then show ?thesis using p u(1,4,5) by (simp add: ev mem_simps add_usize_def)
  qed
qed

lemma payload_size_ok:
  assumes I: "tlsf_inv c t m ps" and e: "(b, z, Used ptr al sz, q) \<in> set (all_entries ps)"
  shows "payload_size m b ptr = Some (b + z - ptr)"
proof -
  note u = used_entry [OF I e]
  have "z < USIZE_LIM" "b + z < USIZE_LIM" "ptr \<le> b + z" using u(5,7,8,12) by linarith+
  then show ?thesis using u(1,4,6)
    by (simp add: payload_size_def mem_simps sub_usize_def add_usize_def SIZE_USED_def)
qed

section \<open>Freeing a run of blocks\<close>

text \<open>A run whose free blocks have been unlinked becomes one free block.\<close>

lemma run_linked:
  fixes t1 :: "('f::len word, 's::len word) tlsf"
  assumes I: "tlsf_inv c t m (plug P s xs mid ys Q)" and mid: "mid \<noteq> []" "list_all blk_ok mid"
    and b: "b = s + extent xs" "z = extent mid"
    and fl: "fl_inv c t1 m1 (\<lambda>y. if b \<le> y \<and> y < b + z then None else all_frees c (plug P s xs mid ys Q) y)"
    and ch: "changes_only m m1 (link_cells (dom (all_frees c (plug P s xs mid ys Q))))"
  obtains t2 m2 where "link_free_block c t1 (m1(b \<mapsto> z)) b z = Some (t2, m2)" and "m1 b \<noteq> None"
    and "fl_inv c t2 m2 (\<lambda>y. if b \<le> y \<and> y < b + z then frees c b [(z, Free)] y else all_frees c (plug P s xs mid ys Q) y)"
    and "changes_only m m2 (link_cells (dom (all_frees c (plug P s xs mid ys Q))) \<union> {b ..< b + z} \<union> {b + z + 8})"
    and "\<forall>a. 32 dvd a \<longrightarrow> m2 a = (m1(b \<mapsto> z)) a \<and> m2 (a + 8) = (m1(b \<mapsto> z)) (a + 8)"
proof -
  let ?F = "all_frees c (plug P s xs mid ys Q)" and ?m1 = "m1(b \<mapsto> z)"
  let ?H = "\<lambda>y. if b \<le> y \<and> y < b + z then None else ?F y" and ?S = "link_cells (dom ?F) \<union> {b ..< b + z} \<union> {b + z + 8}"
  note ok = inv_pools_ok [OF I]
  note ba = run_start [OF ok mid(1), folded b(1)]
  have z: "32 dvd z" "32 \<le> z" using blk_ok_extent [OF mid(2,1)] b(2) by simp_all
  have mp: "m a \<noteq> None" if "b \<le> a" "a < b + z" "8 dvd a" for a
    using run_mapped [OF I, of a] that by (simp add: b)
  have cells: "m b \<noteq> None" "m (b + 16) \<noteq> None" "m (b + 24) \<noteq> None"
    using mp [of b] mp [of "b + 16"] mp [of "b + 24"] z dvd_32_8 [OF ba(1)] by auto
  have cells1: "m1 b \<noteq> None" "m1 (b + 16) \<noteq> None" "m1 (b + 24) \<noteq> None"
    using changes_only_mapped [OF ch] cells by blast+
  have fl1: "fl_inv c t1 ?m1 ?H"
    by (rule header_writes_frame [OF fl, of _ "{b}"]) (use ba(1) cells1(1) in \<open>blast | intro changes_only_upd, auto\<close>)+
  obtain l where l: "free_class c z = Some l"
    by (rule plug_class [OF ok inv_cfg_ok [OF I] mid z(2,1)]) (simp add: b)
  obtain t2 m2 where link: "link_free_block c t1 ?m1 b z = Some (t2, m2)" "fl_inv c t2 m2 (?H(b \<mapsto> l))"
      "changes_only ?m1 m2 (link_cells (insert b (dom ?H)))"
      "\<forall>a. 32 dvd a \<longrightarrow> m2 a = ?m1 a \<and> m2 (a + 8) = ?m1 (a + 8)"
    by (rule fls.link_obtain [OF fl1 l _ ba]) (use z cells1 in simp_all)
  have "dom ?H \<subseteq> dom ?F" by (auto split: if_splits)
  from link_cells_mono [OF this] have sub: "link_cells (insert b (dom ?H)) \<subseteq> ?S"
    using z unfolding link_cells_insert by auto
  have "changes_only m ?m1 ?S"
    using changes_only_mono [OF ch, of ?S] by (rule changes_only_upd2) (use z cells in auto)
  then have ch2: "changes_only m m2 ?S" by (rule changes_only_trans [OF _ link(3)]) (use sub in auto)
  have "?H(b \<mapsto> l) = (\<lambda>y. if b \<le> y \<and> y < b + z then frees c b [(z, Free)] y else ?F y)"
    using l z by (auto simp: fun_eq_iff)
  with link(2) show thesis by (intro that [OF link(1) cells1(1) _ ch2 link(4)]) simp
qed

lemma free_run:
  fixes t1 :: "('f::len word, 's::len word) tlsf"
  assumes I: "tlsf_inv c t m (plug P s xs mid ys Q)" and mid: "mid \<noteq> []" "list_all blk_ok mid"
    and b: "b = s + extent xs" "z = extent mid"
    and adj: "no_adjacent_free (xs @ [(z, Free)] @ ys)"
    and fl: "fl_inv c t1 m1 (\<lambda>y. if b \<le> y \<and> y < b + z then None else all_frees c (plug P s xs mid ys Q) y)"
    and ch: "changes_only m m1 (link_cells (dom (all_frees c (plug P s xs mid ys Q))))"
    and hd: "\<forall>a. 32 dvd a \<longrightarrow> m1 a = m a \<and> m1 (a + 8) = m (a + 8)"
  obtains t2 m2 where "write_size m1 b z = Some (m1(b \<mapsto> z))" and "link_free_block c t1 (m1(b \<mapsto> z)) b z = Some (t2, m2)"
    and "next_phys_block m2 b = Some (b + z)" and "write_prev_phys m2 (b + z) (Some b) = Some (m2(b + z + 8 \<mapsto> b))"
    and "tlsf_inv c t2 (m2(b + z + 8 \<mapsto> b)) (plug P s xs [(z, Free)] ys Q)"
    and "changes_only m (m2(b + z + 8 \<mapsto> b))
      (link_cells (dom (all_frees c (plug P s xs mid ys Q))) \<union> {b ..< b + z} \<union> {b + z + 8})"
proof -
  let ?ps = "plug P s xs mid ys Q" and ?m1 = "m1(b \<mapsto> z)"
  let ?F = "all_frees c ?ps" and ?S = "link_cells (dom (all_frees c (plug P s xs mid ys Q))) \<union> {b ..< b + z} \<union> {b + z + 8}"
  note ok = inv_pools_ok [OF I]
  note ba = run_start [OF ok mid(1), folded b(1)]
  obtain zm km mid1 where m1: "mid = (zm, km) # mid1" using mid(1) by (cases mid) auto
  have eb: "(b, zm, km, last_addr None s xs) \<in> set (all_entries ?ps)" by (simp add: all_entries_plug m1 b)
  obtain zn kn ys' where nx: "(b + z, zn, kn, last_addr (last_addr None s xs) b mid) \<in> set (all_entries ?ps)"
      "32 \<le> zn" "b + z + zn \<le> USIZE_LIM" "32 dvd b + z"
    by (rule next_entry [OF ok mid, folded b])
  have z: "32 dvd z" "32 \<le> z"
    using blk_ok_extent [OF mid(2,1)] b(2) by simp_all
  obtain t2 m2 where link: "link_free_block c t1 ?m1 b z = Some (t2, m2)" "m1 b \<noteq> None"
      "fl_inv c t2 m2 (\<lambda>y. if b \<le> y \<and> y < b + z then frees c b [(z, Free)] y else ?F y)" "changes_only m m2 ?S"
      "\<forall>a. 32 dvd a \<longrightarrow> m2 a = ?m1 a \<and> m2 (a + 8) = ?m1 (a + 8)"
    by (rule run_linked [OF I mid b fl ch])
  let ?M = "m2(b + z + 8 \<mapsto> b)"
  have "m (b + z + 8) \<noteq> None" using inv_hdr [OF I nx(1)] by simp
  then have chM: "changes_only m ?M ?S" and mn: "m2 (b + z + 8) \<noteq> None"
    using changes_only_mapped [OF link(4)] by (blast intro: changes_only_upd2 [OF link(4)])+
  have flM: "fl_inv c t2 ?M (\<lambda>y. if b \<le> y \<and> y < b + z then frees c b [(z, Free)] y else ?F y)"
  proof (rule header_writes_frame [OF link(3)])
    show "changes_only m2 ?M {b + z + 8}" using mn by (intro changes_only_upd) auto
  qed (use nx(4) in blast)
  have h: "m2 b = Some z" "?M b = Some z" "?M (b + 8) = Some (of_ptr (last_addr None s xs))"
    using link(5) hd ba(1) inv_hdr [OF I eb] nx(4) z by (simp_all add: aligned_neq)
  show thesis
  proof (rule that)
    show "write_size m1 b z = Some ?m1" using link(2) ba by (simp add: mem_simps)
    show "link_free_block c t1 ?m1 b z = Some (t2, m2)" by (rule link(1))
    show "next_phys_block m2 b = Some (b + z)" using ba h(1) z nx(2,3) by (intro next_phys_block_free) auto
    show "write_prev_phys m2 (b + z) (Some b) = Some ?M" using nx(4) mn by (simp add: mem_simps)
    show "tlsf_inv c t2 ?M (plug P s xs [(z, Free)] ys Q)"
    proof (rule replace_inv [OF I mid _ _ _ adj])
      show "list_all blk_ok [(z, Free)]" using z by (simp add: blk_ok_def)
      show "extent [(z, Free)] = extent mid" by (simp add: b)
      show "list_all (hdr ?M) (entries (last_addr None s xs) (s + extent xs) [(z, Free)])"
        using h by (simp add: b [symmetric] size_word_def)
      show "?M (s + extent xs + extent mid + 8) = Some (of_ptr (last_addr (last_addr None s xs) (s + extent xs) [(z, Free)]))"
        by (simp add: b [symmetric])
    qed (use chM flM in \<open>simp_all only: b list.distinct not_False_eq_True\<close>)
  qed (rule chM)
qed

section \<open>Merging with the neighbours\<close>

definition free_or_none :: "blk list \<Rightarrow> bool" where
  "free_or_none xs \<longleftrightarrow> xs = [] \<or> (\<exists>z. xs = [(z, Free)])"

lemma split_neighbours:
  assumes ok: "pools_ok c (plug P s xs [(z, k)] ys Q)" and k: "k \<noteq> Free" "k \<noteq> Sentinel"
  obtains xs' pre post ys' where "xs = xs' @ pre" and "ys = post @ ys'" and "free_or_none pre" and "free_or_none post"
    and "xs' = [] \<or> snd (last xs') \<noteq> Free" and "ys' \<noteq> []" and "snd (hd ys') \<noteq> Free"
proof -
  have p: "pool_ok c (s, xs @ [(z, k)] @ ys)" using ok by (simp add: pools_ok_def plug_def)
  then have adj: "no_adjacent_free (xs @ [(z, k)] @ ys)" and sh: "shape (xs @ [(z, k)] @ ys)"
    by (simp_all add: pool_ok_def shape_def)
  have "blk_ok (z, k)" using pool_ok_dvd [OF p, of "(z, k)"] k by (auto simp: blk_ok_def)
  then obtain us where us: "ys = us @ [(32, Sentinel)]" by (rule_tac shape_plug [OF sh]) simp_all
  have "\<exists>xs' pre. xs = xs' @ pre \<and> free_or_none pre \<and> (xs' = [] \<or> snd (last xs') \<noteq> Free)"
  proof (cases "xs \<noteq> [] \<and> snd (last xs) = Free")
    case True
    then obtain xs' zp where xs: "xs = xs' @ [(zp, Free)]" by (metis append_butlast_last_id prod.collapse)
    then have "xs' = [] \<or> snd (last xs') \<noteq> Free" using adj by (auto simp: no_adjacent_free_append)
    with xs show ?thesis by (auto simp: free_or_none_def)
  next
    case False
    then show ?thesis by (intro exI [of _ xs] exI [of _ "[]"]) (auto simp: free_or_none_def)
  qed
  moreover have "\<exists>post ys'. ys = post @ ys' \<and> free_or_none post \<and> ys' \<noteq> [] \<and> snd (hd ys') \<noteq> Free"
  proof (cases "snd (hd ys) = Free")
    case True
    then obtain zn us' where u: "us = (zn, Free) # us'" using us by (cases us) auto
    have "snd (hd (us' @ [(32, Sentinel)])) \<noteq> Free"
      using adj by (cases us') (auto simp: us u no_adjacent_free_append)
    then show ?thesis by (intro exI [of _ "[(zn, Free)]"] exI [of _ "us' @ [(32, Sentinel)]"]) (simp add: us u free_or_none_def)
  next
    case False
    then show ?thesis by (intro exI [of _ "[]"] exI [of _ ys]) (auto simp: free_or_none_def us)
  qed
  ultimately show thesis using that by blast
qed

lemma entry_read:
  assumes I: "tlsf_inv c t m ps" and e: "(b, z, k, q) \<in> set (all_entries ps)"
    and hd: "\<forall>a. 32 dvd a \<longrightarrow> m1 a = m a \<and> m1 (a + 8) = m (a + 8)"
  shows "read_size m1 b = Some (size_word z k)" and "read_prev_phys m1 b = Some q"
proof -
  note f = entry_facts [OF inv_pools_ok [OF I] e] and h = inv_hdr [OF I e]
  then show "read_size m1 b = Some (size_word z k)" using hd by (simp add: mem_simps)
  have "q \<noteq> Some 0"
  proof
    assume "q = Some 0"
    then obtain z0 k0 q0 where "(0, z0, k0, q0) \<in> set (all_entries ps)"
      using prev_entry [OF inv_pools_ok [OF I]] e by metis
    from entry_facts [OF inv_pools_ok [OF I] this] show False by simp
  qed
  then show "read_prev_phys m1 b = Some q" using f h hd by (simp add: mem_simps)
qed

text \<open>Unlinking a free block of the pool.\<close>

lemma unlink_entry:
  fixes t1 :: "('f::len word, 's::len word) tlsf"
  assumes I: "tlsf_inv c t m ps" and e: "(b, z, Free, q) \<in> set (all_entries ps)"
    and fl: "fl_inv c t1 m1 G" and G: "G b = all_frees c ps b" "dom G \<subseteq> dom (all_frees c ps)"
    and ch: "changes_only m m1 (link_cells (dom (all_frees c ps)))"
    and hd: "\<forall>a. 32 dvd a \<longrightarrow> m1 a = m a \<and> m1 (a + 8) = m (a + 8)"
  obtains t2 m2 where "unlink_free_block c t1 m1 b z = Some (t2, m2)" and "fl_inv c t2 m2 (G(b := None))"
    and "changes_only m m2 (link_cells (dom (all_frees c ps)))"
    and "\<forall>a. 32 dvd a \<longrightarrow> m2 a = m a \<and> m2 (a + 8) = m (a + 8)"
proof -
  obtain l where l: "free_class c z = Some l" "all_frees c ps b = Some l" by (rule free_entry_class [OF I e])
  obtain t2 m2 where u: "unlink_free_block c t1 m1 b z = Some (t2, m2)" "fl_inv c t2 m2 (G(b := None))"
      "changes_only m1 m2 (link_cells (dom G))" "\<forall>a. 32 dvd a \<longrightarrow> m2 a = m1 a \<and> m2 (a + 8) = m1 (a + 8)"
    by (rule fls.unlink_obtain [OF fl l(1)]) (use G(1) l(2) in auto)
  show thesis
  proof (rule that [OF u(1,2)])
    show "changes_only m m2 (link_cells (dom (all_frees c ps)))"
      by (rule changes_only_trans [OF ch u(3) subset_refl link_cells_mono [OF G(2)]])
  qed (use u(4) hd in simp)
qed

lemma free_block_word:
  assumes "32 dvd z" "z < USIZE_LIM"
  shows "size_word z Free = z" "(z AND SIZE_USED = 0) = True" "(z AND SIZE_SIZE_MASK = z) = True" "(z = z AND SIZE_SIZE_MASK) = True"
  using assms by (simp_all add: size_word_def mem_simps)

text \<open>The right neighbour of a block is unlinked if it is free.\<close>

lemma unlink_post:
  fixes t0 :: "('f::len word, 's::len word) tlsf"
  assumes I: "tlsf_inv c t m ps" and ps: "ps = plug P s xs ((z, k) # post) ys Q"
    and mid: "blk_ok (z, k)" "free_or_none post" "ys \<noteq> []" "snd (hd ys) \<noteq> Free" and b: "b = s + extent xs"
    and fl: "fl_inv c t0 m0 G" and G: "G (b + z) = all_frees c ps (b + z)" "dom G \<subseteq> dom (all_frees c ps)"
    and ch: "changes_only m m0 (link_cells (dom (all_frees c ps)))"
    and hd: "\<forall>a. 32 dvd a \<longrightarrow> m0 a = m a \<and> m0 (a + 8) = m (a + 8)"
  obtains nf t1 m1 where "read_size m0 (b + z) = Some nf" and "(nf AND SIZE_USED = 0) = (post \<noteq> [])"
    and "(if post = [] then Some (t0, m0) else unlink_free_block c t0 m0 (b + z) nf) = Some (t1, m1)"
    and "post \<noteq> [] \<longrightarrow> nf = extent post \<and> nf AND SIZE_SIZE_MASK = nf \<and> next_phys_block m0 (b + z) = Some (b + z + nf) \<and>
      next_phys_block m1 (b + z) = Some (b + z + nf)"
    and "fl_inv c t1 m1 (\<lambda>y. if b + z \<le> y \<and> y < b + z + extent post then None else G y)"
    and "changes_only m m1 (link_cells (dom (all_frees c ps)))"
    and "\<forall>a. 32 dvd a \<longrightarrow> m1 a = m a \<and> m1 (a + 8) = m (a + 8)"
proof -
  note ok = inv_pools_ok [OF I]
  show thesis
  proof (cases "post = []")
    case True
    obtain zn kn ys' where ys: "ys = (zn, kn) # ys'" using mid(3) by (cases ys) auto
    have e: "(b + z, zn, kn, Some b) \<in> set (all_entries ps)" by (simp add: ps True ys all_entries_plug b)
    have "size_word zn kn AND SIZE_USED \<noteq> 0" using entry_facts [OF ok e] mid(4) by (simp add: ys mem_simps)
    moreover have "(\<lambda>y. if b + z \<le> y \<and> y < b + z + extent post then None else G y) = G"
      using True by (auto simp: fun_eq_iff)
    ultimately show thesis using True fl ch hd by (intro that [OF entry_read(1) [OF I e hd], of t0 m0]) simp_all
  next
    case False
    then obtain zn where post: "post = [(zn, Free)]" using mid(2) by (auto simp: free_or_none_def)
    have e: "(b + z, zn, Free, Some b) \<in> set (all_entries ps)" by (simp add: ps post all_entries_plug b)
    note f = entry_facts [OF ok e]
    have "list_all blk_ok ((z, k) # post)" using f mid(1) by (simp add: post blk_ok_def)
    then obtain zo where "b + z + zn + zo \<le> USIZE_LIM" "32 \<le> zo"
      using next_entry [OF ok [unfolded ps]] by (auto simp: b post add.assoc)
    then have lim: "b + z + zn < USIZE_LIM" "zn < USIZE_LIM" by linarith+
    note w = free_block_word [OF _ lim(2)]
    obtain t1 m1 where u: "unlink_free_block c t0 m0 (b + z) zn = Some (t1, m1)" "fl_inv c t1 m1 (G(b + z := None))"
        "changes_only m m1 (link_cells (dom (all_frees c ps)))"
        "\<forall>a. 32 dvd a \<longrightarrow> m1 a = m a \<and> m1 (a + 8) = m (a + 8)"
      by (rule unlink_entry [OF I e fl G ch hd])
    have "all_frees c ps y = None" if "b + z < y" "y < b + z + zn" for y
      using plug_frees [of c P s "xs @ [(z, k)]" post ys Q y] ok that by (auto simp: ps plug_def b post add.assoc split: option.splits)
    then have "G y = None" if "b + z < y" "y < b + z + zn" for y using G(2) that by (metis domIff in_mono)
    then have eqF: "G(b + z := None) = (\<lambda>y. if b + z \<le> y \<and> y < b + z + extent post then None else G y)"
      using f by (auto simp: fun_eq_iff post)
    have "next_phys_block m' (b + z) = Some (b + z + zn)" if "\<forall>a. 32 dvd a \<longrightarrow> m' a = m a \<and> m' (a + 8) = m (a + 8)" for m'
      by (rule next_phys_block_free) (use f lim inv_hdr [OF I e] that in \<open>simp_all add: size_word_def\<close>)
    from this [OF hd] this [OF u(4)] f w show thesis
      by (intro that [OF entry_read(1) [OF I e hd] _ _ _ u(2) [unfolded eqF] u(3,4)]) (simp_all add: post u(1))
  qed
qed

lemma next_merge:
  fixes t :: "('f::len word, 's::len word) tlsf"
  assumes I: "tlsf_inv c t m ps" and ps: "ps = plug P s xs ((z, k) # post) ys Q"
    and mid: "blk_ok (z, k)" "free_or_none post" "ys \<noteq> []" "snd (hd ys) \<noteq> Free" and b: "b = s + extent xs"
    and lim: "z + extent post < USIZE_LIM"
  obtains nf t1 m1 where "read_size m (b + z) = Some nf"
    and "(if nf AND SIZE_USED = 0 then do {
          debug_assert (nf AND SIZE_SIZE_MASK = nf);
          sz \<leftarrow> add_usize z nf;
          new_next \<leftarrow> next_phys_block m (b + z);
          (t, m) \<leftarrow> unlink_free_block c t m (b + z) nf;
          Some (sz, new_next, t, m)
        } else Some (z, b + z, t, m)) = Some (z + extent post, b + z + extent post, t1, m1)"
    and "fl_inv c t1 m1 (\<lambda>y. if b + z \<le> y \<and> y < b + z + extent post then None else all_frees c ps y)"
    and "changes_only m m1 (link_cells (dom (all_frees c ps)))"
    and "\<forall>a. 32 dvd a \<longrightarrow> m1 a = m a \<and> m1 (a + 8) = m (a + 8)"
proof -
  have fl: "fl_inv c t m (all_frees c ps)" using I by (simp add: tlsf_inv_def)
  obtain nf t1 m1 where u: "read_size m (b + z) = Some nf" "(nf AND SIZE_USED = 0) = (post \<noteq> [])"
      "(if post = [] then Some (t, m) else unlink_free_block c t m (b + z) nf) = Some (t1, m1)"
      "post \<noteq> [] \<longrightarrow> nf = extent post \<and> nf AND SIZE_SIZE_MASK = nf \<and> next_phys_block m (b + z) = Some (b + z + nf) \<and>
        next_phys_block m1 (b + z) = Some (b + z + nf)"
      "fl_inv c t1 m1 (\<lambda>y. if b + z \<le> y \<and> y < b + z + extent post then None else all_frees c ps y)"
      "changes_only m m1 (link_cells (dom (all_frees c ps)))"
      "\<forall>a. 32 dvd a \<longrightarrow> m1 a = m a \<and> m1 (a + 8) = m (a + 8)"
    by (rule unlink_post [OF I ps mid b fl refl subset_refl changes_only_refl]) simp
  show thesis
    by (rule that [OF u(1) _ u(5-7)]) (use u(2-4) lim in \<open>cases "post = []"; simp add: add_usize_def\<close>)
qed

lemma prev_merge:
  fixes t1 :: "('f::len word, 's::len word) tlsf"
  assumes I: "tlsf_inv c t m ps" and ps: "ps = plug P s xs (pre @ (z, k) # post) ys Q"
    and pre: "free_or_none pre" "xs = [] \<or> snd (last xs) \<noteq> Free" and b: "b = s + extent xs + extent pre"
    and fl: "fl_inv c t1 m1 (\<lambda>y. if b + z \<le> y \<and> y < n then None else all_frees c ps y)"
    and n: "sz + extent pre < USIZE_LIM"
    and ch: "changes_only m m1 (link_cells (dom (all_frees c ps)))"
    and hd: "\<forall>a. 32 dvd a \<longrightarrow> m1 a = m a \<and> m1 (a + 8) = m (a + 8)"
  obtains q t2 m2 where "read_prev_phys m1 b = Some q"
    and "(case q of None \<Rightarrow> Some (b, sz, t1, m1)
        | Some prev_phys \<Rightarrow> do {
            prev_flags \<leftarrow> read_size m1 prev_phys;
            if prev_flags AND SIZE_USED = 0 then do {
              debug_assert (prev_flags AND SIZE_SIZE_MASK = prev_flags);
              sz \<leftarrow> add_usize sz prev_flags;
              (t, m) \<leftarrow> unlink_free_block c t1 m1 prev_phys prev_flags;
              Some (prev_phys, sz, t, m)
            }
            else Some (b, sz, t1, m1)
          }) = Some (s + extent xs, sz + extent pre, t2, m2)"
    and "fl_inv c t2 m2 (\<lambda>y. if s + extent xs \<le> y \<and> y < b \<or> b + z \<le> y \<and> y < n then None else all_frees c ps y)"
    and "changes_only m m2 (link_cells (dom (all_frees c ps)))"
    and "\<forall>a. 32 dvd a \<longrightarrow> m2 a = m a \<and> m2 (a + 8) = m (a + 8)"
proof -
  let ?G = "\<lambda>y. if b + z \<le> y \<and> y < n then None else all_frees c ps y"
  let ?G' = "\<lambda>y. if s + extent xs \<le> y \<and> y < b \<or> b + z \<le> y \<and> y < n then None else all_frees c ps y"
  note ok = inv_pools_ok [OF I]
  have eb: "(b, z, k, last_addr None s (xs @ pre)) \<in> set (all_entries ps)"
    by (simp add: ps all_entries_plug b add.assoc)
  note rp = entry_read(2) [OF I eb hd]
  show thesis
  proof (cases "pre = []")
    case True
    then have G: "?G' = ?G" using b by (auto simp: fun_eq_iff)
    show thesis
    proof (cases "xs = []")
      case True
      with \<open>pre = []\<close> fl G ch hd b show thesis by (intro that [OF rp, of t1 m1]) simp_all
    next
      case False
      then obtain us zp kp where xs: "xs = us @ [(zp, kp)]" by (metis rev_exhaust surj_pair)
      have e: "(s + extent us, zp, kp, last_addr None s us) \<in> set (all_entries ps)" by (simp add: ps all_entries_plug xs)
      have "(size_word zp kp AND SIZE_USED = 0) = False"
        using entry_facts [OF ok e] pre(2) by (simp add: xs mem_simps)
      with \<open>pre = []\<close> fl G ch hd b show thesis
        by (intro that [OF rp, of t1 m1]) (simp_all add: xs entry_read(1) [OF I e hd] add.assoc)
    qed
  next
    case False
    then obtain zp where p: "pre = [(zp, Free)]" using pre(1) by (auto simp: free_or_none_def)
    let ?a = "s + extent xs"
    have e: "(?a, zp, Free, last_addr None s xs) \<in> set (all_entries ps)" by (simp add: ps all_entries_plug p)
    note f = entry_facts [OF ok e]
    have ba: "b = ?a + zp" by (simp add: b p)
    obtain t2 m2 where u: "unlink_free_block c t1 m1 ?a zp = Some (t2, m2)" "fl_inv c t2 m2 (?G(?a := None))"
        "changes_only m m2 (link_cells (dom (all_frees c ps)))"
        "\<forall>a. 32 dvd a \<longrightarrow> m2 a = m a \<and> m2 (a + 8) = m (a + 8)"
      by (rule unlink_entry [OF I e fl _ _ ch hd]) (use ba f in \<open>auto split: if_splits\<close>)
    obtain l where "free_class c zp = Some l" by (rule free_entry_class [OF I e])
    then have eqF: "?G(?a := None) = ?G'"
      using plug_frees [of c P s xs pre "(z, k) # post @ ys" Q] ok f
      by (auto simp: fun_eq_iff ps plug_def ba p)
    have lim: "zp < USIZE_LIM" "add_usize sz zp = Some (sz + zp)" using n by (simp_all add: p add_usize_def)
    note w = free_block_word [OF _ lim(1)]
    show thesis
      by (rule that [OF rp _ u(2) [unfolded eqF] u(3,4)])
        (use f w lim u(1) entry_read(1) [OF I e hd] in \<open>simp_all add: p\<close>)
  qed
qed

text \<open>The run of a used block and its free neighbours becomes one free block.\<close>

text \<open>A used block with the free blocks around it, as one run.\<close>

lemma neighbours_run:
  assumes ok: "pools_ok c (plug P s xs (pre @ (z, k) # post) ys Q)" and k: "k \<noteq> Sentinel"
    and nb: "free_or_none pre" "free_or_none post" "xs = [] \<or> snd (last xs) \<noteq> Free" "snd (hd ys) \<noteq> Free"
  shows "list_all blk_ok (pre @ (z, k) # post)"
    and "s + extent xs + (extent pre + z + extent post) < USIZE_LIM"
    and "32 dvd extent pre + z + extent post" "32 \<le> extent pre + z + extent post"
    and "no_adjacent_free (xs @ [(extent pre + z + extent post, Free)] @ ys)"
proof -
  let ?mid = "pre @ (z, k) # post"
  show mid: "list_all blk_ok ?mid"
    by (rule run_blk_ok [OF ok], use nb(1,2) k in \<open>auto simp: free_or_none_def\<close>)
  obtain zn kn ys' where nx: "ys = (zn, kn) # ys'" "s + extent xs + extent ?mid + zn \<le> USIZE_LIM" "32 \<le> zn"
      "no_adjacent_free (xs @ ?mid @ ys)"
    by (rule next_entry [OF ok _ mid]) simp
  have Z: "extent ?mid = extent pre + z + extent post" by simp
  show "s + extent xs + (extent pre + z + extent post) < USIZE_LIM" using nx(2,3) Z by linarith
  show "32 dvd extent pre + z + extent post" "32 \<le> extent pre + z + extent post"
    using blk_ok_extent [OF mid] by (simp_all add: add.assoc)
  show "no_adjacent_free (xs @ [(extent pre + z + extent post, Free)] @ ys)"
  proof -
    define M where "M = ?mid"
    show ?thesis using nx(1,4) nb(3,4) unfolding M_def [symmetric] by (auto simp: no_adjacent_free_append)
  qed
qed

lemma deallocate_block_ok:
  fixes t :: "('f::len word, 's::len word) tlsf"
  assumes I: "tlsf_inv c t m ps" and ps: "ps = plug P s xs (pre @ (z, Used ptr al sz) # post) ys Q"
    and nb: "free_or_none pre" "free_or_none post" "xs = [] \<or> snd (last xs) \<noteq> Free" "ys \<noteq> []" "snd (hd ys) \<noteq> Free"
    and b: "b = s + extent xs + extent pre"
  defines "mid \<equiv> pre @ (z, Used ptr al sz) # post"
  obtains t' m' where "deallocate_block c t m b = Some (t', m')"
    and "tlsf_inv c t' m' (plug P s xs [(extent mid, Free)] ys Q)"
    and "changes_only m m' (link_cells (dom (all_frees c ps)) \<union> {s + extent xs ..< s + extent xs + extent mid} \<union>
      {s + extent xs + extent mid + 8})"
proof -
  let ?k = "Used ptr al sz" and ?a = "s + extent xs" and ?Z = "extent mid"
  note ok = inv_pools_ok [OF I]
  have pl: "ps = plug P s xs mid ys Q" by (simp add: ps mid_def)
  have pl2: "ps = plug P s (xs @ pre) ((z, ?k) # post) ys Q" by (simp add: ps plug_def)
  have e: "(b, z, ?k, last_addr None s (xs @ pre)) \<in> set (all_entries ps)"
    by (simp add: ps all_entries_plug b add.assoc)
  note u = used_entry [OF I e]
  have zb: "blk_ok (z, ?k)" using u by (simp add: blk_ok_def)
  have b2: "b = s + extent (xs @ pre)" by (simp add: b)
  have Z: "?Z = extent pre + z + extent post" by (simp add: mid_def)
  have "?k \<noteq> Sentinel" by simp
  note r = neighbours_run [OF ok [unfolded ps] this nb(1-3,5), folded mid_def, folded Z]
  have mid: "mid \<noteq> []" "list_all blk_ok mid" using r(1) by (simp_all add: mid_def)
  have Zl: "?a + ?Z < USIZE_LIM" "z < USIZE_LIM" "b + z < USIZE_LIM" "b + z + extent post = ?a + ?Z"
    using r(2) Z b by linarith+
  have n: "z + extent post + extent pre < USIZE_LIM" and zp: "z + extent post < USIZE_LIM" using Zl Z by linarith+
  obtain nf t1 m1 where s1: "read_size m (b + z) = Some nf"
      "(if nf AND SIZE_USED = 0 then do {
          debug_assert (nf AND SIZE_SIZE_MASK = nf);
          sz \<leftarrow> add_usize z nf;
          new_next \<leftarrow> next_phys_block m (b + z);
          (t, m) \<leftarrow> unlink_free_block c t m (b + z) nf;
          Some (sz, new_next, t, m)
        } else Some (z, b + z, t, m)) = Some (z + extent post, b + z + extent post, t1, m1)"
      "fl_inv c t1 m1 (\<lambda>y. if b + z \<le> y \<and> y < b + z + extent post then None else all_frees c ps y)"
      "changes_only m m1 (link_cells (dom (all_frees c ps)))"
      "\<forall>a. 32 dvd a \<longrightarrow> m1 a = m a \<and> m1 (a + 8) = m (a + 8)"
    by (rule next_merge [OF I pl2 zb nb(2,4,5) b2 zp])
  obtain q t2 m2 where s2: "read_prev_phys m1 b = Some q"
      "(case q of None \<Rightarrow> Some (b, z + extent post, t1, m1)
        | Some prev_phys \<Rightarrow> do {
            prev_flags \<leftarrow> read_size m1 prev_phys;
            if prev_flags AND SIZE_USED = 0 then do {
              debug_assert (prev_flags AND SIZE_SIZE_MASK = prev_flags);
              sz \<leftarrow> add_usize (z + extent post) prev_flags;
              (t, m) \<leftarrow> unlink_free_block c t1 m1 prev_phys prev_flags;
              Some (prev_phys, sz, t, m)
            }
            else Some (b, z + extent post, t1, m1)
          }) = Some (?a, z + extent post + extent pre, t2, m2)"
      "fl_inv c t2 m2 (\<lambda>y. if ?a \<le> y \<and> y < b \<or> b + z \<le> y \<and> y < b + z + extent post then None else all_frees c ps y)"
      "changes_only m m2 (link_cells (dom (all_frees c ps)))"
      "\<forall>a. 32 dvd a \<longrightarrow> m2 a = m a \<and> m2 (a + 8) = m (a + 8)"
    by (rule prev_merge [OF I ps nb(1,3) b s1(3) n s1(4,5)])
  have "all_frees c ps y = None" if "b \<le> y" "y < b + z" for y
    using plug_frees [of c P s "xs @ pre" "[(z, ?k)]" "post @ ys" Q y] ok that by (simp add: ps plug_def b add.assoc)
  then have eqF: "(\<lambda>y. if ?a \<le> y \<and> y < b \<or> b + z \<le> y \<and> y < b + z + extent post then None else all_frees c ps y) =
      (\<lambda>y. if ?a \<le> y \<and> y < ?a + ?Z then None else all_frees c ps y)"
    using Zl(4) b by (auto simp: fun_eq_iff)
  obtain t3 m3 where fr: "write_size m2 ?a ?Z = Some (m2(?a \<mapsto> ?Z))" "link_free_block c t2 (m2(?a \<mapsto> ?Z)) ?a ?Z = Some (t3, m3)"
      "next_phys_block m3 ?a = Some (?a + ?Z)" "write_prev_phys m3 (?a + ?Z) (Some ?a) = Some (m3(?a + ?Z + 8 \<mapsto> ?a))"
      "tlsf_inv c t3 (m3(?a + ?Z + 8 \<mapsto> ?a)) (plug P s xs [(?Z, Free)] ys Q)"
      "changes_only m (m3(?a + ?Z + 8 \<mapsto> ?a)) (link_cells (dom (all_frees c ps)) \<union> {?a ..< ?a + ?Z} \<union> {?a + ?Z + 8})"
    unfolding pl
    by (rule free_run [OF I [unfolded pl] mid refl refl r(5) s2(3) [unfolded eqF, unfolded pl] s2(4) [unfolded pl] s2(5)])
  have st: "read_size m b = Some (z + 1)" "(z + 1) AND not_usize SIZE_USED = z" "((z + 1) AND SIZE_USED \<noteq> 0) = True"
      "next_phys_block m b = Some (b + z)" "z + extent post + extent pre = ?Z" "(?Z AND SIZE_USED = 0) = True"
      "(?a + ?Z = ?a + ?Z) = True"
    using u Zl r(3,4) Z by (auto simp: mem_simps intro!: next_phys_block_used)
  have "deallocate_block c t m b = Some (t3, m3(?a + ?Z + 8 \<mapsto> ?a))"
    by (simp only: deallocate_block_def st s1(1,2) s2(1,2) Zl(4) fr(1-4) run_simps)
  then show thesis by (rule that [OF _ fr(5,6)])
qed

lemma deallocate_used:
  fixes t :: "('f::len word, 's::len word) tlsf"
  assumes I: "tlsf_inv c t m ps" and e: "(b, z, Used ptr al sz, q) \<in> set (all_entries ps)"
  obtains P s xs pre post ys Q t' m' where "ps = plug P s xs (pre @ (z, Used ptr al sz) # post) ys Q"
    and "b = s + extent xs + extent pre" and "free_or_none pre" and "free_or_none post"
    and "deallocate_block c t m b = Some (t', m')"
    and "tlsf_inv c t' m' (plug P s xs [(extent pre + z + extent post, Free)] ys Q)"
    and "changes_only m m' (link_cells (dom (all_frees c ps)) \<union>
      {s + extent xs ..< s + extent xs + (extent pre + z + extent post)} \<union> {s + extent xs + (extent pre + z + extent post) + 8})"
proof -
  obtain P s xs ys Q where d: "ps = plug P s xs [(z, Used ptr al sz)] ys Q" "b = s + extent xs"
    by (rule all_entries_split [OF e])
  obtain xs' pre post ys' where n: "xs = xs' @ pre" "ys = post @ ys'" "free_or_none pre" "free_or_none post"
      "xs' = [] \<or> snd (last xs') \<noteq> Free" "ys' \<noteq> []" "snd (hd ys') \<noteq> Free"
    by (rule split_neighbours [OF inv_pools_ok [OF I, unfolded d(1)]]) simp_all
  have pl: "ps = plug P s xs' (pre @ (z, Used ptr al sz) # post) ys' Q" by (simp add: d(1) plug_def n(1,2))
  have b: "b = s + extent xs' + extent pre" by (simp add: d(2) n(1))
  have x: "extent (pre @ (z, Used ptr al sz) # post) = extent pre + z + extent post" by simp
  obtain t' m' where r: "deallocate_block c t m b = Some (t', m')"
      "tlsf_inv c t' m' (plug P s xs' [(extent pre + z + extent post, Free)] ys' Q)"
      "changes_only m m' (link_cells (dom (all_frees c ps)) \<union>
        {s + extent xs' ..< s + extent xs' + (extent pre + z + extent post)} \<union> {s + extent xs' + (extent pre + z + extent post) + 8})"
    by (rule deallocate_block_ok [OF I pl n(3-7) b, unfolded x])
  show thesis by (rule that [OF pl b n(3,4) r])
qed

end
