(* ===== verification/Byte_Copy.thy ===== *)
theory Byte_Copy
  imports Tlsf_Layout
begin

text \<open>
  Byte accesses to the word memory: storing a byte changes that byte and no other, and the two copy
  primitives the allocator uses (\<open>core::ptr::copy\<close>, \<open>core::ptr::copy_nonoverlapping\<close>) move
  the bytes of the source range and touch only the cells of the destination range.
\<close>

section \<open>One byte\<close>

lemma set_byte_parts:
  fixes v k :: nat
  defines "p \<equiv> 256 ^ k" and "h \<equiv> v div 256 ^ Suc k"
  shows "v = h * (256 * p) + (v div p mod 256) * p + v mod p"
    and "v - (v div p mod 256) * p + y * p = h * (256 * p) + y * p + v mod p"
proof -
  have h: "h = v div p div 256" unfolding h_def p_def power_Suc2 by (rule div_mult2_eq)
  have "v = (v div p) * p + v mod p" by simp
  also have "v div p = 256 * h + v div p mod 256" unfolding h by simp
  finally show eq: "v = h * (256 * p) + (v div p mod 256) * p + v mod p" by (simp add: algebra_simps)
  then have "v - (v div p mod 256) * p = h * (256 * p) + v mod p" by linarith
  then show "v - (v div p mod 256) * p + y * p = h * (256 * p) + y * p + v mod p" by simp
qed

lemma byte_of_parts:
  fixes h y l :: nat
  assumes "y < 256" "l < 256 ^ k"
  shows "(h * (256 * 256 ^ k) + y * 256 ^ k + l) div 256 ^ j mod 256 =
    (if j = k then y else if j < k then l div 256 ^ j mod 256 else h div 256 ^ (j - Suc k) mod 256)"
proof -
  have low: "(h * (256 * 256 ^ k) + y * 256 ^ k + l) div 256 ^ k = h * 256 + y"
  proof -
    have "h * (256 * 256 ^ k) + y * 256 ^ k + l = l + 256 ^ k * (h * 256 + y)" by (simp add: algebra_simps)
    then show ?thesis using assms(2) by simp
  qed
  consider "j = k" | "j < k" | "k < j" by linarith
  then show ?thesis
  proof cases
    case 1
    then show ?thesis using low assms(1) by simp
  next
    case 2
    then obtain i where i: "k = j + Suc i" using less_iff_Suc_add by (metis add_Suc_right)
    have "h * (256 * 256 ^ k) + y * 256 ^ k + l = l + 256 ^ j * (256 * ((h * 256 + y) * 256 ^ i))"
      by (simp add: i power_add algebra_simps)
    then show ?thesis using 2 by simp
  next
    case 3
    then obtain i where i: "j = k + Suc i" using less_iff_Suc_add by (metis add_Suc_right)
    have p: "(256::nat) ^ j = 256 ^ k * (256 * 256 ^ i)" by (simp add: i power_add)
    have "(h * (256 * 256 ^ k) + y * 256 ^ k + l) div 256 ^ j = (h * 256 + y) div 256 div 256 ^ i"
      unfolding p div_mult2_eq [of _ "256 ^ k"] low by (rule div_mult2_eq)
    then show ?thesis using 3 assms(1) by (simp add: i)
  qed
qed

lemma set_byte:
  fixes v x k :: nat
  defines "w \<equiv> v - (v div 256 ^ k mod 256) * 256 ^ k + (x mod 256) * 256 ^ k"
  shows "w div 256 ^ j mod 256 = (if j = k then x mod 256 else v div 256 ^ j mod 256)"
proof -
  let ?h = "v div 256 ^ Suc k" and ?l = "v mod 256 ^ k"
  have l: "?l < 256 ^ k" by simp
  have w: "w = ?h * (256 * 256 ^ k) + (x mod 256) * 256 ^ k + ?l"
    unfolding w_def by (rule set_byte_parts(2))
  have v: "v = ?h * (256 * 256 ^ k) + (v div 256 ^ k mod 256) * 256 ^ k + ?l"
    by (rule set_byte_parts(1))
  have "w div 256 ^ j mod 256 = (if j = k then x mod 256 else if j < k then ?l div 256 ^ j mod 256
      else ?h div 256 ^ (j - Suc k) mod 256)"
    unfolding w by (rule byte_of_parts [OF _ l]) simp
  moreover have "v div 256 ^ j mod 256 = (if j = k then v div 256 ^ k mod 256 else if j < k then ?l div 256 ^ j mod 256
      else ?h div 256 ^ (j - Suc k) mod 256)"
    using byte_of_parts [OF _ l, of "v div 256 ^ k mod 256" ?h j] unfolding v [symmetric] by simp
  ultimately show ?thesis by simp
qed

lemma same_byte:
  assumes "a - a mod 8 = b - b mod (8::nat)"
  shows "a mod 8 = b mod 8 \<longleftrightarrow> a = b"
proof
  assume "a mod 8 = b mod 8"
  moreover have "a = (a - a mod 8) + a mod 8" "b = (b - b mod 8) + b mod 8" by simp_all
  ultimately show "a = b" using assms by metis
qed simp

lemma store_byte_obtain:
  assumes "m (a - a mod 8) \<noteq> None"
  obtains m' where "store_byte m a x = Some m'" and "changes_only m m' {a - a mod 8}"
    and "\<And>b. load_byte m' b = (if b = a then Some (x mod 256) else load_byte m b)"
proof -
  let ?c = "a - a mod 8"
  obtain v where v: "m ?c = Some v" using assms by blast
  define w where "w = v - (v div 256 ^ (a mod 8) mod 256) * 256 ^ (a mod 8) + (x mod 256) * 256 ^ (a mod 8)"
  have byte: "w div 256 ^ j mod 256 = (if j = a mod 8 then x mod 256 else v div 256 ^ j mod 256)" for j
    unfolding w_def by (rule set_byte)
  show thesis
  proof (rule that [of "m(?c \<mapsto> w)"])
    show "store_byte m a x = Some (m(?c \<mapsto> w))" by (simp add: store_byte_def v w_def)
    show "changes_only m (m(?c \<mapsto> w)) {?c}" using v by (intro changes_only_upd) simp_all
    show "load_byte (m(?c \<mapsto> w)) b = (if b = a then Some (x mod 256) else load_byte m b)" for b
    proof (cases "b - b mod 8 = ?c")
      case True
      then show ?thesis using byte [of "b mod 8"] same_byte [OF True] v by (simp add: load_byte_def)
    next
      case False
      then show ?thesis by (auto simp: load_byte_def)
    qed
  qed
qed

section \<open>Ranges of bytes\<close>

definition cells :: "usize \<Rightarrow> nat \<Rightarrow> usize set" where
  "cells a n = {c. 8 dvd c \<and> a < c + 8 \<and> c < a + n}"

lemma cell_in_cells: "a \<le> b \<Longrightarrow> b < a + n \<Longrightarrow> b - b mod 8 \<in> cells a n"
  using mod_less_divisor [of 8 b] minus_mod_eq_mult_div [of b 8] by (auto simp: cells_def)

lemma cell_of_byte:
  assumes "8 dvd p" "p \<le> (a::nat)"
  shows "p \<le> a - a mod 8" "a - a mod 8 \<le> a"
proof -
  obtain k where k: "p = 8 * k" using assms(1) by (rule dvdE)
  have "a = 8 * (a div 8) + a mod 8" by simp
  moreover have "k \<le> a div 8" using assms(2) k by simp
  ultimately show "p \<le> a - a mod 8" "a - a mod 8 \<le> a" using k by linarith+
qed

lemma load_byte_Some: "m (a - a mod 8) \<noteq> None \<Longrightarrow> \<exists>x < 256. load_byte m a = Some x"
  by (auto simp: load_byte_def)

lemma load_bytes_obtain:
  assumes "\<And>i. i < n \<Longrightarrow> m (a + i - (a + i) mod 8) \<noteq> None"
  obtains xs where "load_bytes m a n = Some xs" and "length xs = n" and "\<And>i. i < n \<Longrightarrow> load_byte m (a + i) = Some (xs ! i)"
  using assms
proof (induction n arbitrary: a thesis)
  case (Suc n)
  obtain x where x: "load_byte m a = Some x" using load_byte_Some [of m a] Suc.prems(2) [of 0] by auto
  obtain xs where xs: "load_bytes m (a + 1) n = Some xs" "length xs = n" "\<And>i. i < n \<Longrightarrow> load_byte m (a + 1 + i) = Some (xs ! i)"
  proof (rule Suc.IH)
    show "m (a + 1 + i - (a + 1 + i) mod 8) \<noteq> None" if "i < n" for i using Suc.prems(2) [of "Suc i"] that by simp
  qed blast
  show ?case
  proof (rule Suc.prems(1) [of "x # xs"])
    show "load_byte m (a + i) = Some ((x # xs) ! i)" if "i < Suc n" for i
      using x xs(3) [of "i - 1"] that by (cases i) simp_all
  qed (use x xs in simp_all)
qed simp

lemma store_bytes_obtain:
  assumes "\<And>i. i < length xs \<Longrightarrow> m (a + i - (a + i) mod 8) \<noteq> None"
  obtains m' where "store_bytes m a xs = Some m'" and "changes_only m m' (cells a (length xs))"
    and "\<And>b. load_byte m' b = (if a \<le> b \<and> b < a + length xs then Some (xs ! (b - a) mod 256) else load_byte m b)"
  using assms
proof (induction xs arbitrary: m a thesis)
  case (Cons x xs)
  obtain m1 where m1: "store_byte m a x = Some m1" "changes_only m m1 {a - a mod 8}"
      "\<And>b. load_byte m1 b = (if b = a then Some (x mod 256) else load_byte m b)"
    by (rule store_byte_obtain [of m a x]) (use Cons.prems(2) [of 0] in auto)
  obtain m2 where m2: "store_bytes m1 (a + 1) xs = Some m2" "changes_only m1 m2 (cells (a + 1) (length xs))"
      "\<And>b. load_byte m2 b = (if a + 1 \<le> b \<and> b < a + 1 + length xs then Some (xs ! (b - (a + 1)) mod 256) else load_byte m1 b)"
  proof (rule Cons.IH)
    show "m1 (a + 1 + i - (a + 1 + i) mod 8) \<noteq> None" if "i < length xs" for i
      using Cons.prems(2) [of "Suc i"] that changes_only_mapped [OF m1(2)] by simp
  qed blast
  show ?case
  proof (rule Cons.prems(1) [of m2])
    show "store_bytes m a (x # xs) = Some m2" using m1(1) m2(1) by simp
    have "a - a mod 8 \<in> cells a (length (x # xs))" by (rule cell_in_cells) simp_all
    moreover have "cells (a + 1) (length xs) \<subseteq> cells a (length (x # xs))" by (auto simp: cells_def)
    ultimately show "changes_only m m2 (cells a (length (x # xs)))"
      by (intro changes_only_trans [OF m1(2) m2(2)]) simp_all
    show "load_byte m2 b = (if a \<le> b \<and> b < a + length (x # xs) then Some ((x # xs) ! (b - a) mod 256) else load_byte m b)" for b
    proof (cases "b = a")
      case False
      then have "a \<le> b \<Longrightarrow> b - a = Suc (b - (a + 1))" by linarith
      then show ?thesis using False m1(3) m2(3) by auto
    qed (use m1(3) m2(3) in simp)
  qed
qed (simp add: not_less [symmetric])

lemma copy_obtain:
  assumes "\<And>i. i < n \<Longrightarrow> m (src + i - (src + i) mod 8) \<noteq> None" and "\<And>i. i < n \<Longrightarrow> m (dst + i - (dst + i) mod 8) \<noteq> None"
  obtains m' where "copy m src dst n = Some m'" and "changes_only m m' (cells dst n)"
    and "\<And>i. i < n \<Longrightarrow> load_byte m' (dst + i) = load_byte m (src + i)"
proof -
  obtain xs where xs: "load_bytes m src n = Some xs" "length xs = n" "\<And>i. i < n \<Longrightarrow> load_byte m (src + i) = Some (xs ! i)"
    using load_bytes_obtain [of n m src] assms(1) by metis
  obtain m' where m': "store_bytes m dst xs = Some m'" "changes_only m m' (cells dst n)"
      "\<And>b. load_byte m' b = (if dst \<le> b \<and> b < dst + n then Some (xs ! (b - dst) mod 256) else load_byte m b)"
    using store_bytes_obtain [of xs m dst] assms(2) xs(2) by metis
  have "xs ! i mod 256 = xs ! i" if "i < n" for i
    using load_byte_Some [of m "src + i"] assms(1) [OF that] xs(3) [OF that] by auto
  then show thesis using xs m' by (intro that [of m']) (simp_all add: copy_def)
qed

text \<open>The cells of a range that starts at a cell lie in the range.\<close>

lemma cells_aligned: "8 dvd a \<Longrightarrow> cells a n \<subseteq> {a ..< a + n}"
  unfolding cells_def by (auto elim!: dvdE)

end
