(* ===== verification/Allocator.thy ===== *)
theory Allocator
  imports Tlsf_Pool Tlsf_Dealloc Byte_Copy
begin

text \<open>
  The allocator as its clients see it: the set of live allocations and the bytes in them. The
  theorems state for each public operation of \<open>Tlsf\<close> what it does to that set; they hide the
  blocks, the headers and the free lists, of which only the invariant remains.
\<close>

section \<open>The client's view\<close>

definition blocks_of :: "pool list \<Rightarrow> blk list" where
  "blocks_of ps = concat (map snd ps)"

definition live :: "pool list \<Rightarrow> (usize \<times> usize \<times> usize) set" where
  \<comment> \<open>payload pointer, alignment and size of every live allocation\<close>
  "live ps = {(ptr, al, sz). Used ptr al sz \<in> snd ` set (blocks_of ps)}"

definition pool_bytes :: "pool list \<Rightarrow> usize set" where
  "pool_bytes ps = (\<Union>p \<in> set ps. pool_range p)"

definition contents_kept :: "mem \<Rightarrow> mem \<Rightarrow> (usize \<times> usize \<times> usize) set \<Rightarrow> bool" where
  "contents_kept m m' A \<longleftrightarrow>
     (\<forall>ptr al sz a. (ptr, al, sz) \<in> A \<longrightarrow> ptr \<le> a \<longrightarrow> a < ptr + sz \<longrightarrow> load_byte m' a = load_byte m a)"

definition cells_kept :: "mem \<Rightarrow> mem \<Rightarrow> (usize \<times> usize \<times> usize) set \<Rightarrow> bool" where
  "cells_kept m m' A \<longleftrightarrow> (\<forall>ptr al sz y. (ptr, al, sz) \<in> A \<longrightarrow> ptr \<le> y \<longrightarrow> y < ptr + sz \<longrightarrow> m' y = m y)"

definition used_kept :: "mem \<Rightarrow> mem \<Rightarrow> pool list \<Rightarrow> pool list \<Rightarrow> bool" where
  \<comment> \<open>the blocks of the live allocations stay where they are, with everything from the payload on\<close>
  "used_kept m m' ps ps' \<longleftrightarrow> (\<forall>b z p al n q. (b, z, Used p al n, q) \<in> set (all_entries ps) \<longrightarrow>
     (\<exists>q'. (b, z, Used p al n, q') \<in> set (all_entries ps')) \<and> (\<forall>x. p \<le> x \<and> x < b + z \<longrightarrow> m' x = m x))"

definition separate :: "usize \<times> usize \<times> usize \<Rightarrow> usize \<times> usize \<times> usize \<Rightarrow> bool" where
  "separate x y \<longleftrightarrow> fst x \<noteq> fst y \<and>
     {fst x ..< fst x + snd (snd x)} \<inter> {fst y ..< fst y + snd (snd y)} = {}"

text \<open>What an embedding program may rely on: the memory outside the pools is not touched, and neither is
  the unused upper half of the sentinel block that ends each pool.\<close>

definition spans :: "pool list \<Rightarrow> (usize \<times> nat) list" where
  "spans ps = map (\<lambda>p. (fst p, extent (snd p))) ps"

definition tail_space :: "pool list \<Rightarrow> usize set" where
  "tail_space ps = (\<Union>(s, n) \<in> set (spans ps). {s + n - 16 ..< s + n})"

definition untouched :: "mem \<Rightarrow> mem \<Rightarrow> pool list \<Rightarrow> bool" where
  "untouched m m' ps \<longleftrightarrow> dom m' = dom m \<and> (\<forall>x. x \<notin> pool_bytes ps \<or> x \<in> tail_space ps \<longrightarrow> m' x = m x)"

section \<open>Live allocations\<close>

lemma entries_kinds: "(z, k) \<in> set xs \<longleftrightarrow> (\<exists>b q. (b, z, k, q) \<in> set (entries p a xs))"
  by (induction p a xs rule: entries.induct) auto

lemma all_entries_kinds: "(z, k) \<in> set (blocks_of ps) \<longleftrightarrow> (\<exists>b q. (b, z, k, q) \<in> set (all_entries ps))"
proof (induction ps rule: all_entries.induct)
  case (2 s xs ps)
  then show ?case using entries_kinds [of z k xs None s] by (auto simp: blocks_of_def)
qed (simp add: blocks_of_def)

lemma live_entry: "(ptr, al, sz) \<in> live ps \<longleftrightarrow> (\<exists>b z q. (b, z, Used ptr al sz, q) \<in> set (all_entries ps))"
proof -
  have "(ptr, al, sz) \<in> live ps \<longleftrightarrow> (\<exists>z. (z, Used ptr al sz) \<in> set (blocks_of ps))"
    by (force simp: live_def image_iff)
  then show ?thesis using all_entries_kinds by metis
qed

lemma live_plug:
  "live (plug P s xs mid ys Q) = live P \<union> live [(s, xs)] \<union> live [(s, mid)] \<union> live [(s, ys)] \<union> live Q"
  by (auto simp: live_def blocks_of_def plug_def image_iff)

lemma live_simps [simp]:
  "live [(s, [])] = {}" "live [(s, (z, Free) # xs)] = live [(s, xs)]"
  "live [(s, (z, Used ptr al sz) # xs)] = insert (ptr, al, sz) (live [(s, xs)])"
  "live [(s, xs @ ys)] = live [(s, xs)] \<union> live [(s, ys)]"
  by (auto simp: live_def blocks_of_def)

lemma live_free_or_none [simp]: "free_or_none xs \<Longrightarrow> live [(s, xs)] = {}"
  by (auto simp: free_or_none_def)

lemma live_outside:
  assumes ok: "pools_ok c (plug P s xs mid ys Q)"
    and x: "(p, a, n) \<in> live P \<union> live [(s, xs)] \<union> live [(s, ys)] \<union> live Q"
  shows "\<exists>b z q. (b, z, Used p a n, q) \<in> set (all_entries (plug P s xs mid ys Q)) \<and>
    b \<notin> {s + extent xs ..< s + extent xs + extent mid}"
proof -
  let ?r = "last_addr (last_addr None s xs) (s + extent xs) mid"
  have "(p, a, n) \<in> live [(s, xs)] \<Longrightarrow> \<exists>b z q. (b, z, Used p a n, q) \<in> set (entries None s xs)"
    using live_entry [of p a n "[(s, xs)]"] by simp
  moreover have "(p, a, n) \<in> live [(s, ys)] \<Longrightarrow>
      \<exists>b z q. (b, z, Used p a n, q) \<in> set (entries ?r (s + extent xs + extent mid) ys)"
    using entries_kinds [of _ "Used p a n" ys] by (force simp: live_def blocks_of_def)
  ultimately obtain b z q where e: "(b, z, Used p a n, q) \<in> set (all_entries P) \<union> set (entries None s xs) \<union>
      set (entries ?r (s + extent xs + extent mid) ys) \<union> set (all_entries Q)"
    using x live_entry by (metis UnE UnI1 UnI2)
  then have "(b, z, Used p a n, q) \<in> set (all_entries (plug P s xs mid ys Q))" by (auto simp: all_entries_plug)
  moreover have "b \<notin> {s + extent xs ..< s + extent xs + extent mid}"
    using plug_outside [OF ok e] entry_facts [OF ok calculation] by auto
  ultimately show ?thesis by blast
qed

lemma live_separate:
  assumes I: "tlsf_inv c t m ps" and x: "x \<in> live ps" "y \<in> live ps" "x \<noteq> y"
  shows "separate x y"
proof -
  obtain p a s p' a' s' where xy: "x = (p, a, s)" "y = (p', a', s')" by (metis surj_pair)
  obtain b z q b' z' q' where e: "(b, z, Used p a s, q) \<in> set (all_entries ps)" "(b', z', Used p' a' s', q') \<in> set (all_entries ps)"
    using x xy live_entry by metis
  have "b + z \<le> b' \<or> b' + z' \<le> b" using entries_disjoint [OF inv_pools_ok [OF I] e] x(3) xy by auto
  then show ?thesis using used_entry(11,12) [OF I e(1)] used_entry(11,12) [OF I e(2)]
    by (auto simp: separate_def xy)
qed

lemma live_in_pools:
  assumes I: "tlsf_inv c t m ps" and x: "(p, a, s) \<in> live ps"
  shows "a dvd p" and "{p ..< p + s} \<subseteq> pool_bytes ps"
proof -
  obtain b z q where e: "(b, z, Used p a s, q) \<in> set (all_entries ps)" using x live_entry by metis
  note u = used_entry [OF I e]
  show "a dvd p" using u(3) by (simp add: used_ok_def)
  have "{p ..< p + s} \<subseteq> {b ..< b + z}" using u(11,12) by auto
  then show "{p ..< p + s} \<subseteq> pool_bytes ps"
    using entry_in_range [OF inv_pools_ok [OF I] e] unfolding pool_bytes_def by blast
qed

lemma used_kept_trans: "used_kept m m' ps ps' \<Longrightarrow> used_kept m' m'' ps' ps'' \<Longrightarrow> used_kept m m'' ps ps''"
  unfolding used_kept_def by metis

lemma contents_kept_trans:
  assumes "contents_kept m m' A" and "contents_kept m' m'' B" and "C \<subseteq> A" "C \<subseteq> B"
  shows "contents_kept m m'' C"
  using assms unfolding contents_kept_def by (metis subsetD)

lemma cells_kept_contents:
  assumes I: "tlsf_inv c t m ps" and k: "cells_kept m m' A" and A: "A \<subseteq> live ps"
  shows "contents_kept m m' A"
  unfolding contents_kept_def
proof (intro allI impI)
  fix p al sz a assume a: "(p, al, sz) \<in> A" "p \<le> a" "a < p + sz"
  then obtain b z q where e: "(b, z, Used p al sz, q) \<in> set (all_entries ps)" using A live_entry by (metis subsetD)
  have "p \<le> a - a mod 8" "a - a mod 8 < p + sz" using cell_of_byte [OF used_entry(9) [OF I e] a(2)] a(3) by linarith+
  then have "m' (a - a mod 8) = m (a - a mod 8)" using k a(1) unfolding cells_kept_def by blast
  then show "load_byte m' a = load_byte m a" by (simp add: load_byte_def)
qed

lemma used_kept_cells:
  assumes I: "tlsf_inv c t m ps" and k: "used_kept m m' ps ps'"
  shows "cells_kept m m' (live ps)"
  unfolding cells_kept_def
proof (intro allI impI)
  fix p al sz y assume y: "(p, al, sz) \<in> live ps" "p \<le> y" "y < p + sz"
  then obtain b z q where e: "(b, z, Used p al sz, q) \<in> set (all_entries ps)" using live_entry by metis
  have "y < b + z" using used_entry(12) [OF I e] y(3) by linarith
  then show "m' y = m y" using k e y(2) unfolding used_kept_def by blast
qed

lemma used_kept_contents: "tlsf_inv c t m ps \<Longrightarrow> used_kept m m' ps ps' \<Longrightarrow> contents_kept m m' (live ps)"
  by (blast intro: cells_kept_contents used_kept_cells)

text \<open>Replacing a run keeps the contents of the allocations outside it.\<close>

lemma run_cells:
  assumes I: "tlsf_inv c t m ps" and ps: "ps = plug P s xs mid ys Q" and mid: "mid \<noteq> []" "list_all blk_ok mid"
    and ch: "changes_only m m' (link_cells (dom (all_frees c ps)) \<union>
      {s + extent xs ..< s + extent xs + extent mid} \<union> {s + extent xs + extent mid + 8})"
    and A: "\<And>p a sz. (p, a, sz) \<in> A \<Longrightarrow> \<exists>b z q. (b, z, Used p a sz, q) \<in> set (all_entries ps) \<and>
      b \<notin> {s + extent xs ..< s + extent xs + extent mid}"
  shows "cells_kept m m' A"
  unfolding cells_kept_def
proof (intro allI impI)
  fix p al sz y assume y: "(p, al, sz) \<in> A" "p \<le> y" "y < p + sz"
  then obtain b z q where e: "(b, z, Used p al sz, q) \<in> set (all_entries ps)"
      "b \<notin> {s + extent xs ..< s + extent xs + extent mid}" using A by blast
  note u = used_entry [OF I e(1)] and ok = inv_pools_ok [OF I]
  obtain zn kn qn where n: "(s + extent xs + extent mid, zn, kn, qn) \<in> set (all_entries ps)"
    using next_entry [OF ok [unfolded ps] mid] unfolding ps by metis
  show "m' y = m y"
    using replace_keeps [OF ok [unfolded ps] ch [unfolded ps] e [unfolded ps] _ _ n [unfolded ps], of y] u(11,12) y(2,3) by linarith
qed

lemma entries_prev: "(a, z, k, q) \<in> set (entries p b xs) \<Longrightarrow> \<exists>q'. (a, z, k, q') \<in> set (entries p' b xs)"
  by (cases xs) auto

text \<open>Blocks outside the run stay where they are.\<close>

lemma plug_entry_kept:
  assumes ok: "pools_ok c (plug P s xs mid ys Q)" and e: "(a, z, k, q) \<in> set (all_entries (plug P s xs mid ys Q))"
    and a: "a \<notin> {s + extent xs ..< s + extent xs + extent mid}" and x: "extent mid' = extent mid"
  shows "\<exists>q'. (a, z, k, q') \<in> set (all_entries (plug P s xs mid' ys Q))"
proof -
  have "pool_ok c (s, xs @ mid @ ys)" using ok by (simp add: pools_ok_def plug_def)
  then have "(a, z, k, q) \<notin> set (entries (last_addr None s xs) (s + extent xs) mid)"
    using entries_range [of "(a, z, k, q)" _ "s + extent xs" mid] pool_ok_pos [of c s "xs @ mid @ ys"] a by fastforce
  then show ?thesis using e entries_prev unfolding all_entries_plug x by (fastforce simp: x)
qed

section \<open>Untouched memory\<close>

lemma pool_bytes_spans: "pool_bytes ps = (\<Union>(s, n) \<in> set (spans ps). {s ..< s + n})"
  by (auto simp: pool_bytes_def spans_def pool_range_def)

lemma spans_plug: "extent mid' = extent mid \<Longrightarrow> spans (plug P s xs mid' ys Q) = spans (plug P s xs mid ys Q)"
  by (simp add: spans_def plug_def)

lemma untouched_refl [simp]: "untouched m m ps"
  by (simp add: untouched_def)

lemma untouched_trans: "untouched m m' ps \<Longrightarrow> untouched m' m'' ps' \<Longrightarrow> spans ps' = spans ps \<Longrightarrow> untouched m m'' ps"
  unfolding untouched_def tail_space_def pool_bytes_spans by simp

lemma tail_entry:
  assumes ok: "pools_ok c ps" and x: "x \<in> tail_space ps"
  obtains b q where "(b, 32, Sentinel, q) \<in> set (all_entries ps)" and "b + 16 \<le> x" and "x < b + 32"
proof -
  obtain s xs where p: "(s, xs) \<in> set ps" "s + extent xs - 16 \<le> x" "x < s + extent xs"
    using x by (auto simp: tail_space_def spans_def)
  then have "pool_ok c (s, xs)" using ok by (auto simp: pools_ok_def list_all_iff)
  then obtain us where us: "xs = us @ [(32, Sentinel)]" by (auto simp: pool_ok_def shape_def)
  obtain P Q where "ps = P @ (s, xs) # Q" using p(1) by (metis split_list)
  then have "(s + extent us, 32, Sentinel, last_addr None s us) \<in> set (all_entries ps)" by (simp add: us)
  then show thesis by (rule that) (use p(2,3) us in simp_all)
qed

lemma link_cell_entry:
  assumes ok: "pools_ok c ps" and x: "x \<in> link_cells (dom (all_frees c ps))"
  obtains b z q where "(b, z, Free, q) \<in> set (all_entries ps)" and "b \<le> x" and "x < b + z"
proof -
  obtain y where y: "y \<in> dom (all_frees c ps)" "x = y + 16 \<or> x = y + 24" using x by (auto simp: link_cells_def)
  then obtain z q where e: "(y, z, Free, q) \<in> set (all_entries ps)" using all_frees_entry by blast
  show thesis by (rule that [OF e]) (use y(2) entry_facts [OF ok e] in auto)
qed

lemma entry_pool_bytes: "pools_ok c ps \<Longrightarrow> (b, z, k, q) \<in> set (all_entries ps) \<Longrightarrow> b \<le> x \<Longrightarrow> x < b + z \<Longrightarrow> x \<in> pool_bytes ps"
  using entry_in_range [of c ps b z k q] by (auto simp: pool_bytes_def)

lemma links_untouched:
  assumes ok: "pools_ok c ps" and x: "x \<notin> pool_bytes ps \<or> x \<in> tail_space ps"
  shows "x \<notin> link_cells (dom (all_frees c ps))"
proof
  assume "x \<in> link_cells (dom (all_frees c ps))"
  then obtain b z q where e: "(b, z, Free, q) \<in> set (all_entries ps)" "b \<le> x" "x < b + z" by (rule link_cell_entry [OF ok])
  then have "x \<in> tail_space ps" using x entry_pool_bytes [OF ok e] by blast
  then obtain d r where "(d, 32, Sentinel, r) \<in> set (all_entries ps)" "d + 16 \<le> x" "x < d + 32" by (rule tail_entry [OF ok])
  with entries_disjoint [OF ok e(1)] e(2,3) show False by fastforce
qed

text \<open>Writes to blocks other than sentinels and to headers touch neither.\<close>

lemma untouchedI:
  assumes ok: "pools_ok c ps" and ch: "changes_only m m' (link_cells (dom (all_frees c ps)) \<union> R)"
    and R: "\<And>x. x \<in> R \<Longrightarrow> x \<in> pool_bytes ps \<and> x \<notin> tail_space ps"
  shows "untouched m m' ps"
  using ch R links_untouched [OF ok] unfolding untouched_def changes_only_def by blast

lemma run_untouched:
  assumes ok: "pools_ok c ps" and ps: "ps = plug P s xs mid ys Q" and mid: "mid \<noteq> []" "list_all blk_ok mid"
    and W: "W = extent mid"
    and ch: "changes_only m m' (link_cells (dom (all_frees c ps)) \<union> {s + extent xs ..< s + extent xs + W} \<union> {s + extent xs + W + 8})"
  shows "untouched m m' ps"
proof (rule untouchedI [OF ok ch [unfolded Un_assoc]])
  fix x assume x: "x \<in> {s + extent xs ..< s + extent xs + W} \<union> {s + extent xs + W + 8}"
  obtain zn kn where n: "(s + extent xs + W, zn, kn, last_addr (last_addr None s xs) (s + extent xs) mid) \<in> set (all_entries ps)" "32 \<le> zn"
    using next_entry [OF ok [unfolded ps] mid] unfolding ps W by metis
  show "x \<in> pool_bytes ps \<and> x \<notin> tail_space ps"
  proof
    have "(s, xs @ mid @ ys) \<in> set ps" by (simp add: ps plug_def)
    then have "x \<in> pool_bytes ps" if "x < s + extent xs + W"
      using x that by (auto simp: pool_bytes_def pool_range_def W intro!: bexI [of _ "(s, xs @ mid @ ys)"])
    moreover have "x \<in> pool_bytes ps" if "x = s + extent xs + W + 8" using entry_pool_bytes [OF ok n(1)] n(2) that by simp
    ultimately show "x \<in> pool_bytes ps" using x by auto
    show "x \<notin> tail_space ps"
    proof
      assume "x \<in> tail_space ps"
      then obtain d r where d: "(d, 32, Sentinel, r) \<in> set (all_entries ps)" "d + 16 \<le> x" "x < d + 32" by (rule tail_entry [OF ok])
      have "Sentinel \<notin> snd ` set mid" using mid(2) by (auto simp: list_all_iff blk_ok_def)
      then have "(d, 32, Sentinel, r) \<notin> set (entries (last_addr None s xs) (s + extent xs) mid)"
        using entries_kinds [of 32 Sentinel mid] by force
      then have "d + 32 \<le> s + extent xs \<or> s + extent xs + extent mid \<le> d"
        using plug_outside [OF ok [unfolded ps], of d 32 Sentinel r] d(1) by (auto simp: ps all_entries_plug)
      then show False using x d(2,3) entries_disjoint [OF ok d(1) n(1)] n(2) by (auto simp: W)
    qed
  qed
qed

lemma carve_facts:
  assumes "ns \<le> z"
  shows "extent (carve z ns k) = z" and "live [(s, carve z ns (Used p a sz))] = {(p, a, sz)}"
  using assms by (auto simp: carve_def)

lemma pool_bytes_plug: "extent mid' = extent mid \<Longrightarrow> pool_bytes (plug P s xs mid' ys Q) = pool_bytes (plug P s xs mid ys Q)"
  by (simp add: pool_bytes_def plug_def pool_range_def)

text \<open>Filling a free block leaves the used blocks alone.\<close>

lemma free_block_used_kept:
  assumes I: "tlsf_inv c t m ps" and ps: "ps = plug P s xs [(z, Free)] ys Q" and mid: "extent mid = z"
    and ch: "changes_only m m' (link_cells (dom (all_frees c ps)) \<union> {s + extent xs ..< s + extent xs + z} \<union> {s + extent xs + z + 8})"
  shows "used_kept m m' ps (plug P s xs mid ys Q)"
  unfolding used_kept_def
proof (intro allI impI conjI)
  note ok = inv_pools_ok [OF I]
  have eb: "(s + extent xs, z, Free, last_addr None s xs) \<in> set (all_entries ps)" by (simp add: ps all_entries_plug)
  note fb = entry_facts [OF ok eb]
  fix b y p a n q assume e: "(b, y, Used p a n, q) \<in> set (all_entries ps)"
  have out: "b \<notin> {s + extent xs ..< s + extent xs + z}"
    using entries_disjoint [OF ok eb e] entry_facts [OF ok e] by auto
  show "\<exists>q'. (b, y, Used p a n, q') \<in> set (all_entries (plug P s xs mid ys Q))"
    by (rule plug_entry_kept [OF ok [unfolded ps] e [unfolded ps]]) (use out mid in simp_all)
  obtain zn kn where nx: "(s + extent xs + z, zn, kn, Some (s + extent xs)) \<in> set (all_entries ps)"
    by (rule next_entry [OF ok [unfolded ps]]) (use fb in \<open>simp_all add: blk_ok_def ps\<close>)
  show "m' x = m x" if "p \<le> x \<and> x < b + y" for x
    using replace_keeps [OF ok [unfolded ps] _ e [unfolded ps], of m m' x] ch out nx used_entry(11) [OF I e] that
    by (auto simp: ps)
qed

lemma allocate_some:
  fixes t :: "('f::len word, 's::len word) tlsf"
  assumes I: "tlsf_inv c t m ps" and L: "layout_ok l"
    and S: "search_suitable_free_block_list_for_allocation c t (search_size l) = Some (Some (fl, sl))"
  obtains ptr t' m' ps' where "allocate c t m l = Some (Some ptr, t', m')" and "tlsf_inv c t' m' ps'"
    and "live ps' = insert (ptr, lalign l, lsize l) (live ps)" and "(ptr, lalign l, lsize l) \<notin> live ps"
    and "pool_bytes ps' = pool_bytes ps" and "contents_kept m m' (live ps)"
    and "used_kept m m' ps ps'"
    and "spans ps' = spans ps" and "untouched m m' ps"
proof -
  obtain ptr t' m' P s xs z ys Q ns where r: "allocate c t m l = Some (Some ptr, t', m')"
      "ps = plug P s xs [(z, Free)] ys Q" "ns \<le> search_size l" "search_size l \<le> z"
      "ptr = round_up (lalign l) (s + extent xs + 16)"
      "tlsf_inv c t' m' (plug P s xs (carve z ns (Used ptr (lalign l) (lsize l))) ys Q)"
      "changes_only m m' (link_cells (dom (all_frees c ps)) \<union> {s + extent xs ..< s + extent xs + z} \<union>
        {s + extent xs + z + 8})"
    by (rule allocate_take [OF I L S])
  let ?ps = "plug P s xs (carve z ns (Used ptr (lalign l) (lsize l))) ys Q"
  note ok = inv_pools_ok [OF I]
  have eb: "(s + extent xs, z, Free, last_addr None s xs) \<in> set (all_entries ps)" by (simp add: r(2) all_entries_plug)
  note fb = entry_facts [OF ok eb]
  have cv: "extent (carve z ns k) = z" "live [(s, carve z ns (Used ptr (lalign l) (lsize l)))] = {(ptr, lalign l, lsize l)}" for k
    using r(3,4) by (simp_all add: carve_facts)
  have uk: "used_kept m m' ps ?ps" by (rule free_block_used_kept [OF I r(2) cv(1) r(7)])
  show thesis
  proof (rule that [OF r(1,6)])
    show "live ?ps = insert (ptr, lalign l, lsize l) (live ps)" by (auto simp: r(2) live_plug cv)
    show "(ptr, lalign l, lsize l) \<notin> live ps"
    proof
      assume "(ptr, lalign l, lsize l) \<in> live ps"
      then obtain b y q where e: "(b, y, Used ptr (lalign l) (lsize l), q) \<in> set (all_entries ps)"
        using live_entry by metis
      note u = used_entry [OF I e]
      have "(s + extent xs, ns, Used ptr (lalign l) (lsize l), last_addr None s xs) \<in> set (all_entries ?ps)"
        by (simp add: all_entries_plug carve_def)
      from used_entry(11,12) [OF r(6) this]
      have "s + extent xs + 16 \<le> ptr" "ptr \<le> s + extent xs + z" using r(3,4) by linarith+
      then show False using u(11,12) entries_disjoint [OF ok eb e] by auto
    qed
    show "pool_bytes ?ps = pool_bytes ps" by (simp add: r(2) pool_bytes_plug cv)
    show "spans ?ps = spans ps" unfolding r(2) by (rule spans_plug) (simp add: cv)
    show "untouched m m' ps" by (rule run_untouched [OF ok r(2) _ _ _ r(7)]) (use fb in \<open>simp_all add: blk_ok_def\<close>)
    show "used_kept m m' ps ?ps" by (rule uk)
    show "contents_kept m m' (live ps)" by (rule used_kept_contents [OF I uk])
  qed
qed

lemma allocate_live:
  fixes t :: "('f::len word, 's::len word) tlsf"
  assumes I: "tlsf_inv c t m ps" and L: "layout_ok l"
  obtains (fails) "allocate c t m l = Some (None, t, m)"
  | (succeeds) ptr t' m' ps' where "allocate c t m l = Some (Some ptr, t', m')" and "tlsf_inv c t' m' ps'"
    and "live ps' = insert (ptr, lalign l, lsize l) (live ps)" and "(ptr, lalign l, lsize l) \<notin> live ps"
    and "pool_bytes ps' = pool_bytes ps" and "contents_kept m m' (live ps)"
    and "used_kept m m' ps ps'"
    and "spans ps' = spans ps" and "untouched m m' ps"
proof -
  obtain r where r: "search_suitable_free_block_list_for_allocation c t (search_size l) = Some r"
    by (rule allocate_search [OF assms])
  show thesis
  proof (cases r)
    case None
    then show thesis using allocate_fail(1) [OF assms] r fails by simp
  next
    case (Some x)
    with r have S: "search_suitable_free_block_list_for_allocation c t (search_size l) = Some (Some (fst x, snd x))" by simp
    show thesis by (rule allocate_some [OF assms S]) (rule succeeds)
  qed
qed

section \<open>A concrete allocator\<close>

definition demo_mem :: mem where
  "demo_mem = (\<lambda>a. if 4096 \<le> a \<and> a < 8192 then Some 0 else None)"

definition demo_pools :: "pool list" where
  "demo_pools = [(4096, [(4064, Free), (32, Sentinel)])]"

lemma tlsf_new_inv:
  assumes "cfg_ok c" "FLLEN c \<le> LENGTH('f)" "SLLEN c \<le> LENGTH('s)"
  shows "tlsf_inv c (tlsf_new c :: ('f::len word, 's::len word) tlsf) m []"
  using fl_inv_new [OF assms] by (simp add: tlsf_inv_def pools_disjoint_def pools_mapped_def)

lemma demo_add_pools: "add_pools demo_cfg 4096 4096 [] = demo_pools"
  by (simp add: add_pools.simps chunk_size_def MAX_POOL_SIZE_def demo_cfg_def USIZE_BITS_def demo_pools_def)

lemma demo_round_up: "round_up 32 4096 = 4096" "usable_len (4096, 4096) = 4096"
  by (simp_all add: round_up_def usable_len_def)

lemma demo_fresh: "fresh demo_mem [] 4096 4096"
  by (simp add: fresh_def demo_mem_def)

lemma demo_inv: "\<exists>(t :: (16 word, 16 word) tlsf) m. tlsf_inv demo_cfg t m demo_pools"
proof -
  have new: "tlsf_inv demo_cfg (tlsf_new demo_cfg :: (16 word, 16 word) tlsf) demo_mem []"
    using demo_cfg_ok by (rule tlsf_new_inv) (simp_all add: demo_cfg_def)
  obtain t :: "(16 word, 16 word) tlsf" and m where "tlsf_inv demo_cfg t m (add_pools demo_cfg 4096 4096 [])"
    by (rule insert_large [OF new, of "(4096, 4096)"]) (use demo_fresh in \<open>simp_all add: demo_round_up USIZE_LIM_def\<close>)
  then show ?thesis unfolding demo_add_pools by blast
qed

definition demo_layout :: layout where
  "demo_layout = \<lparr>lsize = 100, lalign = 64\<rparr>"

lemma demo_layout_ok: "layout_ok demo_layout"
  using is_power_of_two_pow2 [of 6] by (simp add: layout_ok_def demo_layout_def USIZE_LIM_def ISIZE_MAX_def)

lemma demo_pool_size: "pool_size_to_contain_allocation demo_cfg demo_layout = Some (Some 224)"
proof -
  have ss: "search_size demo_layout = 192" by (simp add: search_size_def demo_layout_def round_up_def)
  have bl: "bit_len 192 = 8" by (simp add: bit_len.simps)
  have mx: "192 \<le> MAX_MAP_CEIL_AND_UNMAP_INPUT demo_cfg"
    by (simp add: MAX_MAP_CEIL_AND_UNMAP_INPUT_def demo_lens not_usize_def USIZE_LIM_def USIZE_BITS_def
        Let_def drop_bit_eq_div)
  have "(199::nat) AND not_usize 7 = 192" using and_not_mask [of 199 3] by (simp add: USIZE_LIM_def)
  then have "map_ceil_and_unmap demo_cfg 192 = Some (Some 192)"
    using mx by (simp add: map_ceil_and_unmap_def leading_zeros_def bl USIZE_BITS_def sub_usize_def demo_lens shl1_def add_usize_def USIZE_LIM_def)
  moreover have "pool_size_to_contain_allocation demo_cfg demo_layout =
      map_ceil_and_unmap demo_cfg (search_size demo_layout) \<bind>
        (\<lambda>r. case r of None \<Rightarrow> Some None | Some y \<Rightarrow> Some (checked_add y GRANULARITY))"
    by (simp only: pool_size_to_contain_allocation_def layout_sizes(1-4) [OF demo_layout_ok] run_simps)
  ultimately show ?thesis by (simp add: ss checked_add_def USIZE_LIM_def)
qed

lemma demo_used: "\<exists>(t :: (16 word, 16 word) tlsf) m ps ptr. tlsf_inv demo_cfg t m ps \<and> (ptr, 64, 100) \<in> live ps \<and>
    pool_bytes ps = {4096 ..< 8192} \<and> spans ps = [(4096, 4096)]"
proof -
  obtain t :: "(16 word, 16 word) tlsf" and m where I: "tlsf_inv demo_cfg t m demo_pools" using demo_inv by blast
  have e: "(4096, 4064, Free, None) \<in> set (all_entries demo_pools)" by (simp add: demo_pools_def)
  obtain fl sl where S: "search_suitable_free_block_list_for_allocation demo_cfg t (search_size demo_layout) = Some (Some (fl, sl))"
    by (rule allocate_contained [OF I demo_layout_ok demo_pool_size e]) simp_all
  obtain ptr and t' :: "(16 word, 16 word) tlsf" and m' ps' where "tlsf_inv demo_cfg t' m' ps'" "live ps' = insert (ptr, lalign demo_layout, lsize demo_layout) (live demo_pools)"
      "pool_bytes ps' = pool_bytes demo_pools" "spans ps' = spans demo_pools"
    by (rule allocate_some [OF I demo_layout_ok S])
  then have "tlsf_inv demo_cfg t' m' ps' \<and> (ptr, 64, 100) \<in> live ps' \<and> pool_bytes ps' = {4096 ..< 8192} \<and> spans ps' = [(4096, 4096)]"
    by (simp add: demo_layout_def pool_bytes_def demo_pools_def pool_range_def spans_def)
  then show ?thesis by blast
qed

section \<open>Allocation\<close>

text \<open>C1: \<open>allocate\<close> never faults. On failure it changes nothing. On success the result is
  aligned as requested, lies inside the pools, shares no byte and no address with a live allocation,
  becomes a live allocation of the requested size, and the contents of all other allocations are
  kept; the invariant holds again.\<close>

theorem allocate_spec:
  fixes t :: "('f::len word, 's::len word) tlsf"
  assumes "tlsf_inv c t m ps" and "layout_ok l"
  shows "\<exists>r t' m'. allocate c t m l = Some (r, t', m') \<and>
    (case r of None \<Rightarrow> t' = t \<and> m' = m
     | Some ptr \<Rightarrow> lalign l dvd ptr \<and> {ptr ..< ptr + lsize l} \<subseteq> pool_bytes ps \<and>
         (\<forall>x. x \<in> live ps \<longrightarrow> separate (ptr, lalign l, lsize l) x) \<and>
         contents_kept m m' (live ps) \<and>
         (\<exists>ps'. tlsf_inv c t' m' ps' \<and> live ps' = insert (ptr, lalign l, lsize l) (live ps) \<and>
            pool_bytes ps' = pool_bytes ps))"
proof (rule allocate_live [OF assms])
  fix ptr t' m' ps' assume a: "allocate c t m l = Some (Some ptr, t', m')" "tlsf_inv c t' m' ps'"
      "live ps' = insert (ptr, lalign l, lsize l) (live ps)" "(ptr, lalign l, lsize l) \<notin> live ps"
      "pool_bytes ps' = pool_bytes ps" "contents_kept m m' (live ps)"
  have "lalign l dvd ptr" "{ptr ..< ptr + lsize l} \<subseteq> pool_bytes ps"
    using live_in_pools [OF a(2), of ptr "lalign l" "lsize l"] a(3,5) by simp_all
  moreover have "separate (ptr, lalign l, lsize l) x" if "x \<in> live ps" for x
    using that a(3,4) by (intro live_separate [OF a(2)]) auto
  ultimately show ?thesis using a by (intro exI [of _ "Some ptr"]) auto
qed simp

theorem allocate_spec_witness:
  "\<exists>(t :: (16 word, 16 word) tlsf) m r t' m'. tlsf_inv demo_cfg t m demo_pools \<and>
    allocate demo_cfg t m demo_layout = Some (r, t', m') \<and> (r = None \<or> (\<exists>ptr. r = Some ptr \<and> 64 dvd ptr))"
proof -
  obtain t :: "(16 word, 16 word) tlsf" and m where I: "tlsf_inv demo_cfg t m demo_pools" using demo_inv by blast
  obtain r t' m' where a: "allocate demo_cfg t m demo_layout = Some (r, t', m')"
      "case r of None \<Rightarrow> True | Some ptr \<Rightarrow> lalign demo_layout dvd ptr"
    using allocate_spec [OF I demo_layout_ok] by (auto split: option.splits)
  then have "r = None \<or> (\<exists>ptr. r = Some ptr \<and> 64 dvd ptr)" by (cases r) (simp_all add: demo_layout_def)
  with I a(1) show ?thesis by blast
qed

text \<open>C6: a free block of at least the size \<open>pool_size_to_contain_allocation\<close> returns, less the
  sentinel block, makes \<open>allocate\<close> succeed.\<close>

theorem pool_size_to_contain_allocation_suffices:
  fixes t :: "('f::len word, 's::len word) tlsf"
  assumes "tlsf_inv c t m ps" and "layout_ok l" and "pool_size_to_contain_allocation c l = Some (Some n)"
    and "(b, z, Free, q) \<in> set (all_entries ps)" and "n \<le> z + GRANULARITY"
  shows "\<exists>ptr t' m'. allocate c t m l = Some (Some ptr, t', m')"
proof -
  obtain fl sl where S: "search_suitable_free_block_list_for_allocation c t (search_size l) = Some (Some (fl, sl))"
    by (rule allocate_contained [OF assms(1-4)]) (use assms(5) in simp)
  show ?thesis by (rule allocate_some [OF assms(1,2) S]) blast
qed

theorem pool_size_to_contain_allocation_suffices_witness:
  "\<exists>(t :: (16 word, 16 word) tlsf) m ptr t' m'. tlsf_inv demo_cfg t m demo_pools \<and>
    allocate demo_cfg t m demo_layout = Some (Some ptr, t', m')"
proof -
  obtain t :: "(16 word, 16 word) tlsf" and m where I: "tlsf_inv demo_cfg t m demo_pools" using demo_inv by blast
  have e: "(4096, 4064, Free, None) \<in> set (all_entries demo_pools)" by (simp add: demo_pools_def)
  have "\<exists>ptr t' m'. allocate demo_cfg t m demo_layout = Some (Some ptr, t', m')"
    by (rule pool_size_to_contain_allocation_suffices [OF I demo_layout_ok demo_pool_size e]) simp
  with I show ?thesis by blast
qed

section \<open>Deallocation and queries\<close>

lemma run_not_live:
  assumes I: "tlsf_inv c t m (plug P s xs ((z, Used ptr al sz) # mid) ys Q)"
  shows "(ptr, al, sz) \<notin> live P \<union> live [(s, xs)] \<union> live [(s, ys)] \<union> live Q"
proof
  let ?ps = "plug P s xs ((z, Used ptr al sz) # mid) ys Q"
  note ok = inv_pools_ok [OF I]
  assume "(ptr, al, sz) \<in> live P \<union> live [(s, xs)] \<union> live [(s, ys)] \<union> live Q"
  then obtain b' z' q' where e': "(b', z', Used ptr al sz, q') \<in> set (all_entries ?ps)"
      "b' \<notin> {s + extent xs ..< s + extent xs + extent ((z, Used ptr al sz) # mid)}" using live_outside [OF ok] by blast
  have e: "(s + extent xs, z, Used ptr al sz, last_addr None s xs) \<in> set (all_entries ?ps)" by (simp add: all_entries_plug)
  have "s + extent xs = b'"
    using entries_disjoint [OF ok e e'(1)] used_entry(11,12) [OF I e] used_entry(11,12) [OF I e'(1)] by auto
  then show False using e'(2) entry_facts [OF ok e] by simp
qed

text \<open>Replacing the run of one allocation and its free neighbours.\<close>

lemma run_live:
  assumes I: "tlsf_inv c t m ps" and ps: "ps = plug P s xs (pre @ (z, Used ptr al sz) # post) ys Q"
    and nb: "free_or_none pre" "free_or_none post" and W: "W = extent pre + z + extent post"
    and mid': "extent mid' = W"
    and ch: "changes_only m m' (link_cells (dom (all_frees c ps)) \<union> {s + extent xs ..< s + extent xs + W} \<union> {s + extent xs + W + 8})"
  shows "live (plug P s xs mid' ys Q) = live [(s, mid')] \<union> (live ps - {(ptr, al, sz)})"
    and "pool_bytes (plug P s xs mid' ys Q) = pool_bytes ps" and "contents_kept m m' (live ps - {(ptr, al, sz)})"
    and "live ps - {(ptr, al, sz)} = live P \<union> live [(s, xs)] \<union> live [(s, ys)] \<union> live Q"
    and "spans (plug P s xs mid' ys Q) = spans ps" and "untouched m m' ps" and "cells_kept m m' (live ps - {(ptr, al, sz)})"
proof -
  let ?mid = "pre @ (z, Used ptr al sz) # post"
  note ok = inv_pools_ok [OF I]
  have mid: "?mid \<noteq> []" "list_all blk_ok ?mid"
    by simp (rule run_blk_ok [OF ok [unfolded ps]], use nb in \<open>auto simp: free_or_none_def\<close>)
  have x: "extent ?mid = W" by (simp add: W)
  have lp: "live ps = live P \<union> live [(s, xs)] \<union> {(ptr, al, sz)} \<union> live [(s, ys)] \<union> live Q"
    using nb by (auto simp: ps live_plug)
  have out: "\<exists>b' z' q'. (b', z', Used p a n, q') \<in> set (all_entries ps) \<and> b' \<notin> {s + extent xs ..< s + extent xs + extent ?mid}"
    if n: "(p, a, n) \<in> live P \<union> live [(s, xs)] \<union> live [(s, ys)] \<union> live Q" for p a n
    using live_outside [OF ok [unfolded ps] n] by (simp only: ps)
  have "ps = plug P s (xs @ pre) ((z, Used ptr al sz) # post) ys Q" by (simp add: ps plug_def)
  from run_not_live [OF I [unfolded this]] have "(ptr, al, sz) \<notin> live P \<union> live [(s, xs)] \<union> live [(s, ys)] \<union> live Q" by simp
  then show "live (plug P s xs mid' ys Q) = live [(s, mid')] \<union> (live ps - {(ptr, al, sz)})"
    and "live ps - {(ptr, al, sz)} = live P \<union> live [(s, xs)] \<union> live [(s, ys)] \<union> live Q" by (auto simp: lp live_plug)
  show "pool_bytes (plug P s xs mid' ys Q) = pool_bytes ps" unfolding ps by (rule pool_bytes_plug) (simp add: mid' W)
  show "spans (plug P s xs mid' ys Q) = spans ps" unfolding ps by (rule spans_plug) (simp add: mid' W)
  show "untouched m m' ps" by (rule run_untouched [OF ok ps mid x [symmetric] ch])
  show ck: "cells_kept m m' (live ps - {(ptr, al, sz)})"
  proof (rule run_cells [OF I ps mid])
    show "\<exists>b z q. (b, z, Used p a n, q) \<in> set (all_entries ps) \<and> b \<notin> {s + extent xs ..< s + extent xs + extent ?mid}"
      if "(p, a, n) \<in> live ps - {(ptr, al, sz)}" for p a n
      using that by (intro out) (auto simp: lp)
  qed (use ch in \<open>simp only: x\<close>)
  show "contents_kept m m' (live ps - {(ptr, al, sz)})" by (rule cells_kept_contents [OF I ck]) blast
qed

lemma deallocate_live:
  fixes t :: "('f::len word, 's::len word) tlsf"
  assumes I: "tlsf_inv c t m ps" and x: "(ptr, al, sz) \<in> live ps"
  obtains t' m' ps' where "deallocate c t m ptr al = Some (t', m')" and "deallocate_unknown_align c t m ptr = Some (t', m')"
    and "tlsf_inv c t' m' ps'" and "live ps' = live ps - {(ptr, al, sz)}" and "pool_bytes ps' = pool_bytes ps"
    and "contents_kept m m' (live ps - {(ptr, al, sz)})" and "spans ps' = spans ps" and "untouched m m' ps"
    and "cells_kept m m' (live ps - {(ptr, al, sz)})"
proof -
  obtain b z q where e: "(b, z, Used ptr al sz, q) \<in> set (all_entries ps)" using x live_entry by metis
  obtain P s xs pre post ys Q t' m' where d: "ps = plug P s xs (pre @ (z, Used ptr al sz) # post) ys Q"
      "b = s + extent xs + extent pre" "free_or_none pre" "free_or_none post" "deallocate_block c t m b = Some (t', m')"
      "tlsf_inv c t' m' (plug P s xs [(extent pre + z + extent post, Free)] ys Q)"
      "changes_only m m' (link_cells (dom (all_frees c ps)) \<union>
        {s + extent xs ..< s + extent xs + (extent pre + z + extent post)} \<union> {s + extent xs + (extent pre + z + extent post) + 8})"
    by (rule deallocate_used [OF I e])
  note rl = run_live [OF I d(1,3,4) refl _ d(7), of "[(extent pre + z + extent post, Free)]"]
  show thesis
  proof (rule that [OF _ _ d(6)])
    show "deallocate c t m ptr al = Some (t', m')" by (simp add: deallocate_def lookup_known [OF I e] d(5))
    show "deallocate_unknown_align c t m ptr = Some (t', m')"
      by (simp add: deallocate_unknown_align_def lookup_unknown [OF I e] d(5))
  qed (use rl in simp_all)
qed

text \<open>C2: \<open>deallocate\<close> of a live allocation never faults; exactly that allocation disappears,
  the contents of the others are kept and the invariant holds again, so the freed space is merged with
  its free neighbours.\<close>

theorem deallocate_spec:
  fixes t :: "('f::len word, 's::len word) tlsf"
  assumes "tlsf_inv c t m ps" and "(ptr, al, sz) \<in> live ps"
  shows "\<exists>t' m' ps'. deallocate c t m ptr al = Some (t', m') \<and> tlsf_inv c t' m' ps' \<and>
    live ps' = live ps - {(ptr, al, sz)} \<and> pool_bytes ps' = pool_bytes ps \<and>
    contents_kept m m' (live ps - {(ptr, al, sz)})"
  by (rule deallocate_live [OF assms]) blast

theorem deallocate_spec_witness:
  "\<exists>(t :: (16 word, 16 word) tlsf) m ps ptr t' m' ps'. tlsf_inv demo_cfg t m ps \<and> (ptr, 64, 100) \<in> live ps \<and>
    deallocate demo_cfg t m ptr 64 = Some (t', m') \<and> live ps' = live ps - {(ptr, 64, 100)}"
proof -
  obtain t :: "(16 word, 16 word) tlsf" and m ps ptr where d: "tlsf_inv demo_cfg t m ps" "(ptr, 64, 100) \<in> live ps"
    using demo_used by blast
  obtain t' m' ps' where "deallocate demo_cfg t m ptr 64 = Some (t', m')" "live ps' = live ps - {(ptr, 64, 100)}"
    using deallocate_spec [OF d] by (elim exE conjE)
  with d show ?thesis by (intro exI conjI)
qed

text \<open>C7: on a live allocation \<open>deallocate_unknown_align\<close> does what \<open>deallocate\<close> does
  with the alignment the allocation was made with.\<close>

theorem deallocate_unknown_align_eq:
  fixes t :: "('f::len word, 's::len word) tlsf"
  assumes "tlsf_inv c t m ps" and "(ptr, al, sz) \<in> live ps"
  shows "deallocate_unknown_align c t m ptr = deallocate c t m ptr al"
  by (rule deallocate_live [OF assms]) simp

theorem deallocate_unknown_align_eq_witness:
  "\<exists>(t :: (16 word, 16 word) tlsf) m ps ptr. tlsf_inv demo_cfg t m ps \<and> (ptr, 64, 100) \<in> live ps \<and>
    deallocate_unknown_align demo_cfg t m ptr = deallocate demo_cfg t m ptr 64"
proof -
  obtain t :: "(16 word, 16 word) tlsf" and m ps ptr where d: "tlsf_inv demo_cfg t m ps" "(ptr, 64, 100) \<in> live ps"
    using demo_used by blast
  show ?thesis using d deallocate_unknown_align_eq [OF d] by (intro exI conjI)
qed

text \<open>C8: \<open>size_of_allocation\<close> and \<open>allocation_usable_size\<close> agree on a live
  allocation; the size they return is at least the size requested, and the bytes up to it belong to the
  pools and to no other allocation.\<close>

theorem size_of_allocation_spec:
  fixes t :: "('f::len word, 's::len word) tlsf"
  assumes I: "tlsf_inv c t m ps" and x: "(ptr, al, sz) \<in> live ps"
  shows "\<exists>n. size_of_allocation m ptr al = Some n \<and> allocation_usable_size m ptr = Some n \<and> sz \<le> n \<and>
    {ptr ..< ptr + n} \<subseteq> pool_bytes ps \<and>
    (\<forall>y. y \<in> live ps - {(ptr, al, sz)} \<longrightarrow> separate (ptr, al, n) y)"
proof -
  obtain b z q where e: "(b, z, Used ptr al sz, q) \<in> set (all_entries ps)" using x live_entry by metis
  note ok = inv_pools_ok [OF I] and u = used_entry [OF I e]
  have n: "sz \<le> b + z - ptr" "ptr + (b + z - ptr) = b + z" using u(12) by linarith+
  have "{ptr ..< b + z} \<subseteq> {b ..< b + z}" using u(11) by auto
  then have "{ptr ..< b + z} \<subseteq> pool_bytes ps"
    using entry_in_range [OF ok e] unfolding pool_bytes_def by blast
  moreover have "separate (ptr, al, b + z - ptr) y" if y: "y \<in> live ps - {(ptr, al, sz)}" for y
  proof -
    obtain p a k where yy: "y = (p, a, k)" by (metis surj_pair)
    then obtain b' z' q' where e': "(b', z', Used p a k, q') \<in> set (all_entries ps)" using y live_entry by (metis DiffD1)
    have "b + z \<le> b' \<or> b' + z' \<le> b" using entries_disjoint [OF ok e e'] y yy by auto
    then show ?thesis using u(11,12) used_entry(11,12) [OF I e'] by (auto simp: separate_def yy)
  qed
  ultimately show ?thesis using n lookup_known [OF I e] lookup_unknown [OF I e] payload_size_ok [OF I e]
    by (intro exI [of _ "b + z - ptr"])
      (simp add: size_of_allocation_def allocation_usable_size_def size_of_allocation_unknown_align_def)
qed

theorem size_of_allocation_spec_witness:
  "\<exists>(t :: (16 word, 16 word) tlsf) m ps ptr n. tlsf_inv demo_cfg t m ps \<and> (ptr, 64, 100) \<in> live ps \<and>
    size_of_allocation m ptr 64 = Some n \<and> 100 \<le> n"
proof -
  obtain t :: "(16 word, 16 word) tlsf" and m ps ptr where d: "tlsf_inv demo_cfg t m ps" "(ptr, 64, 100) \<in> live ps"
    using demo_used by blast
  obtain n where "size_of_allocation m ptr 64 = Some n" "100 \<le> n"
    using size_of_allocation_spec [OF d] by (elim exE conjE)
  with d show ?thesis by (intro exI conjI)
qed

end
