(* ===== verification/Allocator_Pool.thy ===== *)
theory Allocator_Pool
  imports Allocator
begin

text \<open>
  Adding memory as clients see it: \<open>insert_free_block_ptr\<close> and \<open>append_free_block_ptr\<close>
  make the bytes they use part of the pools and leave the live allocations, the memory outside the
  pools and the unused ends of the other pools alone.
\<close>

section \<open>Adding memory\<close>

lemma live_add_pools: "live (add_pools c s n ps) = live ps"
proof (induction c s n ps rule: add_pools.induct)
  case (1 c s n ps)
  then show ?case by (subst add_pools.simps) (auto simp: live_def blocks_of_def)
qed

lemma pool_bytes_add_pools:
  assumes "cfg_ok c" "32 dvd n"
  shows "pool_bytes (add_pools c s n ps) = pool_bytes ps \<union> {s ..< s + (n - left_over c n)}"
  using assms
proof (induction c s n ps rule: add_pools.induct)
  case (1 c s n ps)
  show ?case
  proof (cases "n < 64")
    case True
    then show ?thesis by (simp add: add_pools.simps [of c s n] left_over.simps [of c n])
  next
    case False
    let ?k = "chunk_size c n"
    have n: "64 \<le> n" using False by simp
    note k = chunk_facts [OF "1.prems"(1,2) n] and kle = chunk_size_le [of c n]
    have d: "32 dvd n - ?k" using "1.prems"(2) k(1) by (simp add: dvd_diff_nat)
    have lo: "left_over c n = left_over c (n - ?k)" using n by (simp add: left_over.simps [of c n])
    have "pool_bytes (add_pools c s n ps) =
        pool_bytes ((s, [(?k - 32, Free), (32, Sentinel)]) # ps) \<union> {s + ?k ..< s + ?k + (n - ?k - left_over c (n - ?k))}"
      using "1.IH" [OF False "1.prems"(1) d] n by (simp add: add_pools.simps [of c s n])
    moreover have "pool_range (s, [(?k - 32, Free), (32, Sentinel)]) = {s ..< s + ?k}"
      using k(2) by (simp add: pool_range_def)
    moreover have "{s ..< s + ?k} \<union> {s + ?k ..< s + ?k + (n - ?k - left_over c (n - ?k))} = {s ..< s + (n - left_over c n)}"
      using kle left_over_bounds [of c "n - ?k"] lo by (auto simp: ivl_disj_un)
    ultimately show ?thesis by (auto simp: pool_bytes_def)
  qed
qed

lemma left_over_granule:
  assumes "cfg_ok c" "32 dvd n"
  shows "left_over c n \<le> 32 \<and> 32 dvd left_over c n"
  using assms
proof (induction c n rule: left_over.induct)
  case (1 c n)
  show ?case
  proof (cases "n < 64")
    case True
    with "1.prems"(2) have "n \<le> 32" by (auto elim!: dvdE)
    with True "1.prems"(2) show ?thesis by (simp add: left_over.simps [of c n])
  next
    case False
    then have "32 dvd n - chunk_size c n" using "1.prems" chunk_facts(1) [of c n] by (simp add: dvd_diff_nat)
    with False "1.IH" "1.prems"(1) show ?thesis by (simp add: left_over.simps [of c n])
  qed
qed

lemma left_over_chunk: "64 \<le> n \<Longrightarrow> left_over c n \<le> n - chunk_size c n"
  using left_over_bounds [of c "n - chunk_size c n"] by (simp add: left_over.simps [of c n])

lemma left_over_unbounded: "MAX_POOL_SIZE c = None \<Longrightarrow> 64 \<le> n \<Longrightarrow> left_over c n = 0"
  using left_over_chunk [of n c] by (simp add: chunk_size_def)

lemma region_used_kept:
  assumes I: "tlsf_inv c t m ps" and ch: "changes_only m m' (link_cells (dom (all_frees c ps)) \<union> R)"
    and R: "\<And>b z p a n q. (b, z, Used p a n, q) \<in> set (all_entries ps) \<Longrightarrow> {p ..< b + z} \<inter> R = {}"
    and E: "\<And>b z p a n q. (b, z, Used p a n, q) \<in> set (all_entries ps) \<Longrightarrow> (b, z, Used p a n, q) \<in> set (all_entries ps')"
  shows "used_kept m m' ps ps'"
  unfolding used_kept_def
proof (intro allI impI conjI)
  fix b z p al n q x assume e: "(b, z, Used p al n, q) \<in> set (all_entries ps)"
  then show "\<exists>q. (b, z, Used p al n, q) \<in> set (all_entries ps')" using E by blast
  assume x: "p \<le> x \<and> x < b + z"
  then have "x \<in> protected (b, z, Used p al n, q)" using used_entry(11) [OF I e] by auto
  then have "x \<notin> link_cells (dom (all_frees c ps))" using links_not_protected [OF inv_pools_ok [OF I] e] by blast
  moreover have "x \<notin> R" using R [OF e] x by auto
  ultimately show "m' x = m x" using ch by (simp add: changes_only_def)
qed

lemma in_all_entries: "(s, xs) \<in> set ps \<Longrightarrow> e \<in> set (entries None s xs) \<Longrightarrow> e \<in> set (all_entries ps)"
  by (induction ps rule: all_entries.induct) auto

lemma all_entries_sub: "set ps \<subseteq> set ps' \<Longrightarrow> set (all_entries ps) \<subseteq> set (all_entries ps')"
  using all_entries_in_pool [of _ ps] in_all_entries [of _ _ ps'] by blast

lemma fresh_used:
  assumes I: "tlsf_inv c t m ps" and "fresh m ps s n" and "(b, z, Used p a k, q) \<in> set (all_entries ps)"
  shows "{p ..< b + z} \<inter> {s ..< s + n} = {}"
proof -
  have "{p ..< b + z} \<subseteq> {b ..< b + z}" using used_entry(11) [OF I assms(3)] by auto
  then show ?thesis using entry_in_range [OF inv_pools_ok [OF I] assms(3)] fresh_disjoint [OF assms(2)] by blast
qed

definition pool_ends :: "pool list \<Rightarrow> usize set" where
  "pool_ends ps = {s + n | s n. (s, n) \<in> set (spans ps)}"

text \<open>The effect of adding the bytes from \<open>a\<close> to \<open>e\<close>: they join the pools, a pool now ends at \<open>e\<close>, and
  no memory outside the pools and no end of a pool is written, the ends in \<open>E\<close> apart.\<close>

definition grown :: "mem \<Rightarrow> mem \<Rightarrow> pool list \<Rightarrow> pool list \<Rightarrow> usize \<Rightarrow> usize \<Rightarrow> usize set \<Rightarrow> bool" where
  "grown m m' ps ps' a e E \<longleftrightarrow> live ps' = live ps \<and> used_kept m m' ps ps' \<and>
     pool_bytes ps' = pool_bytes ps \<union> {a ..< e} \<and> e \<in> pool_ends ps' \<and>
     tail_space ps - E \<subseteq> tail_space ps' \<and> dom m' = dom m \<and>
     (\<forall>x. x \<notin> pool_bytes ps' \<or> x \<in> {e - 16 ..< e} \<union> (tail_space ps - E) \<longrightarrow> m' x = m x)"

lemma tail_in_pools:
  assumes ok: "pools_ok c ps"
  shows "tail_space ps \<subseteq> pool_bytes ps"
proof
  fix x assume "x \<in> tail_space ps"
  then obtain b q where "(b, 32, Sentinel, q) \<in> set (all_entries ps)" "b + 16 \<le> x" "x < b + 32" by (rule tail_entry [OF ok])
  then show "x \<in> pool_bytes ps" using entry_pool_bytes [OF ok] by fastforce
qed

lemma grownI:
  assumes I: "tlsf_inv c t m ps" and fr: "fresh m ps a (e - a)"
    and ch: "changes_only m m' (link_cells (dom (all_frees c ps)) \<union> R)" and R: "R \<subseteq> {a ..< e - 16} \<union> R'"
    and R': "\<And>x. x \<in> R' \<Longrightarrow> x \<in> pool_bytes ps \<and> (x \<in> tail_space ps \<longrightarrow> x \<in> E)"
    and R'': "\<And>b z p al n q. (b, z, Used p al n, q) \<in> set (all_entries ps) \<Longrightarrow> {p ..< b + z} \<inter> R' = {}"
    and E: "\<And>b z p al n q. (b, z, Used p al n, q) \<in> set (all_entries ps) \<Longrightarrow> (b, z, Used p al n, q) \<in> set (all_entries ps')"
    and lv: "live ps' = live ps" and pb: "pool_bytes ps' = pool_bytes ps \<union> {a ..< e}"
    and sp: "e \<in> pool_ends ps'" and ts: "tail_space ps - E \<subseteq> tail_space ps'"
    and ae: "a + 16 \<le> e"
  shows "grown m m' ps ps' a e E"
proof -
  note ok = inv_pools_ok [OF I]
  have new: "x \<notin> pool_bytes ps" if "x \<in> {a ..< e}" for x
    using fresh_disjoint [OF fr] that ae by (fastforce simp: pool_bytes_def)
  have "used_kept m m' ps ps'"
  proof (rule region_used_kept [OF I changes_only_mono [OF ch]])
    show "{p ..< b + z} \<inter> ({a ..< e} \<union> R') = {}" if "(b, z, Used p al n, q) \<in> set (all_entries ps)" for b z p al n q
      using fresh_used [OF I fr that] R'' [OF that] ae by auto
    have "R \<subseteq> {a ..< e} \<union> R'" using R by fastforce
    then show "link_cells (dom (all_frees c ps)) \<union> R \<subseteq> link_cells (dom (all_frees c ps)) \<union> ({a ..< e} \<union> R')" by blast
  qed (rule E)
  moreover have "m' x = m x" if x: "x \<notin> pool_bytes ps' \<or> x \<in> {e - 16 ..< e} \<union> (tail_space ps - E)" for x
  proof -
    have end_new: "x \<in> {a ..< e}" if "x \<in> {e - 16 ..< e}" using that ae by auto
    have "x \<notin> pool_bytes ps \<or> x \<in> tail_space ps" using x new [of x] end_new by (auto simp: pb)
    then have "x \<notin> link_cells (dom (all_frees c ps))" by (rule links_untouched [OF ok])
    moreover have "x \<notin> {a ..< e - 16}" using x new [of x] tail_in_pools [OF ok] by (fastforce simp: pb)
    moreover have "x \<notin> R'" using x R' [of x] new [of x] end_new by (auto simp: pb)
    ultimately have "x \<notin> link_cells (dom (all_frees c ps)) \<union> R" using R by blast
    then show ?thesis using ch by (simp add: changes_only_def)
  qed
  ultimately show ?thesis using lv pb sp ts ch unfolding grown_def by (simp add: changes_only_def)
qed

text \<open>The pools the loop of \<open>insert_free_block_ptr_aligned\<close> adds.\<close>

lemma set_add_pools: "set ps \<subseteq> set (add_pools c s n ps)"
proof (induction c s n ps rule: add_pools.induct)
  case (1 c s n ps)
  then show ?case by (cases "n < 64") (auto simp: add_pools.simps [of c s n])
qed

lemma first_add_pool: "64 \<le> n \<Longrightarrow> (s, [(chunk_size c n - 32, Free), (32, Sentinel)]) \<in> set (add_pools c s n ps)"
  using set_add_pools [of "(s, [(chunk_size c n - 32, Free), (32, Sentinel)]) # ps" c] by (subst add_pools.simps) auto

lemma add_pools_free:
  assumes u: "64 \<le> u" "n \<le> u" and n: "\<forall>mx. MAX_POOL_SIZE c = Some mx \<longrightarrow> n \<le> mx"
  shows "\<exists>b z q. (b, z, Free, q) \<in> set (all_entries (add_pools c s u ps)) \<and> n \<le> z + 32"
proof (intro exI conjI)
  show "(s, chunk_size c u - 32, Free, None) \<in> set (all_entries (add_pools c s u ps))"
    by (rule in_all_entries [OF first_add_pool [OF u(1)]]) simp
  have "n \<le> chunk_size c u" using u(2) n by (simp add: chunk_size_def split: option.splits)
  then show "n \<le> chunk_size c u - 32 + 32" by simp
qed

lemma last_add_pool:
  assumes "cfg_ok c" "32 dvd n" "64 \<le> n"
  shows "s + (n - left_over c n) \<in> pool_ends (add_pools c s n ps)"
  using assms
proof (induction c s n ps rule: add_pools.induct)
  case (1 c s n ps)
  let ?k = "chunk_size c n"
  note k = chunk_facts [OF "1.prems"] and kle = chunk_size_le [of c n]
  have d: "32 dvd n - ?k" using "1.prems"(2) k(1) by (simp add: dvd_diff_nat)
  have lo: "left_over c n = left_over c (n - ?k)" using "1.prems"(3) by (simp add: left_over.simps [of c n])
  show ?case
  proof (cases "64 \<le> n - ?k")
    case True
    have "s + ?k + (n - ?k - left_over c (n - ?k)) = s + (n - left_over c n)"
      using kle lo left_over_bounds [of c "n - ?k"] by linarith
    moreover have n: "\<not> n < 64" using "1.prems"(3) by simp
    moreover have "add_pools c s n ps = add_pools c (s + ?k) (n - ?k) ((s, [(?k - 32, Free), (32, Sentinel)]) # ps)"
      using n by (simp add: add_pools.simps [of c s n])
    ultimately show ?thesis using "1.IH" [OF n "1.prems"(1) d True] by metis
  next
    case False
    then have "left_over c n = n - ?k" using lo by (simp add: left_over.simps [of c "n - ?k"])
    then have "s + (n - left_over c n) = s + (?k - 32 + 32)" using k(2) kle by simp
    moreover have "(s, ?k - 32 + 32) \<in> set (spans (add_pools c s n ps))"
      using first_add_pool [OF "1.prems"(3), of s c ps] by (force simp: spans_def)
    ultimately show ?thesis unfolding pool_ends_def by blast
  qed
qed

lemma add_pools_grown:
  assumes I: "tlsf_inv c t m ps" and n: "32 dvd n" "64 \<le> n" and fr: "fresh m ps s n"
    and ch: "changes_only m m' (link_cells (dom (all_frees c ps)) \<union> {s ..< s + (n - left_over c n) - 16})"
  shows "grown m m' ps (add_pools c s n ps) s (s + (n - left_over c n)) {}"
proof (rule grownI [OF I _ ch, where R' = "{}"])
  note lo = left_over_bounds [of c n]
  note c = inv_cfg_ok [OF I]
  show "fresh m ps s (s + (n - left_over c n) - s)" using lo by (intro fresh_sub [OF fr]) simp_all
  show "pool_bytes (add_pools c s n ps) = pool_bytes ps \<union> {s ..< s + (n - left_over c n)}"
    by (rule pool_bytes_add_pools [OF c n(1)])
  show "s + (n - left_over c n) \<in> pool_ends (add_pools c s n ps)" by (rule last_add_pool [OF c n])
  show "tail_space ps - {} \<subseteq> tail_space (add_pools c s n ps)"
    using set_add_pools [of ps c s n] by (auto simp: tail_space_def spans_def)
  show "s + 16 \<le> s + (n - left_over c n)" using left_over_chunk [OF n(2), of c] chunk_facts(2) [OF c n] chunk_size_le [of c n] by linarith
  show "(b, z, Used p al k, q) \<in> set (all_entries (add_pools c s n ps))" if "(b, z, Used p al k, q) \<in> set (all_entries ps)" for b z p al k q
    using all_entries_sub [OF set_add_pools] that by blast
qed (simp_all add: live_add_pools)

lemma insert_grown:
  fixes t :: "('f::len word, 's::len word) tlsf"
  assumes I: "tlsf_inv c t m ps" and blk: "0 < fst blk" "fst blk < USIZE_LIM" "fst blk + snd blk \<le> USIZE_LIM"
    and fr: "fresh m ps (fst blk) (snd blk)" and large: "(round_up 32 (fst blk) - fst blk) + 64 \<le> snd blk"
  defines "s \<equiv> round_up 32 (fst blk)" and "u \<equiv> usable_len blk"
  obtains n t' m' where "insert_free_block_ptr c t m blk = Some (Some n, t', m')" and "tlsf_inv c t' m' (add_pools c s u ps)"
    and "n \<le> snd blk" and "snd blk < n + 64" and "fst blk + n = s + (u - left_over c u)"
    and "grown m m' ps (add_pools c s u ps) s (fst blk + n) {}" and "32 dvd u" and "64 \<le> u"
    and "snd blk < u + (s - fst blk) + 32"
proof -
  obtain t' m' where r: "insert_free_block_ptr c t m blk = Some (Some (s - fst blk + (u - left_over c u)), t', m')"
      "tlsf_inv c t' m' (add_pools c s u ps)"
      "changes_only m m' (link_cells (dom (all_frees c ps)) \<union> {s ..< s + (u - left_over c u) - 16})"
    unfolding s_def u_def by (rule insert_large [OF assms(1-6)])
  have s: "fst blk \<le> s" using round_up_32 by (simp add: s_def)
  have le: "s - fst blk \<le> snd blk" using large s_def by linarith
  note uf = usable_len_facts [OF blk(3) le [unfolded s_def] blk(1), folded s_def u_def]
  have u: "snd blk - (s - fst blk) < u + 32" unfolding u_def usable_len_def s_def
    using div_mult_mod_eq [of "snd blk - (round_up 32 (fst blk) - fst blk)" 32]
    by (metis add_less_cancel_left mod_less_divisor zero_less_numeral)
  have u64: "64 \<le> u" using large by (intro uf(4)) (simp add: s_def)
  have "fresh m ps s u" using uf(1) s le by (intro fresh_sub [OF fr]) linarith+
  from add_pools_grown [OF I uf(2) u64 this r(3)]
  have "grown m m' ps (add_pools c s u ps) s (fst blk + (s - fst blk + (u - left_over c u))) {}" using s by simp
  then show thesis using u uf(1,2) u64 s le left_over_bounds [of c u] left_over_granule [OF inv_cfg_ok [OF I] uf(2)]
    by (intro that [OF r(1,2)]) linarith+
qed

text \<open>C4: \<open>insert_free_block_ptr\<close> never faults on memory the allocator does not own yet. It
  returns \<open>None\<close> and does nothing when the aligned part of the block is shorter than two
  granules; otherwise it returns the number of bytes used, counted from the start of the block, all but
  less than two granules of it, and exactly the bytes of the aligned part up to it join the pools.\<close>

theorem insert_free_block_ptr_spec:
  fixes t :: "('f::len word, 's::len word) tlsf"
  assumes "tlsf_inv c t m ps" and "0 < fst blk" and "fst blk < USIZE_LIM" and "fst blk + snd blk \<le> USIZE_LIM"
    and "fresh m ps (fst blk) (snd blk)"
  shows "if snd blk < (round_up 32 (fst blk) - fst blk) + 64
    then insert_free_block_ptr c t m blk = Some (None, t, m)
    else \<exists>n t' m' ps'. insert_free_block_ptr c t m blk = Some (Some n, t', m') \<and> tlsf_inv c t' m' ps' \<and>
      n \<le> snd blk \<and> snd blk < n + 64 \<and> live ps' = live ps \<and>
      pool_bytes ps' = pool_bytes ps \<union> {round_up 32 (fst blk) ..< fst blk + n} \<and> contents_kept m m' (live ps)"
proof (cases "snd blk < (round_up 32 (fst blk) - fst blk) + 64")
  case True
  then show ?thesis using insert_small [OF assms(2-4)] by simp
next
  case False
  then have "(round_up 32 (fst blk) - fst blk) + 64 \<le> snd blk" by simp
  then show ?thesis by (rule insert_grown [OF assms]) (use False used_kept_contents [OF assms(1)] in \<open>auto simp: grown_def\<close>)
qed

theorem insert_free_block_ptr_spec_witness:
  "\<exists>n (t' :: (16 word, 16 word) tlsf) m' ps'.
    insert_free_block_ptr demo_cfg (tlsf_new demo_cfg :: (16 word, 16 word) tlsf) demo_mem (4096, 4096) = Some (Some n, t', m') \<and>
    tlsf_inv demo_cfg t' m' ps' \<and> 4000 < n"
proof -
  have new: "tlsf_inv demo_cfg (tlsf_new demo_cfg :: (16 word, 16 word) tlsf) demo_mem []"
    using demo_cfg_ok by (rule tlsf_new_inv) (simp_all add: demo_cfg_def)
  have "\<exists>n (t' :: (16 word, 16 word) tlsf) m' ps'.
      insert_free_block_ptr demo_cfg (tlsf_new demo_cfg) demo_mem (4096, 4096) = Some (Some n, t', m') \<and>
      tlsf_inv demo_cfg t' m' ps' \<and> 4096 < n + 64"
    using insert_free_block_ptr_spec [OF new, of "(4096, 4096)"] demo_fresh
    by (auto simp: demo_round_up USIZE_LIM_def)
  then show ?thesis by (elim exE conjE) (intro exI conjI, assumption+, simp)
qed

section \<open>Extending a pool\<close>

lemma pool_end_shape:
  assumes "pools_ok c ps" and "(s, bs) \<in> set ps"
  obtains us where "bs = us @ [(32, Sentinel)]" and "us \<noteq> []" and "list_all blk_ok us"
proof -
  have "pool_ok c (s, bs)" using assms by (auto simp: pools_ok_def list_all_iff)
  then show thesis using that by (auto simp: pool_ok_def shape_def)
qed

lemma kept_blocks_facts:
  assumes "bs = us @ [(32, Sentinel)]" and "us \<noteq> []"
  shows "extent (kept_blocks bs) \<le> extent us" and "extent (grow_tail bs len) = extent bs + len"
    and "live [(s, grow_tail bs len)] = live [(s, bs)]"
    and "\<exists>xs. bs = kept_blocks bs @ xs @ [(32, Sentinel)] \<and> free_or_none xs"
    and "\<exists>z. grow_tail bs len = kept_blocks bs @ [(z, Free), (32, Sentinel)] \<and> len \<le> z"
proof -
  obtain xs z k where u: "us = xs @ [(z, k)]" using assms(2) by (metis rev_exhaust surj_pair)
  have sen: "live [(s, [(32, Sentinel)])] = {}" by (simp add: live_def blocks_of_def)
  have b: "butlast bs = xs @ [(z, k)]" "last us = (z, k)" by (simp_all add: assms(1) u butlast_append)
  have kb: "kept_blocks bs = (if k = Free then xs else xs @ [(z, k)])"
    and gt: "grow_tail bs len = kept_blocks bs @ [(if k = Free then z + len else len, Free), (32, Sentinel)]"
    by (simp_all add: kept_blocks_def grow_tail_def b)
  have bs: "bs = xs @ [(z, k)] @ [(32, Sentinel)]" by (simp add: assms(1) u)
  show "extent (kept_blocks bs) \<le> extent us" "extent (grow_tail bs len) = extent bs + len" unfolding gt kb by (simp_all add: bs u)
  show "live [(s, grow_tail bs len)] = live [(s, bs)]" unfolding gt kb by (simp add: sen bs del: append.simps append_assoc)
  show "\<exists>xs. bs = kept_blocks bs @ xs @ [(32, Sentinel)] \<and> free_or_none xs" unfolding kb
    by (rule exI [of _ "if k = Free then [(z, k)] else []"]) (simp add: free_or_none_def bs)
  show "\<exists>z. grow_tail bs len = kept_blocks bs @ [(z, Free), (32, Sentinel)] \<and> len \<le> z" unfolding gt by auto
qed

lemma live_mid: "live (P @ (s, xs) # Q) = live P \<union> live [(s, xs)] \<union> live Q"
  by (auto simp: live_def blocks_of_def image_iff)

text \<open>Where the blocks are that an extension does not touch.\<close>

lemma append_outside:
  assumes ok: "pools_ok c (plug P s us (xs @ [(32, Sentinel)]) [] Q)" and xs: "free_or_none xs"
    and e: "(b, z, k, q) \<in> set (all_entries (plug P s us (xs @ [(32, Sentinel)]) [] Q))" "k \<noteq> Free"
  shows "b + z \<le> s + extent us \<or> s + extent us + extent xs + 32 \<le> b \<or> k = Sentinel \<and> b + 32 = s + extent us + extent xs + 32"
proof (cases "(b, z, k, q) \<in> set (entries (last_addr None s us) (s + extent us) (xs @ [(32, Sentinel)]))")
  case True
  then show ?thesis using xs e(2) by (auto simp: free_or_none_def)
next
  case False
  then show ?thesis using plug_outside [OF ok, of b z k q] e(1) by (auto simp: all_entries_plug)
qed

lemma append_grown:
  fixes t :: "('f::len word, 's::len word) tlsf"
  assumes I: "tlsf_inv c t m ps" and ps: "ps = P @ (s, bs) # Q" and mx: "MAX_POOL_SIZE c = None"
    and blk: "fst blk = s + extent bs" "fst blk + snd blk \<le> USIZE_LIM" "32 \<le> snd blk"
    and fr: "fresh m ps (fst blk) (snd blk)"
  defines "len \<equiv> snd blk div 32 * 32"
  obtains t' m' z where "append_free_block_ptr c t m blk = Some (len, t', m')"
    and "tlsf_inv c t' m' (P @ (s, kept_blocks bs @ [(z, Free), (32, Sentinel)]) # Q)" and "len \<le> z"
    and "grown m m' ps (P @ (s, kept_blocks bs @ [(z, Free), (32, Sentinel)]) # Q) (fst blk) (fst blk + len) {fst blk - 16 ..< fst blk}"
proof -
  note ok = inv_pools_ok [OF I]
  have in_ps: "(s, bs) \<in> set ps" by (simp add: ps)
  obtain us where us: "bs = us @ [(32, Sentinel)]" "us \<noteq> []" by (rule pool_end_shape [OF ok in_ps])
  note kb = kept_blocks_facts [OF us]
  obtain t' m' where r: "append_free_block_ptr c t m blk = Some (len, t', m')" "tlsf_inv c t' m' (P @ (s, grow_tail bs len) # Q)"
      "changes_only m m' (link_cells (dom (all_frees c ps)) \<union> {s + extent (kept_blocks bs) ..< fst blk + len - 16})"
    unfolding len_def by (rule append_unbounded [OF assms(1-7)])
  obtain z where gt: "grow_tail bs len = kept_blocks bs @ [(z, Free), (32, Sentinel)]" and z: "len \<le> z" using kb(5) by blast
  let ?ps = "P @ (s, grow_tail bs len) # Q" and ?d = "s + extent (kept_blocks bs)"
  obtain xs where xs: "bs = kept_blocks bs @ xs @ [(32, Sentinel)]" "free_or_none xs" using kb(4) by blast
  have pl: "ps = plug P s (kept_blocks bs) (xs @ [(32, Sentinel)]) [] Q" using xs(1) by (simp add: ps plug_def)
  have "extent bs = extent (kept_blocks bs) + (extent xs + 32)" using arg_cong [OF xs(1), of extent] by simp
  then have d: "fst blk = ?d + extent xs + 32" using blk(1) by simp
  have out: "b + z \<le> ?d \<or> fst blk \<le> b \<or> k = Sentinel \<and> b + 32 = fst blk"
    if "(b, z, k, q) \<in> set (all_entries ps)" "k \<noteq> Free" for b z k q
    unfolding d by (rule append_outside [OF ok [unfolded pl] xs(2) that [unfolded pl]])
  have len: "32 \<le> len" "len \<le> snd blk" unfolding len_def using blk(3) by auto
  have "grown m m' ps ?ps (fst blk) (fst blk + len) {fst blk - 16 ..< fst blk}"
  proof (rule grownI [OF I _ r(3), where R' = "{?d ..< fst blk}"])
    show "fresh m ps (fst blk) (fst blk + len - fst blk)" using len by (intro fresh_sub [OF fr]) simp_all
    show "{?d ..< fst blk + len - 16} \<subseteq> {fst blk ..< fst blk + len - 16} \<union> {?d ..< fst blk}" by auto
    show "live ?ps = live ps" by (simp only: ps live_mid kb(3))
    show "pool_bytes ?ps = pool_bytes ps \<union> {fst blk ..< fst blk + len}"
      using blk(1) kb(2) by (auto simp: ps pool_bytes_def pool_range_def)
    have "(s, extent (grow_tail bs len)) \<in> set (spans ?ps)" by (simp add: spans_def)
    moreover have "fst blk + len = s + extent (grow_tail bs len)" using kb(2) blk(1) by simp
    ultimately show "fst blk + len \<in> pool_ends ?ps" unfolding pool_ends_def by blast
    show "tail_space ps - {fst blk - 16 ..< fst blk} \<subseteq> tail_space ?ps"
      unfolding tail_space_def spans_def ps blk(1) by auto
    show "fst blk + 16 \<le> fst blk + len" using len by simp
  next
    fix x assume x: "x \<in> {?d ..< fst blk}"
    then have "x \<in> pool_range (s, bs)" using blk(1) by (simp add: pool_range_def)
    then have "x \<in> pool_bytes ps" using in_ps unfolding pool_bytes_def by blast
    moreover have "x \<in> {fst blk - 16 ..< fst blk}" if ts: "x \<in> tail_space ps"
    proof -
      obtain b q where e: "(b, 32, Sentinel, q) \<in> set (all_entries ps)" "b + 16 \<le> x" "x < b + 32" by (rule tail_entry [OF ok ts])
      then show ?thesis using out [OF e(1)] x by auto
    qed
    ultimately show "x \<in> pool_bytes ps \<and> (x \<in> tail_space ps \<longrightarrow> x \<in> {fst blk - 16 ..< fst blk})" by blast
  next
    fix b z p al n q assume e: "(b, z, Used p al n, q) \<in> set (all_entries ps)"
    have "b \<le> p" using used_entry(11) [OF I e] by simp
    then show "{p ..< b + z} \<inter> {?d ..< fst blk} = {}" using out [OF e] by auto
    show "(b, z, Used p al n, q) \<in> set (all_entries ?ps)"
      using e xs(2) unfolding pl gt by (auto simp: all_entries_plug free_or_none_def)
  qed
  then show thesis using r(1,2) z unfolding gt by (intro that [of t' m' z]) simp_all
qed

lemma pool_ends_extend: "pool_ends (P @ (s, bs) # Q) - {s + extent bs} \<subseteq> pool_ends (P @ (s, bs') # Q)"
  by (fastforce simp: pool_ends_def spans_def)

lemma pool_ends_add_pools: "pool_ends ps \<subseteq> pool_ends (add_pools c s n ps)"
  using set_add_pools [of ps c s n] by (fastforce simp: pool_ends_def spans_def)

text \<open>With a maximum pool size, appending is inserting.\<close>

lemma append_bounded:
  fixes t :: "('f::len word, 's::len word) tlsf"
  assumes I: "tlsf_inv c t m ps" and e: "fst blk \<in> pool_ends ps" and al: "32 dvd fst blk" "0 < fst blk" and mx: "MAX_POOL_SIZE c \<noteq> None"
    and blk: "fst blk < USIZE_LIM" "fst blk + snd blk \<le> USIZE_LIM" and fr: "fresh m ps (fst blk) (snd blk)"
  obtains n t' m' ps' where "append_free_block_ptr c t m blk = Some (n, t', m')" and "tlsf_inv c t' m' ps'"
    and "n \<le> snd blk" and "snd blk < n + 64" and "live ps' = live ps"
    and "pool_bytes ps' = pool_bytes ps \<union> {fst blk ..< fst blk + n}" and "used_kept m m' ps ps'"
    and "insert (fst blk + n) (pool_ends ps - {fst blk}) \<subseteq> pool_ends ps'"
proof -
  let ?len = "snd blk div 32 * 32"
  have len: "?len \<le> snd blk" "snd blk < ?len + 32" by simp_all
  have lim: "snd blk < USIZE_LIM" using al(2) blk(2) by linarith
  have fr': "fresh m ps (fst blk) ?len" using len by (intro fresh_sub [OF fr]) simp_all
  obtain t' m' where r: "insert_free_block_ptr_aligned c t m (fst blk, ?len) = Some (to_ptr (?len - left_over c ?len), t', m')"
      "tlsf_inv c t' m' (add_pools c (fst blk) ?len ps)"
      "changes_only m m' (link_cells (dom (all_frees c ps)) \<union> {fst blk ..< fst blk + (?len - left_over c ?len) - 16})"
    by (rule insert_aligned_ok [OF I al, of ?len]) (use len blk fr' in auto)
  have "used_kept m m' ps (add_pools c (fst blk) ?len ps)"
    using fresh_used [OF I fr'] all_entries_sub [OF set_add_pools] by (intro region_used_kept [OF I r(3)]) (fastforce, blast)
  moreover have "append_free_block_ptr c t m blk = Some (?len - left_over c ?len, t', m')"
    using mx r(1) and_not_31 [OF lim] by (simp add: append_free_block_ptr_def to_ptr_def minus_mod_eq_div_mult)
  moreover have "?len - left_over c ?len \<le> snd blk" "snd blk < ?len - left_over c ?len + 64"
    using len left_over_granule [OF inv_cfg_ok [OF I], of ?len] left_over_bounds [of c ?len] by auto
  moreover have "pool_bytes (add_pools c (fst blk) ?len ps) = pool_bytes ps \<union> {fst blk ..< fst blk + (?len - left_over c ?len)}"
    by (rule pool_bytes_add_pools [OF inv_cfg_ok [OF I]]) simp
  moreover have "insert (fst blk + (?len - left_over c ?len)) (pool_ends ps - {fst blk}) \<subseteq> pool_ends (add_pools c (fst blk) ?len ps)"
  proof (cases "64 \<le> ?len")
    case True
    then show ?thesis using last_add_pool [OF inv_cfg_ok [OF I] _ True, of "fst blk" ps] pool_ends_add_pools [of ps c "fst blk" ?len] by auto
  next
    case False
    then show ?thesis using e pool_ends_add_pools [of ps c "fst blk" ?len] by (auto simp: left_over.simps [of c ?len])
  qed
  ultimately show thesis using r(2) live_add_pools [of c "fst blk" ?len ps] by (intro that)
qed

text \<open>The bytes of an extension by \<open>n\<close> that become part of a pool: whole granules, and with a maximum pool
  size also no last granule of its own.\<close>

definition appended :: "cfg \<Rightarrow> usize \<Rightarrow> usize" where
  "appended c n = (let len = n div 32 * 32 in len - left_over c len)"

lemma appended_facts:
  assumes "cfg_ok c"
  shows "32 dvd appended c n" and "appended c n \<le> n" and "n < appended c n + 64"
    and "64 \<le> n \<Longrightarrow> 64 \<le> appended c n" 
    and "32 dvd n \<Longrightarrow> 64 \<le> n \<Longrightarrow> MAX_POOL_SIZE c = None \<Longrightarrow> appended c n = n"
proof -
  let ?len = "n div 32 * 32"
  have len: "32 dvd ?len" "?len \<le> n" "n < ?len + 32" by simp_all
  note lo = left_over_granule [OF assms len(1)] left_over_bounds [of c ?len]
  show "32 dvd appended c n" "appended c n \<le> n" "n < appended c n + 64" using lo len by (auto simp: appended_def Let_def dvd_diff_nat)
  show "64 \<le> appended c n" if n: "64 \<le> n"
  proof -
    have l: "64 \<le> ?len" using n div_le_mono [of 64 n 32] by simp
    show ?thesis using left_over_chunk [OF l, of c] chunk_facts(2) [OF assms len(1) l] chunk_size_le [of c ?len] lo
      by (simp only: appended_def Let_def) linarith
  qed
  show "appended c n = n" if "32 dvd n" "64 \<le> n" "MAX_POOL_SIZE c = None"
    using that left_over_unbounded [of c n] by (simp add: appended_def Let_def)
qed

lemma grown_mono: "grown m m' ps ps' a e E \<Longrightarrow> E \<subseteq> E' \<Longrightarrow> grown m m' ps ps' a e E'"
  unfolding grown_def by blast

text \<open>Extending by enough memory for an allocation of which \<open>n\<close> is the pool size.\<close>

lemma append_either:
  fixes t :: "('f::len word, 's::len word) tlsf"
  assumes I: "tlsf_inv c t m ps" and e: "fst blk \<in> pool_ends ps" and blk: "fst blk + snd blk \<le> USIZE_LIM"
    and fr: "fresh m ps (fst blk) (snd blk)" and n: "64 \<le> n" "n \<le> snd blk" "32 dvd n" "\<forall>mx. MAX_POOL_SIZE c = Some mx \<longrightarrow> n \<le> mx"
  obtains t' m' ps' where "append_free_block_ptr c t m blk = Some (appended c (snd blk), t', m')" and "tlsf_inv c t' m' ps'"
    and "grown m m' ps ps' (fst blk) (fst blk + appended c (snd blk)) {fst blk - 16 ..< fst blk}"
    and "\<exists>b z q. (b, z, Free, q) \<in> set (all_entries ps') \<and> n \<le> z + 32"
proof -
  let ?len = "snd blk div 32 * 32"
  note c = inv_cfg_ok [OF I]
  obtain s bs where p: "(s, bs) \<in> set ps" "fst blk = s + extent bs" using e by (auto simp: pool_ends_def spans_def)
  have pok: "pool_ok c (s, bs)" using inv_pools_ok [OF I] p(1) by (auto simp: pools_ok_def list_all_iff)
  then have al: "32 dvd fst blk" "0 < fst blk" using extent_dvd [of bs] pool_ok_dvd [OF pok] p(2) by (auto simp: pool_ok_def)
  have "n div 32 * 32 \<le> ?len" using n(2) by (intro mult_right_mono div_le_mono) simp_all
  then have len: "?len \<le> snd blk" "32 dvd ?len" "n \<le> ?len" "64 \<le> ?len" using n by simp_all
  have lim: "fst blk < USIZE_LIM" "snd blk < USIZE_LIM" using blk n(1,2) al(2) by linarith+
  show thesis
  proof (cases "MAX_POOL_SIZE c = None")
    case True
    obtain P Q where ps: "ps = P @ (s, bs) # Q" using p(1) by (metis split_list)
    have ap: "appended c (snd blk) = ?len" using left_over_unbounded [OF True len(4)] by (simp add: appended_def Let_def)
    have big: "32 \<le> snd blk" using n by simp
    show thesis
    proof (rule append_grown [OF I ps True p(2) blk big fr])
      fix t' :: "('f word, 's word) tlsf" and m' z
      let ?ps = "P @ (s, kept_blocks bs @ [(z, Free), (32, Sentinel)]) # Q"
      assume r: "append_free_block_ptr c t m blk = Some (?len, t', m')" "tlsf_inv c t' m' ?ps" "?len \<le> z"
        "grown m m' ps ?ps (fst blk) (fst blk + ?len) {fst blk - 16 ..< fst blk}"
      have "(s + extent (kept_blocks bs), z, Free, last_addr None s (kept_blocks bs)) \<in> set (all_entries ?ps)" by simp
      moreover have "n \<le> z + 32" using r(3) len(3) by linarith
      ultimately show thesis using r by (intro that [of t' m' ?ps]) (auto simp: ap)
    qed
  next
    case False
    have fr': "fresh m ps (fst blk) ?len" using len by (intro fresh_sub [OF fr]) simp_all
    obtain t' m' where r: "insert_free_block_ptr_aligned c t m (fst blk, ?len) = Some (to_ptr (?len - left_over c ?len), t', m')"
        "tlsf_inv c t' m' (add_pools c (fst blk) ?len ps)"
        "changes_only m m' (link_cells (dom (all_frees c ps)) \<union> {fst blk ..< fst blk + (?len - left_over c ?len) - 16})"
      by (rule insert_aligned_ok [OF I al, of ?len]) (use len blk lim fr' in auto)
    have "append_free_block_ptr c t m blk = Some (appended c (snd blk), t', m')"
      using False r(1) and_not_31 [OF lim(2)] by (simp add: append_free_block_ptr_def to_ptr_def minus_mod_eq_div_mult appended_def Let_def)
    moreover have "grown m m' ps (add_pools c (fst blk) ?len ps) (fst blk) (fst blk + appended c (snd blk)) {fst blk - 16 ..< fst blk}"
      using add_pools_grown [OF I len(2,4) fr' r(3)] unfolding appended_def Let_def by (rule grown_mono) simp
    moreover have "\<exists>b z q. (b, z, Free, q) \<in> set (all_entries (add_pools c (fst blk) ?len ps)) \<and> n \<le> z + 32"
      by (rule add_pools_free [OF len(4,3) n(4)])
    ultimately show thesis using r(2) that by blast
  qed
qed

lemma pool_ends_dvd:
  assumes "pools_ok c ps" and "e \<in> pool_ends ps"
  shows "32 dvd e"
proof -
  obtain s bs where p: "(s, bs) \<in> set ps" "e = s + extent bs" using assms(2) by (auto simp: pool_ends_def spans_def)
  then have pok: "pool_ok c (s, bs)" using assms(1) by (auto simp: pools_ok_def list_all_iff)
  then show ?thesis using extent_dvd [of bs] pool_ok_dvd [OF pok] p(2) by (auto simp: pool_ok_def)
qed

lemma append_live:
  fixes t :: "('f::len word, 's::len word) tlsf"
  assumes I: "tlsf_inv c t m ps" and p: "(s, bs) \<in> set ps" and blk: "fst blk = s + extent bs" "fst blk < USIZE_LIM"
      "fst blk + snd blk \<le> USIZE_LIM" and fr: "fresh m ps (fst blk) (snd blk)"
  obtains n t' m' ps' where "append_free_block_ptr c t m blk = Some (n, t', m')" and "tlsf_inv c t' m' ps'"
    and "n \<le> snd blk" and "snd blk < n + 64" and "live ps' = live ps"
    and "pool_bytes ps' = pool_bytes ps \<union> {fst blk ..< fst blk + n}" and "used_kept m m' ps ps'"
    and "insert (fst blk + n) (pool_ends ps - {fst blk}) \<subseteq> pool_ends ps'"
proof -
  let ?len = "snd blk div 32 * 32"
  have pok: "pool_ok c (s, bs)" using inv_pools_ok [OF I] p by (auto simp: pools_ok_def list_all_iff)
  then have al: "32 dvd fst blk" "0 < fst blk"
    using extent_dvd [of bs] pool_ok_dvd [OF pok] blk(1) by (auto simp: pool_ok_def)
  have len: "?len \<le> snd blk" "snd blk < ?len + 32" by simp_all
  have lim: "snd blk < USIZE_LIM" using al(2) blk(3) by linarith
  show thesis
  proof (cases "MAX_POOL_SIZE c = None")
    case True
    show thesis
    proof (cases "32 \<le> snd blk")
      case big: True
      obtain P Q where ps: "ps = P @ (s, bs) # Q" using p by (metis split_list)
      show thesis 
      proof (rule append_grown [OF I ps True blk(1,3) big fr])
        fix t' :: "('f word, 's word) tlsf" and m' z
        let ?ps = "P @ (s, kept_blocks bs @ [(z, Free), (32, Sentinel)]) # Q"
        assume r: "append_free_block_ptr c t m blk = Some (?len, t', m')" "tlsf_inv c t' m' ?ps"
          and g: "grown m m' ps ?ps (fst blk) (fst blk + ?len) {fst blk - 16 ..< fst blk}"
        have "insert (fst blk + ?len) (pool_ends ps - {fst blk}) \<subseteq> pool_ends ?ps"
          using g pool_ends_extend unfolding ps blk(1) grown_def by blast
        then show thesis using len g unfolding grown_def by (intro that [OF r]) linarith+
      qed
    next
      case False
      then have "?len = 0" by simp
      moreover have "fst blk \<in> pool_ends ps" using p blk(1) by (force simp: pool_ends_def spans_def)
      ultimately show thesis using I True and_not_31 [OF lim] len
        by (intro that [of 0 t m ps]) (auto simp: append_free_block_ptr_def used_kept_def)
    qed
  next
    case False
    have "fst blk \<in> pool_ends ps" using p blk(1) by (force simp: pool_ends_def spans_def)
    then show thesis by (rule append_bounded [OF I _ al False blk(2,3) fr that])
  qed
qed

text \<open>C5: \<open>append_free_block_ptr\<close> never faults on memory that follows a pool and that the allocator
  does not own yet. It returns the number of bytes used, all but less than two granules, which
  join the pools; the live allocations and their contents are kept.\<close>

theorem append_free_block_ptr_spec:
  fixes t :: "('f::len word, 's::len word) tlsf"
  assumes I: "tlsf_inv c t m ps" and p: "(s, bs) \<in> set ps" and blk: "fst blk = s + extent bs" "fst blk < USIZE_LIM"
      "fst blk + snd blk \<le> USIZE_LIM" and fr: "fresh m ps (fst blk) (snd blk)"
  shows "\<exists>n t' m' ps'. append_free_block_ptr c t m blk = Some (n, t', m') \<and> tlsf_inv c t' m' ps' \<and>
    n \<le> snd blk \<and> snd blk < n + 64 \<and> live ps' = live ps \<and>
    pool_bytes ps' = pool_bytes ps \<union> {fst blk ..< fst blk + n} \<and> contents_kept m m' (live ps)"
  by (rule append_live [OF assms]) (use used_kept_contents [OF I] in blast)

definition demo_mem2 :: mem where
  "demo_mem2 = (\<lambda>a. if 4096 \<le> a \<and> a < 12288 then Some 0 else None)"

lemma demo_inv2: "\<exists>(t :: (16 word, 16 word) tlsf) m. tlsf_inv demo_cfg t m demo_pools \<and> fresh m demo_pools 8192 4096"
proof -
  have new: "tlsf_inv demo_cfg (tlsf_new demo_cfg :: (16 word, 16 word) tlsf) demo_mem2 []"
    using demo_cfg_ok by (rule tlsf_new_inv) (simp_all add: demo_cfg_def)
  obtain t :: "(16 word, 16 word) tlsf" and m where r: "tlsf_inv demo_cfg t m (add_pools demo_cfg 4096 4096 [])"
      "grown demo_mem2 m [] (add_pools demo_cfg 4096 4096 []) 4096 8192 {}"
  proof (rule insert_grown [OF new, of "(4096, 4096)"])
    fix n and t' :: "(16 word, 16 word) tlsf" and m'
    assume "tlsf_inv demo_cfg t' m' (add_pools demo_cfg (round_up 32 (fst (4096, 4096))) (usable_len (4096, 4096)) [])"
      "grown demo_mem2 m' [] (add_pools demo_cfg (round_up 32 (fst (4096, 4096))) (usable_len (4096, 4096)) [])
        (round_up 32 (fst (4096, 4096))) (fst (4096, 4096) + n) {}"
      "fst (4096, 4096) + n = round_up 32 (fst (4096, 4096)) + (usable_len (4096, 4096) - left_over demo_cfg (usable_len (4096, 4096)))"
    then show thesis using that by (simp add: demo_round_up left_over.simps chunk_size_def MAX_POOL_SIZE_def demo_cfg_def USIZE_BITS_def)
  qed (simp_all add: demo_round_up USIZE_LIM_def fresh_def demo_mem2_def)
  have "dom m = dom demo_mem2" using r(2) by (simp add: grown_def)
  then have "m a \<noteq> None" if "8192 \<le> a" "a < 12288" for a using that by (auto simp: dom_def set_eq_iff demo_mem2_def)
  then have "fresh m demo_pools 8192 4096" by (auto simp: fresh_def demo_pools_def pool_range_def)
  then show ?thesis using r(1) unfolding demo_add_pools by blast
qed

theorem append_free_block_ptr_spec_witness:
  "\<exists>(t :: (16 word, 16 word) tlsf) m n t' m' ps'. tlsf_inv demo_cfg t m demo_pools \<and>
    append_free_block_ptr demo_cfg t m (8192, 4096) = Some (n, t', m') \<and> tlsf_inv demo_cfg t' m' ps' \<and> 4000 < n"
proof -
  obtain t :: "(16 word, 16 word) tlsf" and m where I: "tlsf_inv demo_cfg t m demo_pools" "fresh m demo_pools 8192 4096"
    using demo_inv2 by blast
  have p: "(4096, [(4064, Free), (32, Sentinel)]) \<in> set demo_pools" by (simp add: demo_pools_def)
  have "\<exists>n t' m' ps'. append_free_block_ptr demo_cfg t m (8192, 4096) = Some (n, t', m') \<and> tlsf_inv demo_cfg t' m' ps' \<and> 4096 < n + 64"
    using append_free_block_ptr_spec [OF I(1) p, of "(8192, 4096)"] I(2) by (auto simp: USIZE_LIM_def)
  then show ?thesis using I(1) by (elim exE conjE) (intro exI conjI, assumption+, simp)
qed

end
