(* ===== verification/Tlsf_Realloc.thy ===== *)
theory Tlsf_Realloc
  imports Tlsf_Dealloc Byte_Copy
begin

text \<open>
  Reallocation (crates/rlsf/src/tlsf.rs): \<open>reallocate\<close> and its subroutine
  \<open>reallocate_inplace\<close>, which is modelled in four definitions, one for each part of its body:
  shrinking, growing into the next block (the loop labelled \<open>'nonmoving\<close>, which is left either with
  a result or with the clearance found so far), growing into the previous block, and the code between
  them that chooses.

  The lemmas show for each part that it never faults, that it replaces a run of blocks by a used block
  and possibly a free one, and that the bytes of the old payload up to the smaller of the two sizes
  are found at the new address.
\<close>

unbundle bit_operations_syntax

section \<open>Operations\<close>

definition shrink_block ::
  "cfg \<Rightarrow> ('f::len word, 's::len word) tlsf \<Rightarrow> mem \<Rightarrow> usize \<Rightarrow> usize \<Rightarrow> usize \<Rightarrow> (('f word, 's word) tlsf \<times> mem) fallible" where
  "shrink_block c t m block new_size old_size = do {
     shrink_by \<leftarrow> sub_usize old_size new_size;
     new_free_block \<leftarrow> add_usize block new_size;
     next_phys \<leftarrow> next_phys_block m block;
     next_flags \<leftarrow> read_size m next_phys;
     (new_free_block_size, t, m) \<leftarrow>
       (if next_flags AND SIZE_USED = 0 then do {
          debug_assert (next_flags = next_flags AND SIZE_SIZE_MASK);
          (t, m) \<leftarrow> unlink_free_block c t m next_phys next_flags;
          new_free_block_size \<leftarrow> add_usize shrink_by next_flags;
          next_next_phys \<leftarrow> next_phys_block m next_phys;
          m \<leftarrow> write_prev_phys m next_next_phys (Some new_free_block);
          Some (new_free_block_size, t, m)
        }
        else do {
          m \<leftarrow> write_prev_phys m next_phys (Some new_free_block);
          Some (shrink_by, t, m)
        });
     m \<leftarrow> write_hdr m new_free_block \<lparr>bh_size = new_free_block_size, bh_prev_phys_block = Some block\<rparr>;
     (t, m) \<leftarrow> link_free_block c t m new_free_block new_free_block_size;
     m \<leftarrow> write_size m block (new_size OR SIZE_USED);
     Some (t, m)
   }"

text \<open>Leaving the loop is \<open>Inl\<close> with \<open>moving_clearance\<close> and \<open>moving_clearance_end\<close>,
  returning from it is \<open>Inr\<close>.\<close>

definition grow_into_next ::
  "cfg \<Rightarrow> ('f::len word, 's::len word) tlsf \<Rightarrow> mem \<Rightarrow> usize \<Rightarrow> usize \<Rightarrow> usize \<Rightarrow> usize \<Rightarrow>
   ((usize \<times> usize) + (('f word, 's word) tlsf \<times> mem)) fallible" where
  "grow_into_next c t m block next_phys new_size old_size = do {
     grow_by \<leftarrow> sub_usize new_size old_size;
     next_flags \<leftarrow> read_size m next_phys;
     if next_flags AND SIZE_USED \<noteq> 0 then Some (Inl (old_size, next_phys))
     else do {
       debug_assert (next_flags = next_flags AND SIZE_SIZE_MASK);
       next_next_phys \<leftarrow> next_phys_block m next_phys;
       moving_clearance \<leftarrow> add_usize old_size next_flags;
       if next_flags < grow_by then Some (Inl (moving_clearance, next_next_phys))
       else do {
         (t, m) \<leftarrow> unlink_free_block c t m next_phys next_flags;
         (t, m) \<leftarrow>
           (if grow_by < next_flags then do {
              next_size \<leftarrow> sub_usize next_flags grow_by;
              next_phys \<leftarrow> add_usize block new_size;
              m \<leftarrow> write_hdr m next_phys \<lparr>bh_size = next_size, bh_prev_phys_block = Some block\<rparr>;
              (t, m) \<leftarrow> link_free_block c t m next_phys next_size;
              m \<leftarrow> write_prev_phys m next_next_phys (Some next_phys);
              Some (t, m)
            }
            else do {
              debug_assert (grow_by = next_flags);
              m \<leftarrow> write_prev_phys m next_next_phys (Some block);
              Some (t, m)
            });
         m \<leftarrow> write_size m block (new_size OR SIZE_USED);
         Some (Inr (t, m))
       }
     }
   }"

definition close_clearance ::
  "cfg \<Rightarrow> ('f::len word, 's::len word) tlsf \<Rightarrow> mem \<Rightarrow> usize \<Rightarrow> usize \<Rightarrow> usize \<Rightarrow> usize \<Rightarrow>
   (('f word, 's word) tlsf \<times> mem) fallible" where
  "close_clearance c t m new_block new_size moving_clearance moving_clearance_end =
     (if new_size = moving_clearance then do {
        m \<leftarrow> write_prev_phys m moving_clearance_end (Some new_block);
        Some (t, m)
      }
      else do {
        new_free_block \<leftarrow> add_usize new_block new_size;
        new_free_block_size \<leftarrow> sub_usize moving_clearance new_size;
        end_flags \<leftarrow> read_size m moving_clearance_end;
        (new_free_block_size, t, m) \<leftarrow>
          (if end_flags AND SIZE_USED = 0 then do {
             debug_assert (end_flags = end_flags AND SIZE_SIZE_MASK);
             (t, m) \<leftarrow> unlink_free_block c t m moving_clearance_end end_flags;
             new_free_block_size \<leftarrow> add_usize new_free_block_size end_flags;
             next_next_phys \<leftarrow> next_phys_block m moving_clearance_end;
             m \<leftarrow> write_prev_phys m next_next_phys (Some new_free_block);
             Some (new_free_block_size, t, m)
           }
           else do {
             m \<leftarrow> write_prev_phys m moving_clearance_end (Some new_free_block);
             Some (new_free_block_size, t, m)
           });
        m \<leftarrow> write_hdr m new_free_block \<lparr>bh_size = new_free_block_size, bh_prev_phys_block = Some new_block\<rparr>;
        link_free_block c t m new_free_block new_free_block_size
      })"

definition move_into_prev ::
  "cfg \<Rightarrow> ('f::len word, 's::len word) tlsf \<Rightarrow> mem \<Rightarrow> usize \<Rightarrow> usize \<Rightarrow> layout \<Rightarrow> usize \<Rightarrow> usize \<Rightarrow> usize \<Rightarrow> usize \<Rightarrow> usize \<Rightarrow>
   (usize option \<times> ('f word, 's word) tlsf \<times> mem) fallible" where
  "move_into_prev c t m ptr block new_layout overhead old_size next_phys moving_clearance moving_clearance_end = do {
     prev \<leftarrow> read_prev_phys m block;
     case prev of None \<Rightarrow> Some (None, t, m)
     | Some prev_phys \<Rightarrow> do {
         prev_flags \<leftarrow> read_size m prev_phys;
         if prev_flags AND SIZE_USED \<noteq> 0 then Some (None, t, m)
         else do {
           debug_assert (prev_flags = prev_flags AND SIZE_SIZE_MASK);
           moving_clearance \<leftarrow> add_usize moving_clearance prev_flags;
           unaligned_ptr \<leftarrow> add_usize prev_phys SIZE_OF_UsedBlockHdr;
           x \<leftarrow> add_usize unaligned_ptr (lalign new_layout);
           x \<leftarrow> sub_usize x 1;
           let new_ptr = x AND not_usize (lalign new_layout - 1);
           new_overhead \<leftarrow> sub_usize new_ptr prev_phys;
           case checked_add new_overhead (lsize new_layout) of None \<Rightarrow> Some (None, t, m) | Some new_size \<Rightarrow>
           case checked_add new_size (GRANULARITY - 1) of None \<Rightarrow> Some (None, t, m) | Some new_size \<Rightarrow> do {
             let new_size = new_size AND not_usize (GRANULARITY - 1);
             if moving_clearance < new_size then Some (None, t, m)
             else do {
               (t, m) \<leftarrow> unlink_free_block c t m prev_phys prev_flags;
               next_flags \<leftarrow> read_size m next_phys;
               (t, m) \<leftarrow>
                 (if next_flags AND SIZE_USED = 0 then do {
                    debug_assert (next_flags = next_flags AND SIZE_SIZE_MASK);
                    unlink_free_block c t m next_phys next_flags
                  }
                  else Some (t, m));
               old_payload \<leftarrow> sub_usize old_size overhead;
               m \<leftarrow> copy m ptr new_ptr (min (lsize new_layout) old_payload);
               (t, m) \<leftarrow> close_clearance c t m prev_phys new_size moving_clearance moving_clearance_end;
               m \<leftarrow> write_size m prev_phys (new_size OR SIZE_USED);
               m \<leftarrow> (if GRANULARITY \<le> lalign new_layout then write_pad m new_ptr prev_phys else Some m);
               Some (Some new_ptr, t, m)
             }
           }
         }
       }
   }"

definition reallocate_inplace ::
  "cfg \<Rightarrow> ('f::len word, 's::len word) tlsf \<Rightarrow> mem \<Rightarrow> usize \<Rightarrow> usize \<Rightarrow> layout \<Rightarrow>
   (usize option \<times> ('f word, 's word) tlsf \<times> mem) fallible" where
  "reallocate_inplace c t m ptr block new_layout = do {
     overhead \<leftarrow> sub_usize ptr block;
     case checked_add overhead (lsize new_layout) of None \<Rightarrow> Some (None, t, m) | Some new_size \<Rightarrow>
     case checked_add new_size (GRANULARITY - 1) of None \<Rightarrow> Some (None, t, m) | Some new_size \<Rightarrow> do {
       let new_size = new_size AND not_usize (GRANULARITY - 1);
       size_and_flags \<leftarrow> read_size m block;
       old_size \<leftarrow> sub_usize size_and_flags SIZE_USED;
       debug_assert (old_size = size_and_flags AND SIZE_SIZE_MASK);
       if new_size \<le> old_size then do {
         (t, m) \<leftarrow> (if new_size = old_size then Some (t, m) else shrink_block c t m block new_size old_size);
         Some (Some ptr, t, m)
       }
       else do {
         debug_assert (old_size < new_size);
         next_phys \<leftarrow> next_phys_block m block;
         r \<leftarrow> grow_into_next c t m block next_phys new_size old_size;
         case r of Inr (t, m) \<Rightarrow> Some (Some ptr, t, m)
         | Inl (moving_clearance, moving_clearance_end) \<Rightarrow>
             move_into_prev c t m ptr block new_layout overhead old_size next_phys moving_clearance moving_clearance_end
       }
     }
   }"

definition reallocate ::
  "cfg \<Rightarrow> ('f::len word, 's::len word) tlsf \<Rightarrow> mem \<Rightarrow> usize \<Rightarrow> layout \<Rightarrow>
   (usize option \<times> ('f word, 's word) tlsf \<times> mem) fallible" where
  "reallocate c t m ptr new_layout = do {
     block \<leftarrow> used_block_hdr_for_allocation m ptr (lalign new_layout);
     old_size \<leftarrow> size_of_allocation m ptr (lalign new_layout);
     (r, t, m) \<leftarrow> reallocate_inplace c t m ptr block new_layout;
     case r of Some x \<Rightarrow> Some (Some x, t, m)
     | None \<Rightarrow> do {
         (r, t, m) \<leftarrow> allocate c t m new_layout;
         case r of None \<Rightarrow> Some (None, t, m)
         | Some new_ptr \<Rightarrow> do {
             debug_assert (old_size \<le> lsize new_layout);
             m \<leftarrow> copy_nonoverlapping m ptr new_ptr old_size;
             (t, m) \<leftarrow> deallocate c t m ptr (lalign new_layout);
             Some (Some new_ptr, t, m)
           }
       }
   }"

section \<open>Cells of used blocks\<close>

lemma used_no_frees:
  assumes ok: "pools_ok c ps" and e: "(b, z, k, q) \<in> set (all_entries ps)" "k \<noteq> Free" and y: "b \<le> y" "y < b + z"
  shows "all_frees c ps y = None"
proof (rule ccontr)
  assume "all_frees c ps y \<noteq> None"
  then obtain zy qy where ey: "(y, zy, Free, qy) \<in> set (all_entries ps)" using all_frees_entry by blast
  then show False using entries_disjoint [OF ok e(1) ey] entry_facts [OF ok ey] e(2) y by auto
qed

lemma used_not_linked:
  assumes ok: "pools_ok c ps" and e: "(b, z, Used ptr al sz, q) \<in> set (all_entries ps)"
    and ch: "changes_only m m1 (link_cells (dom (all_frees c ps)))" and a: "b \<le> a" "a < b + z"
  shows "m1 a = m a"
proof -
  have "a \<notin> link_cells (dom (all_frees c ps))" using links_not_protected [OF ok e] a by fastforce
  then show ?thesis using ch by (simp add: changes_only_def)
qed

lemma pad_kept:
  assumes "used_ok m b z ptr al sz" "\<forall>a. b \<le> a \<and> a < b + z \<longrightarrow> m' a = m a"
  shows "32 \<le> al \<longrightarrow> m' (ptr - 8) = Some b"
proof
  assume "32 \<le> al"
  then have p: "b + 32 \<le> ptr" "ptr \<le> b + z" "m (ptr - 8) = Some b" using assms(1) by (auto simp: used_ok_def)
  then have "b \<le> ptr - 8 \<and> ptr - 8 < b + z" by linarith
  then show "m' (ptr - 8) = Some b" using assms(2) p(3) by simp
qed

lemma bytes_kept:
  assumes "8 dvd ptr" "\<forall>a. ptr \<le> a \<and> a < e \<longrightarrow> m' a = m a" "ptr + i < e"
  shows "load_byte m' (ptr + i) = load_byte m (ptr + i)"
  using assms(2) cell_of_byte [OF assms(1), of "ptr + i"] assms(3) by (simp add: load_byte_def)

text \<open>Unlinking the free block after a used block, if there is one, leaves a run without free blocks.\<close>

lemma open_next:
  fixes t :: "('f::len word, 's::len word) tlsf"
  assumes I: "tlsf_inv c t m ps" and ps: "ps = plug P s xs ((z, Used ptr al sz) # post) ys Q"
    and nb: "free_or_none post" "ys \<noteq> []" "snd (hd ys) \<noteq> Free" and b: "b = s + extent xs"
  obtains nf t1 m1 where "read_size m (b + z) = Some nf" and "(nf AND SIZE_USED = 0) = (post \<noteq> [])"
    and "(if post = [] then Some (t, m) else unlink_free_block c t m (b + z) nf) = Some (t1, m1)"
    and "post \<noteq> [] \<longrightarrow> nf = extent post \<and> nf AND SIZE_SIZE_MASK = nf \<and> next_phys_block m (b + z) = Some (b + z + nf) \<and>
      next_phys_block m1 (b + z) = Some (b + z + nf)"
    and "fl_inv c t1 m1 (\<lambda>y. if b \<le> y \<and> y < b + (z + extent post) then None else all_frees c ps y)"
    and "changes_only m m1 (link_cells (dom (all_frees c ps)) \<union> {b ..< b + (z + extent post)} \<union> {b + (z + extent post) + 8})"
    and "\<forall>a. 32 dvd a \<longrightarrow> m1 a = m a \<and> m1 (a + 8) = m (a + 8)"
    and "\<forall>a. b \<le> a \<and> a < b + z \<longrightarrow> m1 a = m a"
proof -
  note ok = inv_pools_ok [OF I]
  have fl: "fl_inv c t m (all_frees c ps)" using I by (simp add: tlsf_inv_def)
  have e: "(b, z, Used ptr al sz, last_addr None s xs) \<in> set (all_entries ps)" by (simp add: ps all_entries_plug b)
  have zb: "blk_ok (z, Used ptr al sz)" using entry_facts [OF ok e] by (simp add: blk_ok_def)
  obtain nf t1 m1 where u: "read_size m (b + z) = Some nf" "(nf AND SIZE_USED = 0) = (post \<noteq> [])"
      "(if post = [] then Some (t, m) else unlink_free_block c t m (b + z) nf) = Some (t1, m1)"
      "post \<noteq> [] \<longrightarrow> nf = extent post \<and> nf AND SIZE_SIZE_MASK = nf \<and> next_phys_block m (b + z) = Some (b + z + nf) \<and>
        next_phys_block m1 (b + z) = Some (b + z + nf)"
      "fl_inv c t1 m1 (\<lambda>y. if b + z \<le> y \<and> y < b + z + extent post then None else all_frees c ps y)"
      "changes_only m m1 (link_cells (dom (all_frees c ps)))"
      "\<forall>a. 32 dvd a \<longrightarrow> m1 a = m a \<and> m1 (a + 8) = m (a + 8)"
    by (rule unlink_post [OF I ps zb nb b fl refl subset_refl changes_only_refl]) simp
  have "(\<lambda>y. if b + z \<le> y \<and> y < b + z + extent post then None else all_frees c ps y) =
      (\<lambda>y. if b \<le> y \<and> y < b + (z + extent post) then None else all_frees c ps y)"
    using used_no_frees [OF ok e] by (auto simp: fun_eq_iff)
  note fl1 = u(5) [unfolded this]
  have "\<forall>a. b \<le> a \<and> a < b + z \<longrightarrow> m1 a = m a" using used_not_linked [OF ok e u(6)] by blast
  then show thesis by (intro that [OF u(1-4) fl1 changes_only_mono [OF u(6)] u(7)]) auto
qed

section \<open>Shrinking and growing without moving\<close>

text \<open>Resizing without moving: the run of the block and its free right neighbour is carved anew, and the
  payload keeps its contents as far as it goes. Shrinking writes \<open>prev_phys_block\<close> of the block
  after the run before the rest of the run is linked, growing afterwards.\<close>

lemma resize_cells:
  assumes I: "tlsf_inv c t m (plug P s xs mid ys Q)" and mid: "mid \<noteq> []" "list_all blk_ok mid"
    and b: "b = s + extent xs" "Z = extent mid" and ns: "32 dvd ns" and ch: "changes_only m m1 S"
  shows "32 dvd b + Z" and "32 dvd b + ns" and "m1 (b + Z + 8) \<noteq> None" and "ns < Z \<longrightarrow> m1 (b + ns) \<noteq> None \<and> m1 (b + ns + 8) \<noteq> None"
proof -
  note ok = inv_pools_ok [OF I]
  obtain zn kn ys' where nx: "(b + Z, zn, kn, last_addr (last_addr None s xs) b mid) \<in> set (all_entries (plug P s xs mid ys Q))"
      "32 dvd b + Z"
    by (rule next_entry [OF ok mid, folded b])
  show "32 dvd b + Z" by (rule nx)
  show bn: "32 dvd b + ns" using run_start [OF ok mid(1), folded b(1)] ns by simp
  have mp: "m a \<noteq> None" if "b \<le> a" "a < b + Z" "8 dvd a" for a using run_mapped [OF I, of a] that by (simp add: b)
  have "m (b + Z + 8) \<noteq> None" using inv_hdr [OF I nx(1)] by simp
  then show "m1 (b + Z + 8) \<noteq> None" "ns < Z \<longrightarrow> m1 (b + ns) \<noteq> None \<and> m1 (b + ns + 8) \<noteq> None"
    using mp [of "b + ns"] mp [of "b + ns + 8"] dvd_32_8 [OF bn] changes_only_mapped [OF ch] dvd_less_add_le [OF bn nx(2)] by auto
qed

lemma resize_run:
  fixes t :: "('f::len word, 's::len word) tlsf"
  assumes I: "tlsf_inv c t m ps" and ps: "ps = plug P s xs ((z, Used ptr al sz) # post) ys Q"
    and nb: "free_or_none post" "ys \<noteq> []" "snd (hd ys) \<noteq> Free" and b: "b = s + extent xs"
    and Z: "Z = z + extent post" and ns: "32 \<le> ns" "32 dvd ns" "ns \<le> Z" "ptr + n \<le> b + ns"
  obtains nf t1 m1 t3 m3 where "read_size m (b + z) = Some nf" and "(nf AND SIZE_USED = 0) = (post \<noteq> [])"
    and "(if post = [] then Some (t, m) else unlink_free_block c t m (b + z) nf) = Some (t1, m1)"
    and "post \<noteq> [] \<longrightarrow> nf = extent post \<and> nf AND SIZE_SIZE_MASK = nf \<and> next_phys_block m (b + z) = Some (b + Z) \<and>
      next_phys_block m1 (b + z) = Some (b + Z)"
    and "m1 (b + Z + 8) \<noteq> None" and "ns < Z \<longrightarrow> m1 (b + ns) \<noteq> None \<and> m1 (b + ns + 8) \<noteq> None"
    and "(if ns = Z then Some (t1, m1) else link_free_block c t1
      ((if early then m1(b + Z + 8 \<mapsto> b + ns) else m1)(b + ns \<mapsto> Z - ns, b + ns + 8 \<mapsto> b)) (b + ns) (Z - ns)) = Some (t3, m3)"
    and "early \<longrightarrow> ns < Z \<longrightarrow> m3 (b + Z + 8) = Some (b + ns)" and "m3 (b + Z + 8) \<noteq> None" and "m3 b \<noteq> None"
    and "tlsf_inv c t3 (m3(b + Z + 8 \<mapsto> if ns = Z then b else b + ns, b \<mapsto> ns + 1))
      (plug P s xs (carve Z ns (Used ptr al n)) ys Q)"
    and "changes_only m (m3(b + Z + 8 \<mapsto> if ns = Z then b else b + ns, b \<mapsto> ns + 1))
      (link_cells (dom (all_frees c ps)) \<union> {b ..< b + Z} \<union> {b + Z + 8})"
    and "\<forall>a. ptr \<le> a \<and> a < b + min z ns \<longrightarrow> (m3(b + Z + 8 \<mapsto> if ns = Z then b else b + ns, b \<mapsto> ns + 1)) a = m a"
proof -
  let ?mid = "(z, Used ptr al sz) # post" and ?S = "link_cells (dom (all_frees c ps)) \<union> {b ..< b + Z} \<union> {b + Z + 8}"
  note ok = inv_pools_ok [OF I]
  have e: "(b, z, Used ptr al sz, last_addr None s xs) \<in> set (all_entries ps)" by (simp add: ps all_entries_plug b)
  note u = used_entry [OF I e]
  have mid: "?mid \<noteq> []" "list_all blk_ok ?mid"
    by simp (rule run_blk_ok [OF ok [unfolded ps]], use nb(1) in \<open>auto simp: free_or_none_def\<close>)
  have ext: "Z = extent ?mid" by (simp add: Z)
  obtain nf t1 m1 where o: "read_size m (b + z) = Some nf" "(nf AND SIZE_USED = 0) = (post \<noteq> [])"
      "(if post = [] then Some (t, m) else unlink_free_block c t m (b + z) nf) = Some (t1, m1)"
      "post \<noteq> [] \<longrightarrow> nf = extent post \<and> nf AND SIZE_SIZE_MASK = nf \<and> next_phys_block m (b + z) = Some (b + z + nf) \<and>
        next_phys_block m1 (b + z) = Some (b + z + nf)"
      "fl_inv c t1 m1 (\<lambda>y. if b \<le> y \<and> y < b + Z then None else all_frees c ps y)" "changes_only m m1 ?S"
      "\<forall>a. 32 dvd a \<longrightarrow> m1 a = m a \<and> m1 (a + 8) = m (a + 8)" "\<forall>a. b \<le> a \<and> a < b + z \<longrightarrow> m1 a = m a"
    unfolding Z by (rule open_next [OF I ps nb b])
  let ?m2 = "(if early then m1(b + Z + 8 \<mapsto> b + ns) else m1)(b + ns \<mapsto> Z - ns, b + ns + 8 \<mapsto> b)"
  have m2: "?m2 = m1(b + Z + 8 \<mapsto> b + ns, b + ns \<mapsto> Z - ns, b + ns + 8 \<mapsto> b) \<or> ?m2 = m1(b + ns \<mapsto> Z - ns, b + ns + 8 \<mapsto> b)"
    by (cases early) simp_all
  have pp: "m1 (b + 8) = Some (of_ptr (last_addr None s xs))" using o(7) u(2,4) by simp
  have uo: "is_power_of_two al" "al dvd ptr" "if al < 32 then ptr = b + 16 else b + 32 \<le> ptr"
    using u(3) by (auto simp: used_ok_def)
  obtain t3 m3 where f: "(if ns = Z then Some (t1, m1) else link_free_block c t1 ?m2 (b + ns) (Z - ns)) = Some (t3, m3)"
      "changes_only m m3 ?S" "ns < Z \<longrightarrow> (\<forall>a. 32 dvd a \<longrightarrow> m3 a = ?m2 a \<and> m3 (a + 8) = ?m2 (a + 8))"
      "\<forall>M N. N = m3(b + Z + 8 \<mapsto> if ns = Z then b else b + ns) \<longrightarrow>
        M = N(b \<mapsto> ns + 1) \<and> (32 \<le> al \<longrightarrow> m1 (ptr - 8) = Some b) \<or> M = N(b \<mapsto> ns + 1, ptr - 8 \<mapsto> b) \<and> 32 \<le> al \<longrightarrow>
        tlsf_inv c t3 M (plug P s xs (carve Z ns (Used ptr al n)) ys Q) \<and> changes_only m M ?S \<and>
        (\<forall>a. ptr \<le> a \<and> a < b + ns \<longrightarrow> M a = m1 a)"
    unfolding ps
    by (rule fill_run [OF I [unfolded ps] mid b ext ns(1-3) nb(3) u(11) ns(4) uo o(5,6) [unfolded ps] pp m2])
  let ?M = "m3(b + Z + 8 \<mapsto> if ns = Z then b else b + ns, b \<mapsto> ns + 1)"
  have fin: "tlsf_inv c t3 ?M (plug P s xs (carve Z ns (Used ptr al n)) ys Q)" "changes_only m ?M ?S"
      "\<forall>a. ptr \<le> a \<and> a < b + ns \<longrightarrow> ?M a = m1 a"
    using f(4) [rule_format, OF refl, of ?M] pad_kept [OF u(3) o(8)] by blast+
  note rc = resize_cells [OF I [unfolded ps] mid b ext ns(2) o(6)] and rc3 = resize_cells(3) [OF I [unfolded ps] mid b ext ns(2) f(2)]
  show thesis
  proof (rule that [OF o(1-3) _ _ _ f(1) _ _ _ fin(1,2)])
    have "?M a = m a" if "ptr \<le> a" "a < b + min z ns" for a
    proof -
      have "?M a = m1 a" using fin(3) that by simp
      also have "m1 a = m a" using o(8) that u(11) by simp
      finally show ?thesis .
    qed
    then show "\<forall>a. ptr \<le> a \<and> a < b + min z ns \<longrightarrow> ?M a = m a" by blast
    show "post \<noteq> [] \<longrightarrow> nf = extent post \<and> nf AND SIZE_SIZE_MASK = nf \<and> next_phys_block m (b + z) = Some (b + Z) \<and>
      next_phys_block m1 (b + z) = Some (b + Z)" using o(4) by (auto simp: Z)
    show "m1 (b + Z + 8) \<noteq> None" "m3 (b + Z + 8) \<noteq> None" "ns < Z \<longrightarrow> m1 (b + ns) \<noteq> None \<and> m1 (b + ns + 8) \<noteq> None"
      by (rule rc rc3)+
    show "m3 b \<noteq> None" using u(1) changes_only_mapped [OF f(2)] by auto
    show "early \<longrightarrow> ns < Z \<longrightarrow> m3 (b + Z + 8) = Some (b + ns)" using f(3) rc(1,2) by (simp add: aligned_neq)
  qed
qed

lemma run_limits:
  assumes I: "tlsf_inv c t m ps" and ps: "ps = plug P s xs ((z, Used ptr al sz) # post) ys Q"
    and nb: "free_or_none post" and b: "b = s + extent xs"
  shows "32 dvd b + (z + extent post)" "b + (z + extent post) + 32 \<le> USIZE_LIM" "32 dvd z + extent post"
proof -
  note ok = inv_pools_ok [OF I]
  have mid: "(z, Used ptr al sz) # post \<noteq> []" "list_all blk_ok ((z, Used ptr al sz) # post)"
    by simp (rule run_blk_ok [OF ok [unfolded ps]], use nb in \<open>auto simp: free_or_none_def\<close>)
  obtain zn where "32 dvd b + (z + extent post)" "b + (z + extent post) + zn \<le> USIZE_LIM" "32 \<le> zn"
    by (rule next_entry [OF ok [unfolded ps] mid]) (simp add: b)
  then show "32 dvd b + (z + extent post)" "b + (z + extent post) + 32 \<le> USIZE_LIM" by linarith+
  show "32 dvd z + extent post" using blk_ok_extent(1) [OF mid(2,1)] by simp
qed

lemma shrink_opens:
  fixes t :: "('f::len word, 's::len word) tlsf"
  assumes nf: "(nf AND SIZE_USED = 0) = (post \<noteq> [])"
    and o: "(if post = [] then Some (t, m) else unlink_free_block c t m (b + z) nf) = Some (t1, m1)"
      "post \<noteq> [] \<longrightarrow> nf = extent post \<and> nf AND SIZE_SIZE_MASK = nf \<and> next_phys_block m (b + z) = Some (b + Z) \<and>
        next_phys_block m1 (b + z) = Some (b + Z)"
    and Z: "Z = z + extent post" and ns: "ns < z" and lim: "Z - ns < USIZE_LIM"
    and wp: "write_prev_phys m1 (b + Z) (Some (b + ns)) = Some m2"
  shows "(if nf AND SIZE_USED = 0 then do {
        debug_assert (nf = nf AND SIZE_SIZE_MASK);
        (t, m) \<leftarrow> unlink_free_block c t m (b + z) nf;
        new_free_block_size \<leftarrow> add_usize (z - ns) nf;
        next_next_phys \<leftarrow> next_phys_block m (b + z);
        m \<leftarrow> write_prev_phys m next_next_phys (Some (b + ns));
        Some (new_free_block_size, t, m)
      }
      else do {
        m \<leftarrow> write_prev_phys m (b + z) (Some (b + ns));
        Some (z - ns, t, m)
      }) = Some (Z - ns, t1, m2)"
proof (cases "post = []")
  case False
  have "z - ns + extent post = Z - ns" using ns Z by linarith
  then have "(nf AND SIZE_USED = 0) = True" "add_usize (z - ns) nf = Some (Z - ns)"
      "next_phys_block m1 (b + z) = Some (b + Z)" "unlink_free_block c t m (b + z) nf = Some (t1, m1)"
    using False nf o lim by (simp_all add: add_usize_def)
  moreover have "(nf = nf AND SIZE_SIZE_MASK) = True" using False o(2) by metis
  ultimately show ?thesis using wp by (simp only: run_simps)
qed (use nf o(1) wp Z in simp)

lemma shrink_block_ok:
  fixes t :: "('f::len word, 's::len word) tlsf"
  assumes I: "tlsf_inv c t m ps" and ps: "ps = plug P s xs ((z, Used ptr al sz) # post) ys Q"
    and nb: "free_or_none post" "ys \<noteq> []" "snd (hd ys) \<noteq> Free" and b: "b = s + extent xs"
    and Z: "Z = z + extent post" and ns: "32 \<le> ns" "32 dvd ns" "ns < z" "ptr + n \<le> b + ns"
  obtains t' m' where "shrink_block c t m b ns z = Some (t', m')"
    and "tlsf_inv c t' m' (plug P s xs (carve Z ns (Used ptr al n)) ys Q)"
    and "changes_only m m' (link_cells (dom (all_frees c ps)) \<union> {b ..< b + Z} \<union> {b + Z + 8})"
    and "\<forall>a. ptr \<le> a \<and> a < b + min z ns \<longrightarrow> m' a = m a"
proof -
  have e: "(b, z, Used ptr al sz, last_addr None s xs) \<in> set (all_entries ps)" by (simp add: ps all_entries_plug b)
  note u = used_entry [OF I e] and lm = run_limits [OF I ps nb(1) b, folded Z]
  have le: "ns \<le> Z" "ns \<noteq> Z" "ns < Z" using ns(3) Z by simp_all
  obtain nf t1 m1 t3 m3 where r: "read_size m (b + z) = Some nf" "(nf AND SIZE_USED = 0) = (post \<noteq> [])"
      "(if post = [] then Some (t, m) else unlink_free_block c t m (b + z) nf) = Some (t1, m1)"
      "post \<noteq> [] \<longrightarrow> nf = extent post \<and> nf AND SIZE_SIZE_MASK = nf \<and> next_phys_block m (b + z) = Some (b + Z) \<and>
        next_phys_block m1 (b + z) = Some (b + Z)"
      "m1 (b + Z + 8) \<noteq> None" "ns < Z \<longrightarrow> m1 (b + ns) \<noteq> None \<and> m1 (b + ns + 8) \<noteq> None"
      "(if ns = Z then Some (t1, m1) else link_free_block c t1
        ((if True then m1(b + Z + 8 \<mapsto> b + ns) else m1)(b + ns \<mapsto> Z - ns, b + ns + 8 \<mapsto> b)) (b + ns) (Z - ns)) = Some (t3, m3)"
      "True \<longrightarrow> ns < Z \<longrightarrow> m3 (b + Z + 8) = Some (b + ns)" "m3 (b + Z + 8) \<noteq> None" "m3 b \<noteq> None"
      "tlsf_inv c t3 (m3(b + Z + 8 \<mapsto> if ns = Z then b else b + ns, b \<mapsto> ns + 1)) (plug P s xs (carve Z ns (Used ptr al n)) ys Q)"
      "changes_only m (m3(b + Z + 8 \<mapsto> if ns = Z then b else b + ns, b \<mapsto> ns + 1))
        (link_cells (dom (all_frees c ps)) \<union> {b ..< b + Z} \<union> {b + Z + 8})"
      "\<forall>a. ptr \<le> a \<and> a < b + min z ns \<longrightarrow> (m3(b + Z + 8 \<mapsto> if ns = Z then b else b + ns, b \<mapsto> ns + 1)) a = m a"
    by (rule resize_run [OF I ps nb b Z ns(1,2) le(1) ns(4)])
  have M: "m3(b + Z + 8 \<mapsto> if ns = Z then b else b + ns, b \<mapsto> ns + 1) = m3(b \<mapsto> ns + 1)"
    using r(8) le by (simp add: fun_upd_idem)
  let ?m2 = "m1(b + Z + 8 \<mapsto> b + ns, b + ns \<mapsto> Z - ns, b + ns + 8 \<mapsto> b)"
  have "z < USIZE_LIM" "b + z < USIZE_LIM" "b + ns < USIZE_LIM" and lim: "Z - ns < USIZE_LIM" using u(8) lm(2) ns(3) by linarith+
  then have st: "sub_usize z ns = Some (z - ns)" "add_usize b ns = Some (b + ns)" "next_phys_block m b = Some (b + z)"
      "write_size m3 b (ns OR SIZE_USED) = Some (m3(b \<mapsto> ns + 1))"
      "write_hdr (m1(b + Z + 8 \<mapsto> b + ns)) (b + ns) \<lparr>bh_size = Z - ns, bh_prev_phys_block = Some b\<rparr> = Some ?m2"
      "link_free_block c t1 ?m2 (b + ns) (Z - ns) = Some (t3, m3)"
    using ns u(1,4,6) r(6,7,10) le by (simp_all add: sub_usize_Some add_usize_Some next_phys_block_used mem_simps)
  have wp: "write_prev_phys m1 (b + Z) (Some (b + ns)) = Some (m1(b + Z + 8 \<mapsto> b + ns))"
    using r(5) lm(1) by (simp add: mem_simps)
  note br = shrink_opens [OF r(2-4) Z ns(3) lim wp]
  have "shrink_block c t m b ns z = Some (t3, m3(b \<mapsto> ns + 1))"
    by (simp only: shrink_block_def st r(1) br run_simps)
  then show thesis by (rule that [OF _ r(11-13) [unfolded M]])
qed

lemma grow_closes:
  fixes t1 :: "('f::len word, 's::len word) tlsf"
  assumes link: "(if ns = Z then Some (t1, m1) else link_free_block c t1 (m1(b + ns \<mapsto> Z - ns, b + ns + 8 \<mapsto> b)) (b + ns) (Z - ns)) = Some (t3, m3)"
    and Z: "Z = z + nf" and ns: "32 dvd ns" "z < ns" "ns \<le> Z" and al: "32 dvd b + Z" and lim: "b + ns < USIZE_LIM" and b: "32 dvd b"
    and cells: "m1 (b + Z + 8) \<noteq> None" "ns < Z \<longrightarrow> m1 (b + ns) \<noteq> None \<and> m1 (b + ns + 8) \<noteq> None" "m3 (b + Z + 8) \<noteq> None"
  shows "(if ns - z < nf then do {
        next_size \<leftarrow> sub_usize nf (ns - z);
        next_phys \<leftarrow> add_usize b ns;
        m \<leftarrow> write_hdr m1 next_phys \<lparr>bh_size = next_size, bh_prev_phys_block = Some b\<rparr>;
        (t, m) \<leftarrow> link_free_block c t1 m next_phys next_size;
        m \<leftarrow> write_prev_phys m (b + Z) (Some next_phys);
        Some (t, m)
      }
      else do {
        debug_assert (ns - z = nf);
        m \<leftarrow> write_prev_phys m1 (b + Z) (Some b);
        Some (t1, m)
      }) = Some (t3, m3(b + Z + 8 \<mapsto> if ns = Z then b else b + ns))"
proof (cases "ns = Z")
  case True
  then have "(ns - z < nf) = False" "(ns - z = nf) = True" "m3 = m1" "t3 = t1"
      "write_prev_phys m1 (b + Z) (Some b) = Some (m1(b + Z + 8 \<mapsto> b))"
    using Z link cells(1) al by (simp_all add: mem_simps)
  with True show ?thesis by (simp only: run_simps)
next
  case False
  then have lt: "ns < Z" using ns(3) by simp
  have "nf - (ns - z) = Z - ns" "32 dvd b + ns" using Z ns b by (linarith, simp)
  then have "(ns - z < nf) = True" "sub_usize nf (ns - z) = Some (Z - ns)" "add_usize b ns = Some (b + ns)"
      "write_hdr m1 (b + ns) \<lparr>bh_size = Z - ns, bh_prev_phys_block = Some b\<rparr> = Some (m1(b + ns \<mapsto> Z - ns, b + ns + 8 \<mapsto> b))"
      "link_free_block c t1 (m1(b + ns \<mapsto> Z - ns, b + ns + 8 \<mapsto> b)) (b + ns) (Z - ns) = Some (t3, m3)"
      "write_prev_phys m3 (b + Z) (Some (b + ns)) = Some (m3(b + Z + 8 \<mapsto> b + ns))" "(ns = Z) = False"
    using lt Z ns(2) link cells(2,3) al lim by (auto simp: sub_usize_def add_usize_def mem_simps)
  then show ?thesis by (simp only: run_simps)
qed

lemma grow_into_next_ok:
  fixes t :: "('f::len word, 's::len word) tlsf"
  assumes I: "tlsf_inv c t m ps" and ps: "ps = plug P s xs ((z, Used ptr al sz) # post) ys Q"
    and nb: "free_or_none post" "ys \<noteq> []" "snd (hd ys) \<noteq> Free" and b: "b = s + extent xs"
    and Z: "Z = z + extent post" and ns: "32 dvd ns" "z < ns" "ns \<le> Z" "ptr + n \<le> b + ns"
  obtains t' m' where "grow_into_next c t m b (b + z) ns z = Some (Inr (t', m'))"
    and "tlsf_inv c t' m' (plug P s xs (carve Z ns (Used ptr al n)) ys Q)"
    and "changes_only m m' (link_cells (dom (all_frees c ps)) \<union> {b ..< b + Z} \<union> {b + Z + 8})"
    and "\<forall>a. ptr \<le> a \<and> a < b + min z ns \<longrightarrow> m' a = m a"
proof -
  have e: "(b, z, Used ptr al sz, last_addr None s xs) \<in> set (all_entries ps)" by (simp add: ps all_entries_plug b)
  note u = used_entry [OF I e] and lm = run_limits [OF I ps nb(1) b, folded Z]
  have ns0: "32 \<le> ns" using u(7) ns(2) by linarith
  obtain nf t1 m1 t3 m3 where r: "read_size m (b + z) = Some nf" "(nf AND SIZE_USED = 0) = (post \<noteq> [])"
      "(if post = [] then Some (t, m) else unlink_free_block c t m (b + z) nf) = Some (t1, m1)"
      "post \<noteq> [] \<longrightarrow> nf = extent post \<and> nf AND SIZE_SIZE_MASK = nf \<and> next_phys_block m (b + z) = Some (b + Z) \<and>
        next_phys_block m1 (b + z) = Some (b + Z)"
      "m1 (b + Z + 8) \<noteq> None" "ns < Z \<longrightarrow> m1 (b + ns) \<noteq> None \<and> m1 (b + ns + 8) \<noteq> None"
      "(if ns = Z then Some (t1, m1) else link_free_block c t1
        ((if False then m1(b + Z + 8 \<mapsto> b + ns) else m1)(b + ns \<mapsto> Z - ns, b + ns + 8 \<mapsto> b)) (b + ns) (Z - ns)) = Some (t3, m3)"
      "False \<longrightarrow> ns < Z \<longrightarrow> m3 (b + Z + 8) = Some (b + ns)" "m3 (b + Z + 8) \<noteq> None" "m3 b \<noteq> None"
      "tlsf_inv c t3 (m3(b + Z + 8 \<mapsto> if ns = Z then b else b + ns, b \<mapsto> ns + 1)) (plug P s xs (carve Z ns (Used ptr al n)) ys Q)"
      "changes_only m (m3(b + Z + 8 \<mapsto> if ns = Z then b else b + ns, b \<mapsto> ns + 1))
        (link_cells (dom (all_frees c ps)) \<union> {b ..< b + Z} \<union> {b + Z + 8})"
      "\<forall>a. ptr \<le> a \<and> a < b + min z ns \<longrightarrow> (m3(b + Z + 8 \<mapsto> if ns = Z then b else b + ns, b \<mapsto> ns + 1)) a = m a"
    by (rule resize_run [OF I ps nb b Z ns0 ns(1,3,4)])
  let ?m2 = "m1(b + ns \<mapsto> Z - ns, b + ns + 8 \<mapsto> b)" and ?N = "m3(b + Z + 8 \<mapsto> if ns = Z then b else b + ns)"
  have post: "post \<noteq> []" using ns(2,3) Z by auto
  then have nf: "nf = extent post" "Z = z + nf" "next_phys_block m (b + z) = Some (b + Z)" "unlink_free_block c t m (b + z) nf = Some (t1, m1)"
      "(nf = nf AND SIZE_SIZE_MASK) = True" "(nf AND SIZE_USED \<noteq> 0) = False"
    using r(2-4) Z by auto
  have "Z < USIZE_LIM" "b + ns < USIZE_LIM" using lm(2) ns(3) by linarith+
  then have st: "sub_usize ns z = Some (ns - z)" "add_usize z nf = Some Z" "(nf < ns - z) = False"
      "write_size ?N b (ns OR SIZE_USED) = Some (?N(b \<mapsto> ns + 1))"
    using ns nf(2) u(4) r(10) by (auto simp: sub_usize_def add_usize_def mem_simps)
  note br = grow_closes [OF r(7) [unfolded if_False] nf(2) ns(1-3) lm(1) \<open>b + ns < USIZE_LIM\<close> u(4) r(5,6,9)]
  have "grow_into_next c t m b (b + z) ns z = Some (Inr (t3, ?N(b \<mapsto> ns + 1)))"
    by (simp only: grow_into_next_def st nf(3-6) r(1) br run_simps)
  then show thesis by (rule that [OF _ r(11-13)])
qed

lemma grow_into_next_fail:
  fixes t :: "('f::len word, 's::len word) tlsf"
  assumes I: "tlsf_inv c t m ps" and ps: "ps = plug P s xs ((z, Used ptr al sz) # post) ys Q"
    and nb: "free_or_none post" "ys \<noteq> []" "snd (hd ys) \<noteq> Free" and b: "b = s + extent xs"
    and Z: "Z = z + extent post" and ns: "Z < ns"
  shows "grow_into_next c t m b (b + z) ns z = Some (Inl (Z, b + Z))"
proof -
  obtain nf t1 m1 where o: "read_size m (b + z) = Some nf" "(nf AND SIZE_USED = 0) = (post \<noteq> [])"
      "(if post = [] then Some (t, m) else unlink_free_block c t m (b + z) nf) = Some (t1, m1)"
      "post \<noteq> [] \<longrightarrow> nf = extent post \<and> nf AND SIZE_SIZE_MASK = nf \<and> next_phys_block m (b + z) = Some (b + z + nf) \<and>
        next_phys_block m1 (b + z) = Some (b + z + nf)"
    by (rule open_next [OF I ps nb b])
  have s: "sub_usize ns z = Some (ns - z)" using ns Z by (simp add: sub_usize_def)
  show ?thesis
  proof (cases "post = []")
    case True
    then show ?thesis using o(1,2) s Z by (simp add: grow_into_next_def)
  next
    case False
    then have nf: "nf = extent post" "Z = z + nf" "next_phys_block m (b + z) = Some (b + Z)"
        "(nf = nf AND SIZE_SIZE_MASK) = True" "(nf AND SIZE_USED \<noteq> 0) = False"
      using o(2,4) Z by (auto simp: add.assoc)
    have "add_usize z nf = Some Z" "(nf < ns - z) = True"
      using run_limits(2) [OF I ps nb(1) b] ns nf(2) Z by (auto simp: add_usize_def)
    then show ?thesis by (simp only: grow_into_next_def s o(1) nf(3-5) run_simps)
  qed
qed

section \<open>Growing into the previous block\<close>

lemma move_sizes:
  assumes L: "layout_ok l" and a: "32 dvd a" "a + 48 \<le> ptr" "ptr < USIZE_LIM" "lalign l dvd ptr"
  defines "np \<equiv> round_up (lalign l) (a + 16)"
  shows "add_usize a SIZE_OF_UsedBlockHdr = Some (a + 16)"
    and "add_usize (a + 16) (lalign l) = Some (a + 16 + lalign l)"
    and "sub_usize (a + 16 + lalign l) 1 = Some (a + 16 + (lalign l - 1))"
    and "(a + 16 + (lalign l - 1)) AND not_usize (lalign l - 1) = np"
    and "sub_usize np a = Some (np - a)" and "a + 16 \<le> np" and "np \<le> ptr" and "lalign l dvd np"
    and "if lalign l < 32 then np = a + 16 else a + 32 \<le> np"
proof -
  have al: "is_power_of_two (lalign l)" "lalign l < USIZE_LIM" using L by (simp_all add: layout_ok_def)
  then have pos: "0 < lalign l" by (simp add: is_power_of_two_def)
  note ru = round_up_payload [OF a(1) al(1), folded np_def]
  show sh: "if lalign l < 32 then np = a + 16 else a + 32 \<le> np" using ru by simp
  show le: "np \<le> ptr" unfolding np_def by (rule round_up_least) (use a(2,4) in simp_all)
  show "lalign l dvd np" by (simp add: np_def)
  have lim: "a + 16 + lalign l < USIZE_LIM"
  proof (cases "lalign l < 32")
    case True
    then show ?thesis using a(2,3) by linarith
  next
    case False
    obtain k where k: "lalign l = 2 ^ k" using al(1) by (rule is_power_of_two_obtain)
    then have "(2::nat) ^ k < 2 ^ 64" using al(2) by (simp add: USIZE_LIM_def)
    then have "k < 64" by (rule power_less_imp_less_exp [rotated]) simp
    then have "lalign l dvd USIZE_LIM" using pow2_dvd_USIZE_LIM [of k] k by simp
    moreover have "lalign l dvd np" by (simp add: np_def)
    ultimately have "np + lalign l \<le> USIZE_LIM" using le a(3) by (intro dvd_less_add_le) simp_all
    then show ?thesis using False sh by simp
  qed
  then show "add_usize a SIZE_OF_UsedBlockHdr = Some (a + 16)" "add_usize (a + 16) (lalign l) = Some (a + 16 + lalign l)"
    by (simp_all add: add_usize_def SIZE_OF_UsedBlockHdr_def)
  show "sub_usize (a + 16 + lalign l) 1 = Some (a + 16 + (lalign l - 1))" using pos by (simp add: sub_usize_def)
  show "(a + 16 + (lalign l - 1)) AND not_usize (lalign l - 1) = np"
    unfolding np_def by (rule and_not_align [OF al]) (use lim pos in linarith)
  show ge: "a + 16 \<le> np" unfolding np_def by (rule round_up_ge [OF pos])
  then show "sub_usize np a = Some (np - a)" by (simp add: sub_usize_def)
qed

text \<open>Both free neighbours are unlinked.\<close>

lemma open_both:
  fixes t :: "('f::len word, 's::len word) tlsf"
  assumes I: "tlsf_inv c t m ps" and ps: "ps = plug P s xs ((zp, Free) # (z, Used ptr al sz) # post) ys Q"
    and nb: "free_or_none post" "ys \<noteq> []" "snd (hd ys) \<noteq> Free" and a: "a = s + extent xs" "b = a + zp"
    and W: "W = zp + (z + extent post)"
  obtains t1 m1 nf t2 m2 where "unlink_free_block c t m a zp = Some (t1, m1)" and "read_size m1 (b + z) = Some nf"
    and "(if nf AND SIZE_USED = 0 then do {
        debug_assert (nf = nf AND SIZE_SIZE_MASK);
        unlink_free_block c t1 m1 (b + z) nf
      } else Some (t1, m1)) = Some (t2, m2)"
    and "fl_inv c t2 m2 (\<lambda>y. if a \<le> y \<and> y < a + W then None else all_frees c ps y)"
    and "changes_only m m2 (link_cells (dom (all_frees c ps)))"
    and "\<forall>x. 32 dvd x \<longrightarrow> m2 x = m x \<and> m2 (x + 8) = m (x + 8)"
    and "\<forall>x. b \<le> x \<and> x < b + z \<longrightarrow> m2 x = m x"
proof -
  let ?F = "all_frees c ps"
  note ok = inv_pools_ok [OF I]
  have fl: "fl_inv c t m ?F" using I by (simp add: tlsf_inv_def)
  have ea: "(a, zp, Free, last_addr None s xs) \<in> set (all_entries ps)"
    and eb: "(b, z, Used ptr al sz, Some a) \<in> set (all_entries ps)" by (simp_all add: ps all_entries_plug a)
  note fa = entry_facts [OF ok ea] and fb = entry_facts [OF ok eb]
  have pl: "ps = plug P s (xs @ [(zp, Free)]) ((z, Used ptr al sz) # post) ys Q" and b2: "b = s + extent (xs @ [(zp, Free)])"
    by (simp_all add: ps plug_def a)
  have zb: "blk_ok (z, Used ptr al sz)" using fb by (simp add: blk_ok_def)
  obtain t1 m1 where u: "unlink_free_block c t m a zp = Some (t1, m1)" "fl_inv c t1 m1 (?F(a := None))"
      "changes_only m m1 (link_cells (dom ?F))" "\<forall>x. 32 dvd x \<longrightarrow> m1 x = m x \<and> m1 (x + 8) = m (x + 8)"
    by (rule unlink_entry [OF I ea fl refl subset_refl changes_only_refl]) simp
  have G: "(?F(a := None)) (b + z) = ?F (b + z)" "dom (?F(a := None)) \<subseteq> dom ?F" using fa fb a(2) by auto
  obtain nf t2 m2 where o: "read_size m1 (b + z) = Some nf" "(nf AND SIZE_USED = 0) = (post \<noteq> [])"
      "(if post = [] then Some (t1, m1) else unlink_free_block c t1 m1 (b + z) nf) = Some (t2, m2)"
      "post \<noteq> [] \<longrightarrow> nf = extent post \<and> nf AND SIZE_SIZE_MASK = nf \<and> next_phys_block m1 (b + z) = Some (b + z + nf) \<and>
        next_phys_block m2 (b + z) = Some (b + z + nf)"
      "fl_inv c t2 m2 (\<lambda>y. if b + z \<le> y \<and> y < b + z + extent post then None else (?F(a := None)) y)"
      "changes_only m m2 (link_cells (dom ?F))" "\<forall>x. 32 dvd x \<longrightarrow> m2 x = m x \<and> m2 (x + 8) = m (x + 8)"
    by (rule unlink_post [OF I pl zb nb b2 u(2) G u(3,4)])
  have gap: "?F y = None" if "a < y" "y < b" for y
    using plug_frees [of c P s xs "[(zp, Free)]" "(z, Used ptr al sz) # post @ ys" Q y] ok that
    by (auto simp: ps plug_def a split: option.splits)
  have "?F y = None" if "a < y" "y < b + z" for y
    using gap [of y] used_no_frees [OF ok eb, of y] that by (cases "y < b") simp_all
  then have eq: "(\<lambda>y. if b + z \<le> y \<and> y < b + z + extent post then None else (?F(a := None)) y) =
      (\<lambda>y. if a \<le> y \<and> y < a + W then None else ?F y)"
    using a(2) fa by (auto simp: fun_eq_iff W)
  have br: "(if nf AND SIZE_USED = 0 then do {debug_assert (nf = nf AND SIZE_SIZE_MASK); unlink_free_block c t1 m1 (b + z) nf}
      else Some (t1, m1)) = Some (t2, m2)"
  proof (cases "post = []")
    case False
    then have "(nf = nf AND SIZE_SIZE_MASK) = True" using o(4) by metis
    then show ?thesis using False o(2,3) by (simp only: run_simps)
  qed (use o(2,3) in simp)
  have "\<forall>x. b \<le> x \<and> x < b + z \<longrightarrow> m2 x = m x" using used_not_linked [OF ok eb o(6)] by blast
  then show thesis by (rule that [OF u(1) o(1) br o(5) [unfolded eq] o(6,7)])
qed

text \<open>The rest of the run becomes a free block. Since the block after the clearance is never free, the
  branch that merges with it is dead.\<close>

lemma close_clearance_run:
  fixes t1 :: "('f::len word, 's::len word) tlsf"
  assumes f: "(if ns = W then Some (t1, m1) else link_free_block c t1 (m1(a + W + 8 \<mapsto> a + ns, a + ns \<mapsto> W - ns, a + ns + 8 \<mapsto> a)) (a + ns) (W - ns)) =
      Some (t3, m3)"
    and m3: "ns < W \<longrightarrow> m3 (a + W + 8) = Some (a + ns)" and al: "32 dvd a + W" "32 dvd a + ns" and le: "ns \<le> W" and lim: "a + W < USIZE_LIM"
    and m1: "m1 (a + W) = Some v" "v AND SIZE_USED \<noteq> 0" "m1 (a + W + 8) \<noteq> None" "ns < W \<longrightarrow> m1 (a + ns) \<noteq> None \<and> m1 (a + ns + 8) \<noteq> None"
  shows "close_clearance c t1 m1 a ns W (a + W) = Some (t3, m3(a + W + 8 \<mapsto> if ns = W then a else a + ns))"
proof (cases "ns = W")
  case True
  then show ?thesis using f m1(3) al(1) by (simp add: close_clearance_def mem_simps)
next
  case False
  let ?m2 = "m1(a + W + 8 \<mapsto> a + ns, a + ns \<mapsto> W - ns, a + ns + 8 \<mapsto> a)"
  have lt: "ns < W" using False le by simp
  have "add_usize a ns = Some (a + ns)" "sub_usize W ns = Some (W - ns)"
      "read_size m1 (a + W) = Some v" "(ns = W) = False" "(v AND SIZE_USED = 0) = False"
      "write_prev_phys m1 (a + W) (Some (a + ns)) = Some (m1(a + W + 8 \<mapsto> a + ns))"
      "write_hdr (m1(a + W + 8 \<mapsto> a + ns)) (a + ns) \<lparr>bh_size = W - ns, bh_prev_phys_block = Some a\<rparr> = Some ?m2"
    using lt lim al m1 by (auto simp: add_usize_def sub_usize_def mem_simps)
  moreover have "link_free_block c t1 ?m2 (a + ns) (W - ns) = Some (t3, m3)" using f False by simp
  ultimately have "close_clearance c t1 m1 a ns W (a + W) = Some (t3, m3)"
    by (simp only: close_clearance_def run_simps)
  moreover have "m3 = m3(a + W + 8 \<mapsto> if ns = W then a else a + ns)" using m3 lt by (simp add: fun_upd_idem)
  ultimately show ?thesis by simp
qed

lemma close_clearance_ok:
  fixes t1 :: "('f::len word, 's::len word) tlsf"
  assumes I: "tlsf_inv c t m (plug P s xs mid ys Q)" and mid: "mid \<noteq> []" "list_all blk_ok mid"
    and a: "a = s + extent xs" "W = extent mid" and ns: "32 \<le> ns" "32 dvd ns" "ns \<le> W" and nf: "snd (hd ys) \<noteq> Free"
    and u: "a + 16 \<le> np" "np + n \<le> a + ns" "is_power_of_two al" "al dvd np"
      "if al < 32 then np = a + 16 else a + 32 \<le> np"
    and fl: "fl_inv c t1 m1 (\<lambda>y. if a \<le> y \<and> y < a + W then None else all_frees c (plug P s xs mid ys Q) y)"
    and ch: "changes_only m m1 (link_cells (dom (all_frees c (plug P s xs mid ys Q))) \<union> {a ..< a + W} \<union> {a + W + 8})"
    and hd: "m1 (a + 8) = m (a + 8)" "m1 (a + W) = m (a + W)"
  obtains t3 N where "close_clearance c t1 m1 a ns W (a + W) = Some (t3, N)" and "N a \<noteq> None"
    and "32 \<le> al \<longrightarrow> N (np - 8) \<noteq> None"
    and "\<forall>M. (if al < 32 then M = N(a \<mapsto> ns + 1) else M = N(a \<mapsto> ns + 1, np - 8 \<mapsto> a)) \<longrightarrow>
      tlsf_inv c t3 M (plug P s xs (carve W ns (Used np al n)) ys Q) \<and>
      changes_only m M (link_cells (dom (all_frees c (plug P s xs mid ys Q))) \<union> {a ..< a + W} \<union> {a + W + 8}) \<and>
      (\<forall>x. np \<le> x \<and> x < a + ns \<longrightarrow> M x = m1 x)"
proof -
  let ?ps = "plug P s xs mid ys Q" and ?S = "link_cells (dom (all_frees c (plug P s xs mid ys Q))) \<union> {a ..< a + W} \<union> {a + W + 8}"
  let ?m2 = "m1(a + W + 8 \<mapsto> a + ns, a + ns \<mapsto> W - ns, a + ns + 8 \<mapsto> a)"
  note ok = inv_pools_ok [OF I]
  note ba = run_start [OF ok mid(1), folded a(1)]
  obtain zn kn ys' where nx: "ys = (zn, kn) # ys'" "(a + W, zn, kn, last_addr (last_addr None s xs) a mid) \<in> set (all_entries ?ps)"
      "a + W + zn \<le> USIZE_LIM" "32 \<le> zn" "32 dvd a + W"
    by (rule next_entry [OF ok mid, folded a])
  obtain zm km mid1 where "mid = (zm, km) # mid1" using mid(1) by (cases mid) auto
  then have "(a, zm, km, last_addr None s xs) \<in> set (all_entries ?ps)" by (simp add: all_entries_plug a)
  then have pp: "m1 (a + 8) = Some (of_ptr (last_addr None s xs))" using inv_hdr [OF I] hd(1) by fastforce
  obtain t3 m3 where f: "(if ns = W then Some (t1, m1) else link_free_block c t1 ?m2 (a + ns) (W - ns)) = Some (t3, m3)"
      "changes_only m m3 ?S" "ns < W \<longrightarrow> (\<forall>x. 32 dvd x \<longrightarrow> m3 x = ?m2 x \<and> m3 (x + 8) = ?m2 (x + 8))"
      "\<forall>M N. N = m3(a + W + 8 \<mapsto> if ns = W then a else a + ns) \<longrightarrow>
        M = N(a \<mapsto> ns + 1) \<and> (32 \<le> al \<longrightarrow> m1 (np - 8) = Some a) \<or> M = N(a \<mapsto> ns + 1, np - 8 \<mapsto> a) \<and> 32 \<le> al \<longrightarrow>
        tlsf_inv c t3 M (plug P s xs (carve W ns (Used np al n)) ys Q) \<and> changes_only m M ?S \<and>
        (\<forall>x. np \<le> x \<and> x < a + ns \<longrightarrow> M x = m1 x)"
    by (rule fill_run [OF I mid a ns nf u fl ch pp disjI1 [OF refl]])
  let ?N = "m3(a + W + 8 \<mapsto> if ns = W then a else a + ns)"
  have mp: "m x \<noteq> None" if "a \<le> x" "x < a + W" "8 dvd x" for x using run_mapped [OF I, of x] that by (simp add: a)
  note rc = resize_cells [OF I mid a ns(2) ch]
  have "m1 (a + W) = Some (size_word zn kn)" using inv_hdr [OF I nx(2)] hd(2) by simp
  moreover have "size_word zn kn AND SIZE_USED \<noteq> 0" using entry_facts [OF ok nx(2)] nf by (simp add: nx(1) mem_simps)
  moreover have "ns < W \<longrightarrow> m3 (a + W + 8) = Some (a + ns)" using f(3) rc(1,2) by (simp add: aligned_neq)
  moreover have "a + W < USIZE_LIM" using nx(3,4) by linarith
  ultimately have ev: "close_clearance c t1 m1 a ns W (a + W) = Some (t3, ?N)"
    by (intro close_clearance_run [OF f(1) _ rc(1,2) ns(3) _ _ _ rc(3,4)])
  show thesis
  proof (rule that [OF ev])
    have "np - 8 \<ge> a" "np - 8 < a + W" "8 dvd np - 8" if "32 \<le> al"
      using that u(1,2,4) ns(3) align_cases(2) [OF u(3)] dvd_32_8 dvd_trans by (auto intro!: dvd_diff_nat)
    then show "32 \<le> al \<longrightarrow> ?N (np - 8) \<noteq> None" using mp [of "np - 8"] changes_only_mapped [OF f(2), of "np - 8"] by auto
    show "?N a \<noteq> None" using mp [of a] ns dvd_32_8 [OF ba(1)] changes_only_mapped [OF f(2), of a] by simp
    show "\<forall>M. (if al < 32 then M = ?N(a \<mapsto> ns + 1) else M = ?N(a \<mapsto> ns + 1, np - 8 \<mapsto> a)) \<longrightarrow>
      tlsf_inv c t3 M (plug P s xs (carve W ns (Used np al n)) ys Q) \<and> changes_only m M ?S \<and>
      (\<forall>x. np \<le> x \<and> x < a + ns \<longrightarrow> M x = m1 x)"
    proof (intro allI impI)
      fix M assume "if al < 32 then M = ?N(a \<mapsto> ns + 1) else M = ?N(a \<mapsto> ns + 1, np - 8 \<mapsto> a)"
      then have "M = ?N(a \<mapsto> ns + 1) \<and> (32 \<le> al \<longrightarrow> m1 (np - 8) = Some a) \<or> M = ?N(a \<mapsto> ns + 1, np - 8 \<mapsto> a) \<and> 32 \<le> al"
        by (cases "al < 32") simp_all
      then show "tlsf_inv c t3 M (plug P s xs (carve W ns (Used np al n)) ys Q) \<and> changes_only m M ?S \<and>
          (\<forall>x. np \<le> x \<and> x < a + ns \<longrightarrow> M x = m1 x)"
        by (rule f(4) [rule_format, OF refl])
    qed
  qed
qed

text \<open>Copying within a run whose free blocks have been unlinked does not disturb the free lists.\<close>

lemma copy_in_run:
  fixes t2 :: "('f::len word, 's::len word) tlsf"
  assumes I: "tlsf_inv c t m ps" and ps: "ps = plug P s xs mid ys Q" and a: "a = s + extent xs" "W = extent mid"
    and fl: "fl_inv c t2 m2 (\<lambda>y. if a \<le> y \<and> y < a + W then None else all_frees c ps y)"
    and ch: "changes_only m m2 (link_cells (dom (all_frees c ps)))"
    and r: "8 dvd src" "a \<le> src" "src + n \<le> a + W" "8 dvd dst" "a + 16 \<le> dst" "dst + n \<le> a + W"
  obtains m3 where "copy m2 src dst n = Some m3"
    and "fl_inv c t2 m3 (\<lambda>y. if a \<le> y \<and> y < a + W then None else all_frees c ps y)"
    and "changes_only m m3 (link_cells (dom (all_frees c ps)) \<union> {a ..< a + W} \<union> {a + W + 8})"
    and "\<forall>x. x < a + 16 \<or> a + W \<le> x \<longrightarrow> m3 x = m2 x"
    and "\<forall>i < n. load_byte m3 (dst + i) = load_byte m2 (src + i)"
proof -
  let ?H = "\<lambda>y. if a \<le> y \<and> y < a + W then None else all_frees c ps y"
  have mp: "m2 (p + i - (p + i) mod 8) \<noteq> None" if "8 dvd p" "a \<le> p" "p + n \<le> a + W" "i < n" for p i
  proof -
    have c: "p \<le> p + i - (p + i) mod 8" "p + i - (p + i) mod 8 \<le> p + i" using cell_of_byte [OF that(1), of "p + i"] by simp_all
    then have "m (p + i - (p + i) mod 8) \<noteq> None"
      using that by (intro run_mapped [OF I [unfolded ps]]) (auto simp: a [symmetric] minus_mod_eq_mult_div)
    then show ?thesis using changes_only_mapped [OF ch] by blast
  qed
  obtain m3 where m3: "copy m2 src dst n = Some m3" "changes_only m2 m3 (cells dst n)"
      "\<And>i. i < n \<Longrightarrow> load_byte m3 (dst + i) = load_byte m2 (src + i)"
    by (rule copy_obtain [of n m2 src dst]) (use mp r in auto)
  have in_run: "cells dst n \<subseteq> {a + 16 ..< a + W}" using cells_aligned [OF r(4), of n] r(5,6) by auto
  show thesis
  proof (rule that [OF m3(1)])
    show "fl_inv c t2 m3 ?H"
    proof (rule fls.frame_changes [OF fl m3(2)])
      have "x \<notin> link_cells (dom ?H)" if "x \<in> cells dst n" for x
        by (rule run_not_linked [OF inv_pools_ok [OF I, unfolded ps], of x])
          (use in_run that in \<open>auto simp: a [symmetric] ps [symmetric] split: if_splits\<close>)
      then show "cells dst n \<inter> link_cells (dom ?H) = {}" by blast
    qed
    show "changes_only m m3 (link_cells (dom (all_frees c ps)) \<union> {a ..< a + W} \<union> {a + W + 8})"
      by (rule changes_only_trans [OF ch m3(2)]) (use in_run in auto)
    show "\<forall>x. x < a + 16 \<or> a + W \<le> x \<longrightarrow> m3 x = m2 x" using m3(2) in_run by (auto simp: changes_only_def)
  qed (use m3(3) in blast)
qed

lemma pointer_aligned_8:
  assumes "is_power_of_two al" "al dvd np" "if al < 32 then np = a + 16 else a + 32 \<le> np" "32 dvd a"
  shows "8 dvd np"
proof (cases "al < 32")
  case True
  then show ?thesis using assms(3) dvd_32_8 [OF assms(4)] by auto
next
  case False
  then show ?thesis using assms(2) align_cases(2) [OF assms(1)] by (meson dvd_32_8 dvd_trans not_less)
qed

text \<open>The contents survive the move: what is copied is what the old block held, and closing the
block leaves the copy alone.\<close>

lemma moved_bytes:
  assumes "8 dvd np" "8 dvd ptr" "np + n \<le> e" "ptr + n \<le> e'"
    and "\<forall>x. np \<le> x \<and> x < e \<longrightarrow> M x = m3 x" "\<forall>i < n. load_byte m3 (np + i) = load_byte m2 (ptr + i)"
      "\<forall>x. ptr \<le> x \<and> x < e' \<longrightarrow> m2 x = m x"
  shows "\<forall>i < n. load_byte M (np + i) = load_byte m (ptr + i)"
proof (intro allI impI)
  fix i assume i: "i < n"
  have "load_byte M (np + i) = load_byte m3 (np + i)"
    by (rule bytes_kept [OF assms(1,5)]) (use i assms(3) in simp)
  also have "\<dots> = load_byte m2 (ptr + i)" using assms(6) i by simp
  also have "\<dots> = load_byte m (ptr + i)"
    by (rule bytes_kept [OF assms(2,7)]) (use i assms(4) in simp)
  finally show "load_byte M (np + i) = load_byte m (ptr + i)" .
qed

lemma move_into_prev_ok:
  fixes t :: "('f::len word, 's::len word) tlsf"
  assumes I: "tlsf_inv c t m ps" and ps: "ps = plug P s xs ((zp, Free) # (z, Used ptr (lalign l) sz) # post) ys Q"
    and nb: "free_or_none post" "ys \<noteq> []" "snd (hd ys) \<noteq> Free" and a: "a = s + extent xs" "b = a + zp"
    and Z: "Z = z + extent post" and L: "layout_ok l"
    and np: "np = round_up (lalign l) (a + 16)" and ns: "ns = round_up 32 (np - a + lsize l)"
      "np - a + lsize l + 31 < USIZE_LIM" "ns \<le> zp + Z"
  obtains t' m' where "move_into_prev c t m ptr b l (ptr - b) z (b + z) Z (b + Z) = Some (Some np, t', m')"
    and "tlsf_inv c t' m' (plug P s xs (carve (zp + Z) ns (Used np (lalign l) (lsize l))) ys Q)"
    and "changes_only m m' (link_cells (dom (all_frees c ps)) \<union> {a ..< a + (zp + Z)} \<union> {a + (zp + Z) + 8})"
    and "\<forall>i < min (lsize l) (b + z - ptr). load_byte m' (np + i) = load_byte m (ptr + i)"
proof -
  define W where "W = zp + Z"
  let ?al = "lalign l" and ?S = "link_cells (dom (all_frees c ps)) \<union> {a ..< a + W} \<union> {a + W + 8}"
  let ?mid = "(zp, Free) # (z, Used ptr (lalign l) sz) # post"
  define n where "n = min (lsize l) (b + z - ptr)"
  note ok = inv_pools_ok [OF I]
  have ea: "(a, zp, Free, last_addr None s xs) \<in> set (all_entries ps)"
    and eb: "(b, z, Used ptr ?al sz, Some a) \<in> set (all_entries ps)" by (simp_all add: ps all_entries_plug a)
  note fa = entry_facts [OF ok ea] and u = used_entry [OF I eb]
  have mid: "?mid \<noteq> []" "list_all blk_ok ?mid"
    by simp (rule run_blk_ok [OF ok [unfolded ps]], use nb(1) in \<open>auto simp: free_or_none_def\<close>)
  have W: "W = zp + (z + extent post)" "W = extent ?mid" "b + Z = a + W" by (simp_all add: W_def Z a)
  obtain zn where nx: "a + W + zn \<le> USIZE_LIM" "32 \<le> zn" "32 dvd a + W"
    by (rule next_entry [OF ok [unfolded ps] mid, folded a(1) W(2)])
  have al: "is_power_of_two ?al" "?al dvd ptr" using u(3) by (simp_all add: used_ok_def)
  have "a + 48 \<le> ptr" using u(11) fa a(2) by linarith
  note sz = move_sizes [OF L _ this u(10) al(2), of, folded np, OF conjunct1 [OF fa]]
  have "0 < ns" "np - a + lsize l \<le> ns" "32 dvd ns" using sz(6) unfolding ns(1) by (simp_all add: round_up_32 less_le_trans [OF _ round_up_32(1)])
  then have nsf: "32 \<le> ns" "32 dvd ns" "ns \<le> W" "np + lsize l \<le> a + ns"
    using dvd_imp_le [of 32 ns] sz(6) ns(3) by (auto simp: W_def)
  obtain t1 m1 nf t2 m2 where o: "unlink_free_block c t m a zp = Some (t1, m1)" "read_size m1 (b + z) = Some nf"
      "(if nf AND SIZE_USED = 0 then do {
          debug_assert (nf = nf AND SIZE_SIZE_MASK);
          unlink_free_block c t1 m1 (b + z) nf
        } else Some (t1, m1)) = Some (t2, m2)"
      "fl_inv c t2 m2 (\<lambda>y. if a \<le> y \<and> y < a + W then None else all_frees c ps y)"
      "changes_only m m2 (link_cells (dom (all_frees c ps)))" "\<forall>x. 32 dvd x \<longrightarrow> m2 x = m x \<and> m2 (x + 8) = m (x + 8)"
      "\<forall>x. b \<le> x \<and> x < b + z \<longrightarrow> m2 x = m x"
    by (rule open_both [OF I ps nb a W(1)])
  have np8: "8 dvd np" by (rule pointer_aligned_8 [OF al(1) sz(8,9) conjunct1 [OF fa]])
  obtain m3 where cp: "copy m2 ptr np n = Some m3"
      "fl_inv c t2 m3 (\<lambda>y. if a \<le> y \<and> y < a + W then None else all_frees c ps y)" "changes_only m m3 ?S"
      "\<forall>x. x < a + 16 \<or> a + W \<le> x \<longrightarrow> m3 x = m2 x" "\<forall>i < n. load_byte m3 (np + i) = load_byte m2 (ptr + i)"
  proof (rule copy_in_run [OF I ps a(1) W(2) o(4,5) u(9) _ _ np8 sz(6), of n])
    have "ptr + n \<le> b + z" using u(12) by (simp add: n_def)
    then show "a \<le> ptr" "ptr + n \<le> a + W" "np + n \<le> a + W" using u(11) a(2) W(1) nsf(3,4) by (simp_all add: n_def)
  qed
  have hd: "m3 (a + 8) = m (a + 8)" "m3 (a + W) = m (a + W)" using cp(4) o(6) fa nx(3) by simp_all
  obtain t3 N where cl: "close_clearance c t2 m3 a ns W (a + W) = Some (t3, N)" "N a \<noteq> None" "32 \<le> ?al \<longrightarrow> N (np - 8) \<noteq> None"
      "\<forall>M. (if ?al < 32 then M = N(a \<mapsto> ns + 1) else M = N(a \<mapsto> ns + 1, np - 8 \<mapsto> a)) \<longrightarrow>
        tlsf_inv c t3 M (plug P s xs (carve W ns (Used np ?al (lsize l))) ys Q) \<and> changes_only m M ?S \<and>
        (\<forall>x. np \<le> x \<and> x < a + ns \<longrightarrow> M x = m3 x)"
    unfolding ps
    by (rule close_clearance_ok [OF I [unfolded ps] mid a(1) W(2) nsf(1-3) nb(3) sz(6) nsf(4) al(1) sz(8,9)
      cp(2,3) [unfolded ps] hd])
  define M where "M = (if ?al < 32 then N(a \<mapsto> ns + 1) else N(a \<mapsto> ns + 1, np - 8 \<mapsto> a))"
  have fin: "tlsf_inv c t3 M (plug P s xs (carve W ns (Used np ?al (lsize l))) ys Q)" "changes_only m M ?S"
      "\<forall>x. np \<le> x \<and> x < a + ns \<longrightarrow> M x = m3 x" using cl(4) [rule_format, of M] by (simp_all add: M_def)
  have lims: "8 \<le> np" "np < USIZE_LIM" "zp < USIZE_LIM" "Z + zp < USIZE_LIM" using sz(6,7) u(10) nx(1,2) fa W_def by linarith+
  have wp: "(if GRANULARITY \<le> ?al then write_pad (N(a \<mapsto> ns + 1)) np a else Some (N(a \<mapsto> ns + 1))) = Some M"
    using write_pad_eq [OF lims(1,2) np8, of "N(a \<mapsto> ns + 1)" a] cl(3) by (auto simp: M_def)
  have rd: "read_prev_phys m b = Some (Some a)" "read_size m a = Some zp"
    using entry_read(2) [OF I eb, of m] entry_read(1) [OF I ea, of m] by (simp_all add: size_word_def)
  have "ptr - b \<le> z" "z - (ptr - b) = b + z - ptr" using u(11,12) by linarith+
  then have st: "(zp AND SIZE_USED \<noteq> 0) = False" "(zp = zp AND SIZE_SIZE_MASK) = True"
      "add_usize Z zp = Some W" "(W < ns) = False" "sub_usize z (ptr - b) = Some (b + z - ptr)"
      "write_size N a (ns OR SIZE_USED) = Some (N(a \<mapsto> ns + 1))"
      "checked_add (np - a) (lsize l) = Some (np - a + lsize l)" "checked_add (np - a + lsize l) (GRANULARITY - 1) = Some (np - a + lsize l + 31)"
      "(np - a + lsize l + 31) AND not_usize (GRANULARITY - 1) = ns"
    using free_block_word [of zp] fa lims nsf(2,3) cl(2) ns(1,2)
    by (simp_all add: add_usize_def sub_usize_def checked_add_def and_not_31_round_up mem_simps W_def)
  have "move_into_prev c t m ptr b l (ptr - b) z (b + z) Z (b + Z) = Some (Some np, t3, M)"
    unfolding W(3) by (simp only: move_into_prev_def rd st sz(1-5) o(1-3) n_def [symmetric] cp(1) cl(1) wp run_simps)
  moreover have "\<forall>i < n. load_byte M (np + i) = load_byte m (ptr + i)"
    by (rule moved_bytes [OF np8 u(9) _ _ fin(3) cp(5), of "b + z"]) (use o(7) nsf(4) u(11,12) in \<open>auto simp: n_def\<close>)
  ultimately show thesis by (intro that) (use fin(1,2) in \<open>simp_all add: W_def n_def\<close>)
qed

lemma move_into_prev_fail:
  fixes t :: "('f::len word, 's::len word) tlsf"
  assumes I: "tlsf_inv c t m ps" and ps: "ps = plug P s xs (pre @ (z, Used ptr (lalign l) sz) # post) ys Q"
    and pre: "free_or_none pre" "xs = [] \<or> snd (last xs) \<noteq> Free" and a: "a = s + extent xs" "b = a + extent pre"
    and Z: "b + Z < USIZE_LIM" and L: "layout_ok l" and np: "np = round_up (lalign l) (a + 16)"
    and fail: "pre = [] \<or> USIZE_LIM \<le> np - a + lsize l + 31 \<or> extent pre + Z < round_up 32 (np - a + lsize l)"
  shows "move_into_prev c t m ptr b l ov z nx Z ne = Some (None, t, m)"
proof -
  note ok = inv_pools_ok [OF I]
  have eb: "(b, z, Used ptr (lalign l) sz, last_addr None s (xs @ pre)) \<in> set (all_entries ps)"
    by (simp add: ps all_entries_plug a add.assoc)
  note u = used_entry [OF I eb] and rp = entry_read(2) [OF I eb, of m, simplified]
  consider "xs = []" "pre = []" | us zq kq where "xs = us @ [(zq, kq)]" "pre = []" | zp where "pre = [(zp, Free)]"
    using pre(1) by (metis free_or_none_def rev_exhaust surj_pair)
  then show ?thesis
  proof cases
    case 1
    then show ?thesis using rp by (simp add: move_into_prev_def)
  next
    case 2
    have e: "(s + extent us, zq, kq, last_addr None s us) \<in> set (all_entries ps)" by (simp add: ps all_entries_plug 2)
    have "size_word zq kq AND SIZE_USED \<noteq> 0" using entry_facts [OF ok e] pre(2) by (simp add: 2 mem_simps)
    then show ?thesis using rp entry_read(1) [OF I e, of m] by (simp add: move_into_prev_def 2)
  next
    case 3
    have e: "(a, zp, Free, last_addr None s xs) \<in> set (all_entries ps)" by (simp add: ps all_entries_plug a 3)
    note fa = entry_facts [OF ok e]
    have "a + 48 \<le> ptr" using u(11) fa a(2) by (simp add: 3)
    moreover have "lalign l dvd ptr" using u(3) by (simp add: used_ok_def)
    ultimately have sz: "add_usize a SIZE_OF_UsedBlockHdr = Some (a + 16)" "add_usize (a + 16) (lalign l) = Some (a + 16 + lalign l)"
        "sub_usize (a + 16 + lalign l) 1 = Some (a + 16 + (lalign l - 1))"
        "(a + 16 + (lalign l - 1)) AND not_usize (lalign l - 1) = np" "sub_usize np a = Some (np - a)"
      unfolding np using move_sizes(1-5) [OF L conjunct1 [OF fa] _ u(10)] by simp_all
    have "zp < USIZE_LIM" "Z + zp < USIZE_LIM" using Z a(2) by (simp_all add: 3)
    then have st: "read_prev_phys m b = Some (Some a)" "read_size m a = Some zp" "(zp AND SIZE_USED \<noteq> 0) = False"
        "(zp = zp AND SIZE_SIZE_MASK) = True" "add_usize Z zp = Some (Z + zp)"
      using rp entry_read(1) [OF I e, of m] free_block_word [of zp] fa by (simp_all add: 3 a add_usize_def)
    show ?thesis
    proof (cases "USIZE_LIM \<le> np - a + lsize l + 31")
      case True
      then show ?thesis
        by (cases "USIZE_LIM \<le> np - a + lsize l") (simp_all only: move_into_prev_def st sz run_simps, simp_all add: checked_add_def)
    next
      case False
      then have "checked_add (np - a) (lsize l) = Some (np - a + lsize l)"
          "checked_add (np - a + lsize l) (GRANULARITY - 1) = Some (np - a + lsize l + 31)"
          "(np - a + lsize l + 31) AND not_usize (GRANULARITY - 1) = round_up 32 (np - a + lsize l)"
          "(Z + zp < round_up 32 (np - a + lsize l)) = True"
        using fail by (simp_all add: checked_add_def and_not_31_round_up 3)
      then show ?thesis by (simp only: move_into_prev_def st sz run_simps)
    qed
  qed
qed

section \<open>Reallocating in place\<close>

text \<open>The outcome of a successful in-place reallocation: the block and none, one or both of its free
  neighbours become one used block, followed by a free block if something is left.\<close>

definition inplace_done ::
  "cfg \<Rightarrow> mem \<Rightarrow> pool list \<Rightarrow> usize \<Rightarrow> usize \<Rightarrow> usize \<Rightarrow> usize \<Rightarrow> layout \<Rightarrow> usize \<Rightarrow> ('f::len word, 's::len word) tlsf \<Rightarrow> mem \<Rightarrow> bool" where
  "inplace_done c m ps b z ptr sz l np t' m' \<longleftrightarrow>
     (\<exists>P s xs pre post ys Q ns. ps = plug P s xs (pre @ (z, Used ptr (lalign l) sz) # post) ys Q \<and>
        b = s + extent xs + extent pre \<and> free_or_none pre \<and> free_or_none post \<and> ns \<le> extent pre + z + extent post \<and>
        tlsf_inv c t' m' (plug P s xs (carve (extent pre + z + extent post) ns (Used np (lalign l) (lsize l))) ys Q) \<and>
        changes_only m m' (link_cells (dom (all_frees c ps)) \<union> {s + extent xs ..< s + extent xs + (extent pre + z + extent post)} \<union>
          {s + extent xs + (extent pre + z + extent post) + 8})) \<and>
     (\<forall>i < min (lsize l) (b + z - ptr). load_byte m' (np + i) = load_byte m (ptr + i))"

lemma inplace_doneI:
  assumes "ps = plug P s xs (pre @ (z, Used ptr (lalign l) sz) # post) ys Q" "b = s + extent xs + extent pre"
    and "free_or_none pre" "free_or_none post" "W = extent pre + z + extent post" "a = s + extent xs" "ns \<le> W"
    and "tlsf_inv c t' m' (plug P s xs (carve W ns (Used np (lalign l) (lsize l))) ys Q)"
    and "changes_only m m' (link_cells (dom (all_frees c ps)) \<union> {a ..< a + W} \<union> {a + W + 8})"
    and "\<forall>i < min (lsize l) (b + z - ptr). load_byte m' (np + i) = load_byte m (ptr + i)"
  shows "inplace_done c m ps b z ptr sz l np t' m'"
  unfolding inplace_done_def using assms by blast

lemma inplace_eval:
  assumes I: "tlsf_inv c t m ps" and e: "(b, z, Used ptr (lalign l) sz, q) \<in> set (all_entries ps)"
    and lim: "ptr - b + lsize l + 31 < USIZE_LIM" and ns: "ns = round_up 32 (ptr - b + lsize l)"
  shows "reallocate_inplace c t m ptr b l =
      (if ns \<le> z then do {
         (t, m) \<leftarrow> (if ns = z then Some (t, m) else shrink_block c t m b ns z);
         Some (Some ptr, t, m)
       }
       else do {
         r \<leftarrow> grow_into_next c t m b (b + z) ns z;
         case r of Inr (t, m) \<Rightarrow> Some (Some ptr, t, m)
         | Inl (moving_clearance, moving_clearance_end) \<Rightarrow>
             move_into_prev c t m ptr b l (ptr - b) z (b + z) moving_clearance moving_clearance_end
       })"
proof -
  note u = used_entry [OF I e]
  have "z + 1 < USIZE_LIM" "b + z < USIZE_LIM" "z < USIZE_LIM" using u(5,8) by linarith+
  then have st: "sub_usize ptr b = Some (ptr - b)" "read_size m b = Some (z + 1)" "sub_usize (z + 1) SIZE_USED = Some z"
      "(z = z + 1 AND SIZE_SIZE_MASK) = True" "next_phys_block m b = Some (b + z)"
    using u(1,4,6,11) by (simp_all add: mem_simps sub_usize_def SIZE_USED_def next_phys_block_used)
  have sz: "checked_add (ptr - b) (lsize l) = Some (ptr - b + lsize l)"
      "checked_add (ptr - b + lsize l) (GRANULARITY - 1) = Some (ptr - b + lsize l + 31)"
      "(ptr - b + lsize l + 31) AND not_usize (GRANULARITY - 1) = ns"
    using lim by (simp_all add: checked_add_def and_not_31_round_up ns)
  show ?thesis
  proof (cases "ns \<le> z")
    case True
    then have "(ns \<le> z) = True" by simp
    then show ?thesis by (simp only: reallocate_inplace_def st sz run_simps)
  next
    case False
    then have "(ns \<le> z) = False" "(z < ns) = True" by simp_all
    then show ?thesis by (simp only: reallocate_inplace_def st sz run_simps)
  qed
qed

lemma inplace_sizes:
  assumes I: "tlsf_inv c t m ps" and e: "(b, z, Used ptr (lalign l) sz, q) \<in> set (all_entries ps)"
  defines "ns \<equiv> round_up 32 (ptr - b + lsize l)"
  shows "USIZE_LIM \<le> ptr - b + lsize l + 31 \<Longrightarrow> reallocate_inplace c t m ptr b l = Some (None, t, m) \<and> b + z - ptr \<le> lsize l"
    and "ptr - b + lsize l + 31 < USIZE_LIM \<Longrightarrow> reallocate_inplace c t m ptr b l =
      (if ns \<le> z then do {
         (t, m) \<leftarrow> (if ns = z then Some (t, m) else shrink_block c t m b ns z);
         Some (Some ptr, t, m)
       }
       else do {
         r \<leftarrow> grow_into_next c t m b (b + z) ns z;
         case r of Inr (t, m) \<Rightarrow> Some (Some ptr, t, m)
         | Inl (moving_clearance, moving_clearance_end) \<Rightarrow>
             move_into_prev c t m ptr b l (ptr - b) z (b + z) moving_clearance moving_clearance_end
       })"
    and "32 dvd ns" and "32 \<le> ns" and "ptr + lsize l \<le> b + ns" and "z < ns \<Longrightarrow> b + z - ptr \<le> lsize l"
proof -
  note u = used_entry [OF I e]
  have ov: "sub_usize ptr b = Some (ptr - b)" using u(11) by (simp add: sub_usize_def)
  show "reallocate_inplace c t m ptr b l = Some (None, t, m) \<and> b + z - ptr \<le> lsize l" if "USIZE_LIM \<le> ptr - b + lsize l + 31"
  proof
    show "reallocate_inplace c t m ptr b l = Some (None, t, m)"
      using that by (cases "USIZE_LIM \<le> ptr - b + lsize l") (simp_all add: reallocate_inplace_def ov checked_add_def)
    show "b + z - ptr \<le> lsize l" using that u(8,11,12) by linarith
  qed
  show "reallocate_inplace c t m ptr b l =
      (if ns \<le> z then do {
         (t, m) \<leftarrow> (if ns = z then Some (t, m) else shrink_block c t m b ns z);
         Some (Some ptr, t, m)
       }
       else do {
         r \<leftarrow> grow_into_next c t m b (b + z) ns z;
         case r of Inr (t, m) \<Rightarrow> Some (Some ptr, t, m)
         | Inl (moving_clearance, moving_clearance_end) \<Rightarrow>
             move_into_prev c t m ptr b l (ptr - b) z (b + z) moving_clearance moving_clearance_end
       })" if "ptr - b + lsize l + 31 < USIZE_LIM"
    by (rule inplace_eval [OF I e that ns_def [THEN meta_eq_to_obj_eq]])
  have n: "ptr - b + lsize l \<le> ns" "ns < ptr - b + lsize l + 32" "32 dvd ns" unfolding ns_def by (simp_all add: round_up_32)
  show "32 dvd ns" by (rule n)
  have "0 < ns" using n(1) u(11) by linarith
  then show "32 \<le> ns" using n(3) dvd_imp_le by blast
  show "ptr + lsize l \<le> b + ns" using n(1) u(11) by linarith
  show "b + z - ptr \<le> lsize l" if "z < ns"
  proof -
    have "z + 32 \<le> ns" by (rule dvd_less_add_le [OF u(6) n(3) that])
    then show ?thesis using n(2) u(11) by linarith
  qed
qed

text \<open>A block whose size does not change only records the new size requested.\<close>

lemma resize_same:
  fixes t :: "('f::len word, 's::len word) tlsf"
  assumes I: "tlsf_inv c t m ps" and ps: "ps = plug P s xs [(z, Used ptr al sz)] ys Q" and b: "b = s + extent xs"
    and n: "ptr + n \<le> b + z"
  shows "tlsf_inv c t m (plug P s xs [(z, Used ptr al n)] ys Q)"
proof -
  note ok = inv_pools_ok [OF I]
  have e: "(b, z, Used ptr al sz, last_addr None s xs) \<in> set (all_entries ps)" by (simp add: ps all_entries_plug b)
  note u = used_entry [OF I e]
  have mid: "[(z, Used ptr al sz)] \<noteq> []" "list_all blk_ok [(z, Used ptr al sz)]" using u by (simp_all add: blk_ok_def)
  obtain zn kn ys' where nx: "ys = (zn, kn) # ys'" "(b + z, zn, kn, Some b) \<in> set (all_entries ps)"
      "no_adjacent_free (xs @ [(z, Used ptr al sz)] @ ys)"
    by (rule next_entry [OF ok [unfolded ps] mid]) (simp add: ps b)
  have "(\<lambda>y. if b \<le> y \<and> y < b + z then None else all_frees c ps y) = all_frees c ps"
    using used_no_frees [OF ok e] by (auto simp: fun_eq_iff)
  then have fl: "fl_inv c t m (\<lambda>y. if b \<le> y \<and> y < b + z then frees c (b + z) [] y else all_frees c ps y)"
    using I by (simp add: tlsf_inv_def cong: if_cong)
  have uo: "is_power_of_two al" "al dvd ptr" "if al < 32 then ptr = b + 16 else b + 32 \<le> ptr"
    using u(3) by (auto simp: used_ok_def)
  have adj: "no_adjacent_free (xs @ ((z, Used ptr al n) # []) @ ys)"
    using nx(3) by (auto simp: no_adjacent_free_append nx(1))
  have "m = m(b \<mapsto> z + 1)" using u(1) by (metis fun_upd_triv)
  then have M: "m = m(b \<mapsto> z + 1) \<and> (32 \<le> al \<longrightarrow> m (ptr - 8) = Some b) \<or> m = m(b \<mapsto> z + 1, ptr - 8 \<mapsto> b) \<and> 32 \<le> al"
    using pad_kept [OF u(3), of m] by simp
  have hn: "m (b + z + 8) = Some (of_ptr (last_addr (Some b) (b + z) []))" using inv_hdr [OF I nx(2)] by simp
  show ?thesis
    by (rule use_run(1) [OF I [unfolded ps] mid b _ adj _ _ u(11) n uo u(7,6) changes_only_refl u(2) _ _ hn fl [unfolded ps] M])
      simp_all
qed

lemma inplace_keep:
  fixes t :: "('f::len word, 's::len word) tlsf"
  assumes I: "tlsf_inv c t m ps" and ps: "ps = plug P s xs ((z, Used ptr (lalign l) sz) # post) ys Q"
    and nb: "free_or_none post" "ys \<noteq> []" "snd (hd ys) \<noteq> Free" and b: "b = s + extent xs"
    and ns: "ns = round_up 32 (ptr - b + lsize l)" "ptr - b + lsize l + 31 < USIZE_LIM" "ns \<le> z + extent post"
  obtains t' m' where "reallocate_inplace c t m ptr b l = Some (Some ptr, t', m')"
    and "inplace_done c m ps b z ptr sz l ptr t' m'"
proof -
  let ?al = "lalign l" and ?Z = "z + extent post"
  have e: "(b, z, Used ptr ?al sz, last_addr None s xs) \<in> set (all_entries ps)" by (simp add: ps all_entries_plug b)
  note u = used_entry [OF I e] and i = inplace_sizes [OF I e, folded ns(1)]
  note ev = i(2) [OF ns(2)]
  have dn: "inplace_done c m ps b z ptr sz l ptr t' m'"
    if "tlsf_inv c t' m' (plug P s xs (carve ?Z ns (Used ptr ?al (lsize l))) ys Q)"
      "changes_only m m' (link_cells (dom (all_frees c ps)) \<union> {b ..< b + ?Z} \<union> {b + ?Z + 8})"
      "\<forall>a. ptr \<le> a \<and> a < b + min z ns \<longrightarrow> m' a = m a" for t' :: "('f word, 's word) tlsf" and m'
  proof (rule inplace_doneI [OF _ _ _ nb(1) _ b ns(3) that(1,2), of "[]"])
    show "\<forall>i < min (lsize l) (b + z - ptr). load_byte m' (ptr + i) = load_byte m (ptr + i)"
    proof (intro allI impI bytes_kept [OF u(9) that(3)])
      fix j assume "j < min (lsize l) (b + z - ptr)"
      then have "j < lsize l" "j < b + z - ptr" by simp_all
      then have "ptr + j < b + z" "ptr + j < b + ns" using i(5) by linarith+
      then show "ptr + j < b + min z ns" by simp
    qed
  qed (simp_all add: ps b free_or_none_def)
  consider "ns = z" | "ns < z" | "z < ns" by linarith
  then show thesis
  proof cases
    case 1
    have ps1: "ps = plug P s xs [(z, Used ptr ?al sz)] (post @ ys) Q" by (simp add: ps plug_def)
    have "tlsf_inv c t m (plug P s xs [(z, Used ptr ?al (lsize l))] (post @ ys) Q)"
      by (rule resize_same [OF I ps1 b]) (use i(5) 1 in simp)
    then have "inplace_done c m ps b z ptr sz l ptr t m"
      by (intro inplace_doneI [of _ P s xs "[]" z ptr l sz "[]" "post @ ys" Q _ z b z])
        (simp_all add: ps plug_def b free_or_none_def carve_def)
    then show thesis by (intro that [of t m]) (simp_all add: ev 1)
  next
    case 2
    obtain t' m' where r: "shrink_block c t m b ns z = Some (t', m')"
        "tlsf_inv c t' m' (plug P s xs (carve ?Z ns (Used ptr ?al (lsize l))) ys Q)"
        "changes_only m m' (link_cells (dom (all_frees c ps)) \<union> {b ..< b + ?Z} \<union> {b + ?Z + 8})"
        "\<forall>a. ptr \<le> a \<and> a < b + min z ns \<longrightarrow> m' a = m a"
      by (rule shrink_block_ok [OF I ps nb b refl i(4,3) 2 i(5)])
    show thesis using 2 by (intro that [OF _ dn [OF r(2-4)]]) (simp add: ev r(1))
  next
    case 3
    obtain t' m' where r: "grow_into_next c t m b (b + z) ns z = Some (Inr (t', m'))"
        "tlsf_inv c t' m' (plug P s xs (carve ?Z ns (Used ptr ?al (lsize l))) ys Q)"
        "changes_only m m' (link_cells (dom (all_frees c ps)) \<union> {b ..< b + ?Z} \<union> {b + ?Z + 8})"
        "\<forall>a. ptr \<le> a \<and> a < b + min z ns \<longrightarrow> m' a = m a"
      by (rule grow_into_next_ok [OF I ps nb b refl i(3) 3 ns(3) i(5)])
    show thesis using 3 by (intro that [OF _ dn [OF r(2-4)]]) (simp add: ev r(1))
  qed
qed

lemma inplace_move:
  fixes t :: "('f::len word, 's::len word) tlsf"
  assumes I: "tlsf_inv c t m ps" and ps: "ps = plug P s xs (pre @ (z, Used ptr (lalign l) sz) # post) ys Q"
    and nb: "free_or_none pre" "free_or_none post" "xs = [] \<or> snd (last xs) \<noteq> Free" "ys \<noteq> []" "snd (hd ys) \<noteq> Free"
    and a: "a = s + extent xs" "b = a + extent pre" and L: "layout_ok l"
    and ns: "ns = round_up 32 (ptr - b + lsize l)" "ptr - b + lsize l + 31 < USIZE_LIM" "z + extent post < ns"
  obtains "reallocate_inplace c t m ptr b l = Some (None, t, m)" and "b + z - ptr \<le> lsize l"
  | np t' m' where "reallocate_inplace c t m ptr b l = Some (Some np, t', m')" and "inplace_done c m ps b z ptr sz l np t' m'"
proof -
  let ?al = "lalign l" and ?Z = "z + extent post"
  have ps1: "ps = plug P s (xs @ pre) ((z, Used ptr ?al sz) # post) ys Q" and b1: "b = s + extent (xs @ pre)"
    by (simp_all add: ps plug_def a)
  have e: "(b, z, Used ptr ?al sz, last_addr None s (xs @ pre)) \<in> set (all_entries ps)" by (simp add: ps1 all_entries_plug b1)
  note i = inplace_sizes [OF I e, folded ns(1)]
  have lt: "z < ns" "\<not> ns \<le> z" using ns(3) by simp_all
  have ev: "reallocate_inplace c t m ptr b l = move_into_prev c t m ptr b l (ptr - b) z (b + z) ?Z (b + ?Z)"
    using lt by (simp add: i(2) [OF ns(2)] grow_into_next_fail [OF I ps1 nb(2,4,5) b1 refl ns(3)])
  define np where "np = round_up ?al (a + 16)"
  define ns' where "ns' = round_up 32 (np - a + lsize l)"
  show thesis
  proof (cases "pre = [] \<or> USIZE_LIM \<le> np - a + lsize l + 31 \<or> extent pre + ?Z < ns'")
    case True
    have "b + ?Z < USIZE_LIM" using run_limits(2) [OF I ps1 nb(2) b1] by linarith
    then have "reallocate_inplace c t m ptr b l = Some (None, t, m)"
      unfolding ev by (rule move_into_prev_fail [OF I ps nb(1,3) a _ L np_def]) (use True ns'_def in simp)
    then show thesis by (rule that(1) [OF _ i(6) [OF lt(1)]])
  next
    case False
    then obtain zp where pre: "pre = [(zp, Free)]" using nb(1) by (auto simp: free_or_none_def)
    have ps2: "ps = plug P s xs ((zp, Free) # (z, Used ptr ?al sz) # post) ys Q" and b2: "b = a + zp" by (simp_all add: ps pre a)
    have fit: "np - a + lsize l + 31 < USIZE_LIM" "ns' \<le> zp + ?Z" using False by (simp_all add: pre)
    obtain t' m' where r: "move_into_prev c t m ptr b l (ptr - b) z (b + z) ?Z (b + ?Z) = Some (Some np, t', m')"
        "tlsf_inv c t' m' (plug P s xs (carve (zp + ?Z) ns' (Used np ?al (lsize l))) ys Q)"
        "changes_only m m' (link_cells (dom (all_frees c ps)) \<union> {a ..< a + (zp + ?Z)} \<union> {a + (zp + ?Z) + 8})"
        "\<forall>i < min (lsize l) (b + z - ptr). load_byte m' (np + i) = load_byte m (ptr + i)"
      by (rule move_into_prev_ok [OF I ps2 nb(2,4,5) a(1) b2 refl L np_def ns'_def fit])
    have "inplace_done c m ps b z ptr sz l np t' m'"
      by (rule inplace_doneI [OF ps _ nb(1,2) _ a(1) fit(2) r(2-4)]) (simp_all add: pre a)
    then show thesis by (rule that(2) [OF trans [OF ev r(1)]])
  qed
qed

lemma inplace_cases:
  fixes t :: "('f::len word, 's::len word) tlsf"
  assumes I: "tlsf_inv c t m ps" and e: "(b, z, Used ptr (lalign l) sz, q) \<in> set (all_entries ps)" and L: "layout_ok l"
  obtains "reallocate_inplace c t m ptr b l = Some (None, t, m)" and "b + z - ptr \<le> lsize l"
  | np t' m' where "reallocate_inplace c t m ptr b l = Some (Some np, t', m')" and "inplace_done c m ps b z ptr sz l np t' m'"
proof -
  obtain P s xs ys Q where d: "ps = plug P s xs [(z, Used ptr (lalign l) sz)] ys Q" "b = s + extent xs"
    by (rule all_entries_split [OF e])
  obtain xs' pre post ys' where n: "xs = xs' @ pre" "ys = post @ ys'" "free_or_none pre" "free_or_none post"
      "xs' = [] \<or> snd (last xs') \<noteq> Free" "ys' \<noteq> []" "snd (hd ys') \<noteq> Free"
    by (rule split_neighbours [OF inv_pools_ok [OF I, unfolded d(1)]]) simp_all
  have pl: "ps = plug P s xs' (pre @ (z, Used ptr (lalign l) sz) # post) ys' Q"
    and pl1: "ps = plug P s (xs' @ pre) ((z, Used ptr (lalign l) sz) # post) ys' Q"
    and b: "b = s + extent xs' + extent pre" "b = s + extent (xs' @ pre)" by (simp_all add: d plug_def n(1,2))
  show thesis
  proof (cases "USIZE_LIM \<le> ptr - b + lsize l + 31")
    case True
    then show thesis using inplace_sizes(1) [OF I e] by (intro that(1)) blast+
  next
    case False
    then have lim: "ptr - b + lsize l + 31 < USIZE_LIM" by simp
    show thesis
    proof (cases "round_up 32 (ptr - b + lsize l) \<le> z + extent post")
      case True
      obtain t' m' where "reallocate_inplace c t m ptr b l = Some (Some ptr, t', m')" "inplace_done c m ps b z ptr sz l ptr t' m'"
        by (rule inplace_keep [OF I pl1 n(4,6,7) b(2) refl lim True])
      then show thesis by (rule that(2))
    next
      case False
      then have gt: "z + extent post < round_up 32 (ptr - b + lsize l)" by simp
      show thesis by (rule inplace_move [OF I pl n(3-7) refl b(1) L refl lim gt that])
    qed
  qed
qed

end
