(* ===== verification/Allocator_Realloc.thy ===== *)
theory Allocator_Realloc
  imports Allocator Tlsf_Realloc
begin

text \<open>
  Reallocation as clients see it. \<open>reallocate\<close> is composed of the in-place attempt and, if that fails,
  of \<open>allocate\<close>, a copy of the payload and \<open>deallocate\<close>; writing to the payload of an
  allocation keeps the invariant, so the specifications of the three compose.
\<close>

section \<open>Writing to a payload\<close>

lemma payload_write_inv:
  assumes I: "tlsf_inv c t m ps" and e: "(b, z, Used ptr al sz, q) \<in> set (all_entries ps)"
    and ch: "changes_only m m' S" and S: "S \<subseteq> {ptr ..< b + z}"
  shows "tlsf_inv c t m' ps"
proof -
  note ok = inv_pools_ok [OF I] and u = used_entry [OF I e]
  have same: "m' x = m x" if "x < ptr \<or> b + z \<le> x" for x using ch S that by (auto simp: changes_only_def)
  have "hdr m' (b', z', k', q')" if e': "(b', z', k', q') \<in> set (all_entries ps)" for b' z' k' q'
  proof (cases "(b', z', k', q') = (b, z, Used ptr al sz, q)")
    case True
    have "ptr - 8 < ptr" "b + 8 < ptr" "b < ptr" using u(11) by linarith+
    then show ?thesis using True inv_hdr [OF I e] same by (auto simp: used_ok_def)
  next
    case False
    then have "b + z \<le> b' \<or> b' + z' \<le> b" using entries_disjoint [OF ok e e'] by auto
    moreover note f = entry_facts [OF ok e']
    ultimately have out: "m' x = m x" if "b' \<le> x" "x < b' + z'" for x using same [of x] u(11) that by linarith
    have "m' (b' + 8) = Some (of_ptr q')" using inv_hdr [OF I e'] out [of "b' + 8"] f by simp
    then show ?thesis using out f by (intro hdr_frame [OF inv_hdr [OF I e']]) (auto split: if_splits)
  qed
  moreover have "pools_mapped m' ps" using I ch by (auto simp: tlsf_inv_def pools_mapped_def changes_only_def domIff set_eq_iff)
  moreover have "fl_inv c t m' (all_frees c ps)"
  proof (rule fls.frame_changes [OF _ ch])
    have "x \<in> protected (b, z, Used ptr al sz, q)" if "x \<in> S" for x using that S u(11) by auto
    then show "S \<inter> link_cells (dom (all_frees c ps)) = {}" using links_not_protected [OF ok e] by blast
  qed (use I in \<open>simp add: tlsf_inv_def\<close>)
  ultimately show ?thesis using I by (auto simp: tlsf_inv_def list_all_iff)
qed

text \<open>Copying into the payload of one allocation leaves the contents of the others alone.\<close>

lemma payload_write_contents:
  assumes I: "tlsf_inv c t m ps" and e: "(b, z, Used ptr al sz, q) \<in> set (all_entries ps)"
    and ch: "changes_only m m' S" and S: "S \<subseteq> {ptr ..< b + z}"
  shows "contents_kept m m' (live ps - {(ptr, al, sz)})"
  unfolding contents_kept_def
proof (intro allI impI)
  fix p al' sz' a assume x: "(p, al', sz') \<in> live ps - {(ptr, al, sz)}" and a: "p \<le> a" "a < p + sz'"
  then obtain b' z' q' where e': "(b', z', Used p al' sz', q') \<in> set (all_entries ps)" using live_entry by (metis DiffD1)
  have "b + z \<le> b' \<or> b' + z' \<le> b" using entries_disjoint [OF inv_pools_ok [OF I] e e'] x by auto
  then have "a - a mod 8 < ptr \<or> b + z \<le> a - a mod 8"
    using cell_of_byte [OF used_entry(9) [OF I e'] a(1)] a(2) used_entry(11,12) [OF I e'] used_entry(11) [OF I e] by linarith
  then have "a - a mod 8 \<notin> S" using S by auto
  then show "load_byte m' a = load_byte m a" using ch by (simp add: load_byte_def changes_only_def)
qed

lemma payload_write_untouched:
  assumes I: "tlsf_inv c t m ps" and e: "(b, z, Used ptr al sz, q) \<in> set (all_entries ps)"
    and ch: "changes_only m m' S" and S: "S \<subseteq> {ptr ..< b + z}"
  shows "untouched m m' ps"
proof (rule untouchedI [OF inv_pools_ok [OF I] changes_only_mono [OF ch]])
  fix x assume "x \<in> S"
  then have x: "b \<le> x" "x < b + z" using S used_entry(11) [OF I e] by auto
  have "x \<notin> tail_space ps"
  proof
    assume "x \<in> tail_space ps"
    then obtain d r where "(d, 32, Sentinel, r) \<in> set (all_entries ps)" "d + 16 \<le> x" "x < d + 32"
      by (rule tail_entry [OF inv_pools_ok [OF I]])
    then show False using entries_disjoint [OF inv_pools_ok [OF I] e] x by fastforce
  qed
  then show "x \<in> pool_bytes ps \<and> x \<notin> tail_space ps" using entry_pool_bytes [OF inv_pools_ok [OF I] e x] by simp
qed simp

lemma payload_cell_mapped:
  assumes I: "tlsf_inv c t m ps" and e: "(b, z, Used ptr al sz, q) \<in> set (all_entries ps)" and a: "ptr + i < b + z"
  shows "m (ptr + i - (ptr + i) mod 8) \<noteq> None"
proof -
  note u = used_entry [OF I e] and c = cell_of_byte [OF used_entry(9) [OF I e], of "ptr + i"]
  show ?thesis using c u(11) a I
    by (intro entry_mapped [OF inv_pools_ok [OF I] _ e]) (auto simp: tlsf_inv_def minus_mod_eq_mult_div)
qed

lemma copy_payload:
  assumes I: "tlsf_inv c t m ps" and e: "(b, z, Used ptr al sz, q) \<in> set (all_entries ps)"
    and e': "(b', z', Used p al' sz', q') \<in> set (all_entries ps)" and ne: "b \<noteq> b'" and n: "ptr + n \<le> b + z" "n \<le> sz'"
  obtains m' where "copy_nonoverlapping m ptr p n = Some m'" and "tlsf_inv c t m' ps"
    and "contents_kept m m' (live ps - {(p, al', sz')})"
    and "\<forall>i < n. load_byte m' (p + i) = load_byte m (ptr + i)" and "untouched m m' ps"
proof -
  note ok = inv_pools_ok [OF I] and u = used_entry [OF I e] and u' = used_entry [OF I e']
  have le: "p + n \<le> b' + z'" using n(2) u'(12) by linarith
  obtain m' where m': "copy m ptr p n = Some m'" "changes_only m m' (cells p n)"
      "\<And>i. i < n \<Longrightarrow> load_byte m' (p + i) = load_byte m (ptr + i)"
    by (rule copy_obtain [of n m ptr p]) (use payload_cell_mapped [OF I e] payload_cell_mapped [OF I e'] n(1) le in auto)
  have S: "cells p n \<subseteq> {p ..< b' + z'}" using cells_aligned [OF u'(9), of n] le by auto
  have "b + z \<le> b' \<or> b' + z' \<le> b" using entries_disjoint [OF ok e e'] ne by auto
  then have "ptr + n \<le> p \<or> p + n \<le> ptr" using u(11) u'(11) n(1) le by linarith
  then have "copy_nonoverlapping m ptr p n = Some m'" using m'(1) by (simp add: copy_nonoverlapping_def debug_assert_if)
  then show thesis
    using m'(3) payload_write_inv [OF I e' m'(2) S] payload_write_contents [OF I e' m'(2) S] payload_write_untouched [OF I e' m'(2) S]
    by (intro that) blast+
qed

text \<open>The bytes of one allocation move to another one, and the old one is freed.\<close>

lemma move_payload:
  fixes t :: "('f::len word, 's::len word) tlsf"
  assumes I: "tlsf_inv c t m ps" and e: "(b, z, Used ptr al sz, q) \<in> set (all_entries ps)"
    and y: "(p, al', sz') \<in> live ps" and ne: "(p, al', sz') \<noteq> (ptr, al, sz)" and n: "ptr + n \<le> b + z" "n \<le> sz'"
  obtains m1 t' m' ps' where "copy_nonoverlapping m ptr p n = Some m1" and "deallocate c t m1 ptr al = Some (t', m')"
    and "deallocate_unknown_align c t m1 ptr = Some (t', m')" and "tlsf_inv c t' m' ps'"
    and "live ps' = live ps - {(ptr, al, sz)}" and "pool_bytes ps' = pool_bytes ps" and "spans ps' = spans ps" and "untouched m m' ps"
    and "contents_kept m m' (live ps - {(ptr, al, sz), (p, al', sz')})" and "\<forall>i < n. load_byte m' (p + i) = load_byte m (ptr + i)"
proof -
  let ?x = "(ptr, al, sz)" and ?y = "(p, al', sz')"
  obtain b' z' q' where e': "(b', z', Used p al' sz', q') \<in> set (all_entries ps)" using y live_entry by metis
  have bb: "b \<noteq> b'"
    using entries_disjoint [OF inv_pools_ok [OF I] e e'] entry_facts [OF inv_pools_ok [OF I] e] entry_facts [OF inv_pools_ok [OF I] e'] ne by auto
  obtain m1 where cp: "copy_nonoverlapping m ptr p n = Some m1" "tlsf_inv c t m1 ps" "contents_kept m m1 (live ps - {?y})"
      "\<forall>i < n. load_byte m1 (p + i) = load_byte m (ptr + i)" "untouched m m1 ps"
    by (rule copy_payload [OF I e e' bb n])
  have x: "?x \<in> live ps" using e live_entry by blast
  obtain t' m' ps' where de: "deallocate c t m1 ptr al = Some (t', m')" "deallocate_unknown_align c t m1 ptr = Some (t', m')"
      "tlsf_inv c t' m' ps'" "live ps' = live ps - {?x}" "pool_bytes ps' = pool_bytes ps" "contents_kept m1 m' (live ps - {?x})"
      "spans ps' = spans ps" "untouched m1 m' ps"
    by (rule deallocate_live [OF cp(2) x])
  have k: "contents_kept m m' (live ps - {?x, ?y})" by (rule contents_kept_trans [OF cp(3) de(6)]) blast+
  have "?y \<in> live ps - {?x}" using y ne by simp
  then have "load_byte m' (p + i) = load_byte m (ptr + i)" if "i < n" for i
    using de(6) cp(4) that n(2) unfolding contents_kept_def by (metis le_add1 nat_add_left_cancel_less order_less_le_trans)
  then show thesis by (intro that [OF cp(1) de(1-5,7) untouched_trans [OF cp(5) de(8) refl] k]) blast
qed

section \<open>Reallocation\<close>

definition reallocated ::
  "cfg \<Rightarrow> mem \<Rightarrow> pool list \<Rightarrow> usize \<Rightarrow> usize \<Rightarrow> usize \<Rightarrow> layout \<Rightarrow> usize \<Rightarrow> ('f::len word, 's::len word) tlsf \<Rightarrow> mem \<Rightarrow> bool" where
  \<comment> \<open>the allocation \<open>ptr\<close> of \<open>sz\<close> bytes, \<open>n\<close> of them usable, became the allocation \<open>p\<close>\<close>
  "reallocated c m ps ptr sz n l p t' m' \<longleftrightarrow>
     (\<forall>i < min n (lsize l). load_byte m' (p + i) = load_byte m (ptr + i)) \<and>
     contents_kept m m' (live ps - {(ptr, lalign l, sz)}) \<and> (p, lalign l, lsize l) \<notin> live ps - {(ptr, lalign l, sz)} \<and>
     untouched m m' ps \<and> (\<exists>ps'. spans ps' = spans ps \<and> tlsf_inv c t' m' ps' \<and> live ps' = insert (p, lalign l, lsize l) (live ps - {(ptr, lalign l, sz)}) \<and>
        pool_bytes ps' = pool_bytes ps)"

lemma inplace_reallocated:
  fixes t' :: "('f::len word, 's::len word) tlsf"
  assumes I: "tlsf_inv c t m ps" and d: "inplace_done c m ps b z ptr sz l p t' m'"
  shows "reallocated c m ps ptr sz (b + z - ptr) l p t' m'"
proof -
  obtain P s xs pre post ys Q ns where r: "ps = plug P s xs (pre @ (z, Used ptr (lalign l) sz) # post) ys Q"
      "free_or_none pre" "free_or_none post" "ns \<le> extent pre + z + extent post"
      "tlsf_inv c t' m' (plug P s xs (carve (extent pre + z + extent post) ns (Used p (lalign l) (lsize l))) ys Q)"
      "changes_only m m' (link_cells (dom (all_frees c ps)) \<union> {s + extent xs ..< s + extent xs + (extent pre + z + extent post)} \<union>
        {s + extent xs + (extent pre + z + extent post) + 8})"
      "\<forall>i < min (lsize l) (b + z - ptr). load_byte m' (p + i) = load_byte m (ptr + i)"
    using d unfolding inplace_done_def by (elim exE conjE)
  note cv = carve_facts [OF r(4)]
  note rl = run_live [OF I r(1-3) refl cv(1) r(6)]
  have "(p, lalign l, lsize l) \<notin> live ps - {(ptr, lalign l, sz)}"
    unfolding rl(4) by (rule run_not_live [OF r(5) [unfolded carve_rest]])
  then show ?thesis unfolding reallocated_def
    using r(5,7) rl(1-3,5,6) cv(2)
    by (intro conjI exI [of _ "plug P s xs (carve (extent pre + z + extent post) ns (Used p (lalign l) (lsize l))) ys Q"])
      (simp_all add: min.commute)
qed

lemma moved_reallocated:
  fixes t :: "('f::len word, 's::len word) tlsf"
  assumes I: "tlsf_inv c t m ps" and e: "(b, z, Used ptr (lalign l) sz, q) \<in> set (all_entries ps)" and L: "layout_ok l"
    and S: "search_suitable_free_block_list_for_allocation c t (search_size l) = Some (Some (fl, sl))"
    and n: "b + z - ptr \<le> lsize l"
  obtains p t1 m1 m2 t' m' where "allocate c t m l = Some (Some p, t1, m1)"
    and "copy_nonoverlapping m1 ptr p (b + z - ptr) = Some m2" and "deallocate c t1 m2 ptr (lalign l) = Some (t', m')"
    and "reallocated c m ps ptr sz (b + z - ptr) l p t' m'"
proof -
  let ?x = "(ptr, lalign l, sz)" and ?n = "b + z - ptr"
  have x: "?x \<in> live ps" using e live_entry by blast
  obtain p t1 m1 ps1 where al: "allocate c t m l = Some (Some p, t1, m1)" "tlsf_inv c t1 m1 ps1"
      "live ps1 = insert (p, lalign l, lsize l) (live ps)" "(p, lalign l, lsize l) \<notin> live ps" "pool_bytes ps1 = pool_bytes ps"
      "contents_kept m m1 (live ps)" "used_kept m m1 ps ps1"
      "spans ps1 = spans ps" "untouched m m1 ps"
    by (rule allocate_some [OF I L S])
  let ?y = "(p, lalign l, lsize l)"
  obtain q1 where e1: "(b, z, Used ptr (lalign l) sz, q1) \<in> set (all_entries ps1)" using al(7) e unfolding used_kept_def by blast
  have y: "?y \<in> live ps1" using al(3) by simp
  have ne: "?y \<noteq> ?x" using x al(4) by auto
  have pn: "ptr + ?n \<le> b + z" using used_entry(12) [OF I e] by linarith
  obtain m2 t' m' ps' where mv: "copy_nonoverlapping m1 ptr p ?n = Some m2" "deallocate c t1 m2 ptr (lalign l) = Some (t', m')"
      "tlsf_inv c t' m' ps'" "live ps' = live ps1 - {?x}" "pool_bytes ps' = pool_bytes ps1" "spans ps' = spans ps1" "untouched m1 m' ps1"
      "contents_kept m1 m' (live ps1 - {?x, ?y})" "\<forall>i < ?n. load_byte m' (p + i) = load_byte m1 (ptr + i)"
    by (rule move_payload [OF al(2) e1 y ne pn n])
  have un: "untouched m m' ps" using mv(7) al(8,9) by (metis untouched_trans)
  have lv: "live ps' = insert ?y (live ps - {?x})" using mv(4) al(3) ne by auto
  have kept: "contents_kept m m' (live ps - {?x})" by (rule contents_kept_trans [OF al(6) mv(8)]) (use al(3,4) in auto)
  have "\<forall>x. ptr \<le> x \<and> x < b + z \<longrightarrow> m1 x = m x" using al(7) e unfolding used_kept_def by blast
  then have "load_byte m1 (ptr + i) = load_byte m (ptr + i)" if "i < ?n" for i
    using that by (intro bytes_kept [OF used_entry(9) [OF I e], of "b + z"]) simp_all
  then have "\<forall>i < ?n. load_byte m' (p + i) = load_byte m (ptr + i)" using mv(9) by simp
  then have "reallocated c m ps ptr sz ?n l p t' m'"
    unfolding reallocated_def using n kept lv un mv(3,5,6) al(4,5,8) by (auto simp: min_def)
  then show thesis by (rule that [OF al(1) mv(1,2)])
qed

lemma reallocate_live:
  fixes t :: "('f::len word, 's::len word) tlsf"
  assumes I: "tlsf_inv c t m ps" and x: "(ptr, lalign l, sz) \<in> live ps" and L: "layout_ok l"
  obtains n where "size_of_allocation m ptr (lalign l) = Some n" and "sz \<le> n"
    and "reallocate c t m ptr l = Some (None, t, m) \<and> n \<le> lsize l \<or>
      (\<exists>p t' m'. reallocate c t m ptr l = Some (Some p, t', m') \<and> reallocated c m ps ptr sz n l p t' m')"
proof -
  obtain b z q where e: "(b, z, Used ptr (lalign l) sz, q) \<in> set (all_entries ps)" using x live_entry by metis
  note lk = lookup_known [OF I e]
  have so: "size_of_allocation m ptr (lalign l) = Some (b + z - ptr)"
    using payload_size_ok [OF I e] lk by (simp add: size_of_allocation_def)
  have "sz \<le> b + z - ptr" using used_entry(12) [OF I e] by linarith
  moreover have "reallocate c t m ptr l = Some (None, t, m) \<and> b + z - ptr \<le> lsize l \<or>
      (\<exists>p t' m'. reallocate c t m ptr l = Some (Some p, t', m') \<and> reallocated c m ps ptr sz (b + z - ptr) l p t' m')"
  proof (rule inplace_cases [OF I e L])
    fix p t' m' assume "reallocate_inplace c t m ptr b l = Some (Some p, t', m')" and d: "inplace_done c m ps b z ptr sz l p t' m'"
    then have "reallocate c t m ptr l = Some (Some p, t', m')" by (simp add: reallocate_def lk so)
    with inplace_reallocated [OF I d] show ?thesis by blast
  next
    assume f: "reallocate_inplace c t m ptr b l = Some (None, t, m)" and n: "b + z - ptr \<le> lsize l"
    obtain r where r: "search_suitable_free_block_list_for_allocation c t (search_size l) = Some r"
      by (rule allocate_search [OF I L])
    show ?thesis
    proof (cases r)
      case None
      then show ?thesis using r f n allocate_fail(1) [OF I L] by (simp add: reallocate_def lk so)
    next
      case (Some y)
      obtain fl sl where y: "y = (fl, sl)" by (cases y)
      obtain p t1 m1 m2 t' m' where g: "allocate c t m l = Some (Some p, t1, m1)"
          "copy_nonoverlapping m1 ptr p (b + z - ptr) = Some m2" "deallocate c t1 m2 ptr (lalign l) = Some (t', m')"
          "reallocated c m ps ptr sz (b + z - ptr) l p t' m'"
        by (rule moved_reallocated [OF I e L r [unfolded Some y] n])
      have "(b + z - ptr \<le> lsize l) = True" using n by simp
      then have "reallocate c t m ptr l = Some (Some p, t', m')" by (simp only: reallocate_def lk so f g(1-3) run_simps)
      with g(4) show ?thesis by blast
    qed
  qed
  ultimately show thesis by (rule that [OF so])
qed

text \<open>C3: \<open>reallocate\<close> of a live allocation, with the alignment it was made with, never faults. On
  failure it changes nothing. On success the allocation is replaced by one of the new size, aligned,
  inside the pools and apart from all others; the bytes of the old one, as far as both reach, are found
  at the new address, the contents of all others are kept and the invariant holds again.\<close>

theorem reallocate_spec:
  fixes t :: "('f::len word, 's::len word) tlsf"
  assumes I: "tlsf_inv c t m ps" and x: "(ptr, lalign l, sz) \<in> live ps" and L: "layout_ok l"
  shows "\<exists>n r t' m'. size_of_allocation m ptr (lalign l) = Some n \<and> sz \<le> n \<and> reallocate c t m ptr l = Some (r, t', m') \<and>
    (case r of None \<Rightarrow> t' = t \<and> m' = m
     | Some p \<Rightarrow> lalign l dvd p \<and> {p ..< p + lsize l} \<subseteq> pool_bytes ps \<and>
         (\<forall>y. y \<in> live ps - {(ptr, lalign l, sz)} \<longrightarrow> separate (p, lalign l, lsize l) y) \<and>
         (\<forall>i < min n (lsize l). load_byte m' (p + i) = load_byte m (ptr + i)) \<and>
         contents_kept m m' (live ps - {(ptr, lalign l, sz)}) \<and>
         (\<exists>ps'. tlsf_inv c t' m' ps' \<and> live ps' = insert (p, lalign l, lsize l) (live ps - {(ptr, lalign l, sz)}) \<and>
            pool_bytes ps' = pool_bytes ps))"
proof -
  let ?A = "live ps - {(ptr, lalign l, sz)}"
  obtain n where n: "size_of_allocation m ptr (lalign l) = Some n" "sz \<le> n" "reallocate c t m ptr l = Some (None, t, m) \<and> n \<le> lsize l \<or>
      (\<exists>p t' m'. reallocate c t m ptr l = Some (Some p, t', m') \<and> reallocated c m ps ptr sz n l p t' m')"
    by (rule reallocate_live [OF assms])
  from n(3) show ?thesis
  proof (elim disjE exE conjE)
    assume "reallocate c t m ptr l = Some (None, t, m)"
    then show ?thesis using n(1,2) by simp
  next
    fix p t' m' assume r: "reallocate c t m ptr l = Some (Some p, t', m')" and R: "reallocated c m ps ptr sz n l p t' m'"
    then obtain ps' where I': "tlsf_inv c t' m' ps'" "live ps' = insert (p, lalign l, lsize l) ?A" "pool_bytes ps' = pool_bytes ps"
        and new: "(p, lalign l, lsize l) \<notin> ?A" unfolding reallocated_def by blast
    have "lalign l dvd p" "{p ..< p + lsize l} \<subseteq> pool_bytes ps"
      using live_in_pools [OF I'(1), of p "lalign l" "lsize l"] I'(2,3) by simp_all
    moreover have "separate (p, lalign l, lsize l) y" if "y \<in> ?A" for y
      using that I'(2) new by (intro live_separate [OF I'(1)]) auto
    ultimately show ?thesis using n(1,2) r R unfolding reallocated_def by (intro exI [of _ n] exI [of _ "Some p"]) auto
  qed
qed

theorem reallocate_spec_witness:
  "\<exists>(t :: (16 word, 16 word) tlsf) m ps ptr r t' m'. tlsf_inv demo_cfg t m ps \<and> (ptr, 64, 100) \<in> live ps \<and>
    reallocate demo_cfg t m ptr \<lparr>lsize = 300, lalign = 64\<rparr> = Some (r, t', m') \<and>
    (case r of None \<Rightarrow> m' = m | Some p \<Rightarrow> 64 dvd p \<and> (\<forall>i < 100. load_byte m' (p + i) = load_byte m (ptr + i)))"
proof -
  let ?l = "\<lparr>lsize = 300, lalign = 64\<rparr> :: layout"
  obtain t :: "(16 word, 16 word) tlsf" and m ps ptr where d: "tlsf_inv demo_cfg t m ps" "(ptr, 64, 100) \<in> live ps"
    using demo_used by blast
  have L: "layout_ok ?l" using is_power_of_two_pow2 [of 6] by (simp add: layout_ok_def ISIZE_MAX_def USIZE_LIM_def)
  obtain n r t' m' where r: "100 \<le> n" "reallocate demo_cfg t m ptr ?l = Some (r, t', m')"
      "case r of None \<Rightarrow> m' = m | Some p \<Rightarrow> 64 dvd p \<and> (\<forall>i < min n 300. load_byte m' (p + i) = load_byte m (ptr + i))"
    using reallocate_spec [OF d(1) _ L, of ptr 100] d(2) by (auto split: option.splits)
  then have "case r of None \<Rightarrow> m' = m | Some p \<Rightarrow> 64 dvd p \<and> (\<forall>i < 100. load_byte m' (p + i) = load_byte m (ptr + i))"
    by (auto split: option.splits)
  with d r(2) show ?thesis by blast
qed

end
