(* ===== verification/Client.thy ===== *)
theory Client
  imports Allocator_Pool Allocator_Realloc
begin

text \<open>
  Programs that use the allocator. An operation is a call of the allocator or an access to a byte of
  an allocation; \<open>exec\<close> runs it on the state of the allocator and the memory. The client's view is
  an abstract heap, a map from pointers to an alignment and the bytes of the allocation, and
  \<open>spec\<close> says how an operation and its reply change it: nothing of blocks, headers and free lists
  remains. The allocator refines this specification, and sequences of legal operations never fault.
\<close>

section \<open>Operations\<close>

datatype op = Allocate layout | Deallocate usize usize | Reallocate usize layout
  | Read usize nat | Write usize nat usize | Insert "usize \<times> usize" | Append "usize \<times> usize"

datatype reply = Pointer "usize option" | Byte usize | Used_bytes "usize option" | Done

fun exec :: "cfg \<Rightarrow> op \<Rightarrow> ('f::len word, 's::len word) tlsf \<times> mem \<Rightarrow> (reply \<times> ('f word, 's word) tlsf \<times> mem) option" where
  "exec c (Allocate l) (t, m) = map_option (\<lambda>(r, s). (Pointer r, s)) (allocate c t m l)"
| "exec c (Deallocate p al) (t, m) = map_option (\<lambda>s. (Done, s)) (deallocate c t m p al)"
| "exec c (Reallocate p l) (t, m) = map_option (\<lambda>(r, s). (Pointer r, s)) (reallocate c t m p l)"
| "exec c (Read p i) (t, m) = map_option (\<lambda>x. (Byte x, t, m)) (load_byte m (p + i))"
| "exec c (Write p i x) (t, m) = map_option (\<lambda>m. (Done, t, m)) (store_byte m (p + i) x)"
| "exec c (Insert blk) (t, m) = map_option (\<lambda>(r, s). (Used_bytes r, s)) (insert_free_block_ptr c t m blk)"
| "exec c (Append blk) (t, m) = map_option (\<lambda>(n, s). (Used_bytes (Some n), s)) (append_free_block_ptr c t m blk)"

section \<open>The specification\<close>

record view =
  heap :: "usize \<Rightarrow> (usize \<times> usize list) option"
  owned :: "usize set"
  ends :: "usize set"

text \<open>The preconditions the documentation states for the operations, over what the client knows.\<close>

definition unowned :: "mem \<Rightarrow> view \<Rightarrow> usize \<times> usize \<Rightarrow> bool" where
  "unowned m v blk \<longleftrightarrow> 0 < fst blk \<and> fst blk < USIZE_LIM \<and> fst blk + snd blk \<le> USIZE_LIM \<and>
     {fst blk ..< fst blk + snd blk} \<inter> owned v = {} \<and> (\<forall>a. fst blk \<le> a \<and> a < fst blk + snd blk \<and> 8 dvd a \<longrightarrow> m a \<noteq> None)"

fun legal :: "mem \<Rightarrow> view \<Rightarrow> op \<Rightarrow> bool" where
  "legal m v (Allocate l) \<longleftrightarrow> layout_ok l"
| "legal m v (Deallocate p al) \<longleftrightarrow> (\<exists>bs. heap v p = Some (al, bs))"
| "legal m v (Reallocate p l) \<longleftrightarrow> layout_ok l \<and> (\<exists>bs. heap v p = Some (lalign l, bs))"
| "legal m v (Read p i) \<longleftrightarrow> (\<exists>al bs. heap v p = Some (al, bs) \<and> i < length bs)"
| "legal m v (Write p i x) \<longleftrightarrow> (\<exists>al bs. heap v p = Some (al, bs) \<and> i < length bs) \<and> x < 256"
| "legal m v (Insert blk) \<longleftrightarrow> unowned m v blk"
| "legal m v (Append blk) \<longleftrightarrow> unowned m v blk \<and> fst blk \<in> ends v"

definition room :: "view \<Rightarrow> usize \<Rightarrow> layout \<Rightarrow> bool" where
  \<comment> \<open>an allocation with this layout fits at \<open>p\<close> without touching another one\<close>
  "room v p l \<longleftrightarrow> p \<notin> dom (heap v) \<and> lalign l dvd p \<and> {p ..< p + lsize l} \<subseteq> owned v \<and>
     (\<forall>q al bs. heap v q = Some (al, bs) \<longrightarrow> {p ..< p + lsize l} \<inter> {q ..< q + length bs} = {})"

inductive spec :: "view \<Rightarrow> op \<Rightarrow> reply \<Rightarrow> view \<Rightarrow> bool" where
  alloc_fails: "spec v (Allocate l) (Pointer None) v"
| alloc: "room v p l \<Longrightarrow> length bs = lsize l \<Longrightarrow>
    spec v (Allocate l) (Pointer (Some p)) (v\<lparr>heap := (heap v)(p \<mapsto> (lalign l, bs))\<rparr>)"
| dealloc: "spec v (Deallocate p al) Done (v\<lparr>heap := (heap v)(p := None)\<rparr>)"
| realloc_fails: "spec v (Reallocate p l) (Pointer None) v"
| realloc: "heap v p = Some (al, bs) \<Longrightarrow> room (v\<lparr>heap := (heap v)(p := None)\<rparr>) q l \<Longrightarrow> length bs' = lsize l \<Longrightarrow>
    take (length bs) bs' = take (lsize l) bs \<Longrightarrow>
    spec v (Reallocate p l) (Pointer (Some q)) (v\<lparr>heap := (heap v)(p := None, q \<mapsto> (lalign l, bs'))\<rparr>)"
| read_byte: "heap v p = Some (al, bs) \<Longrightarrow> spec v (Read p i) (Byte (bs ! i)) v"
| write_byte: "heap v p = Some (al, bs) \<Longrightarrow> spec v (Write p i x) Done (v\<lparr>heap := (heap v)(p \<mapsto> (al, bs[i := x]))\<rparr>)"
| insert_fails: "snd blk < 96 \<Longrightarrow> spec v (Insert blk) (Used_bytes None) v"
| insert: "n \<le> snd blk \<Longrightarrow> snd blk < n + 64 \<Longrightarrow> spec v (Insert blk) (Used_bytes (Some n))
    (v\<lparr>owned := owned v \<union> {fst blk ..< fst blk + n}, ends := insert (fst blk + n) (ends v)\<rparr>)"
| append: "n \<le> snd blk \<Longrightarrow> snd blk < n + 64 \<Longrightarrow> spec v (Append blk) (Used_bytes (Some n))
    (v\<lparr>owned := owned v \<union> {fst blk ..< fst blk + n}, ends := insert (fst blk + n) (ends v - {fst blk})\<rparr>)"

inductive_cases spec_allocE: "spec v (Allocate l) r v'"
inductive_cases spec_deallocE: "spec v (Deallocate p al) r v'"
inductive_cases spec_reallocE: "spec v (Reallocate p l) r v'"
inductive_cases spec_readE: "spec v (Read p i) r v'"
inductive_cases spec_writeE: "spec v (Write p i x) r v'"
inductive_cases spec_insertE: "spec v (Insert blk) r v'"
inductive_cases spec_appendE: "spec v (Append blk) r v'"

text \<open>Reachable states of the allocator and of a client that reads the bytes of a new allocation.\<close>

definition holds :: "mem \<Rightarrow> view \<Rightarrow> bool" where
  "holds m v \<longleftrightarrow> (\<forall>p al bs i. heap v p = Some (al, bs) \<longrightarrow> i < length bs \<longrightarrow> load_byte m (p + i) = Some (bs ! i))"

inductive reachable :: "cfg \<Rightarrow> ('f::len word, 's::len word) tlsf \<times> mem \<Rightarrow> view \<Rightarrow> bool" for c where
  new: "reachable c (tlsf_new c, m) \<lparr>heap = Map.empty, owned = {}, ends = {}\<rparr>"
| step: "reachable c s v \<Longrightarrow> legal (snd s) v x \<Longrightarrow> exec c x s = Some (r, s') \<Longrightarrow> spec v x r v' \<Longrightarrow>
    holds (snd s') v' \<Longrightarrow> reachable c s' v'"

section \<open>Refinement\<close>

definition same_live :: "view \<Rightarrow> (usize \<times> usize \<times> usize) set \<Rightarrow> bool" where
  "same_live v A \<longleftrightarrow> (\<forall>p al sz. (p, al, sz) \<in> A \<longleftrightarrow> (\<exists>bs. heap v p = Some (al, bs) \<and> length bs = sz))"

definition refines :: "cfg \<Rightarrow> ('f::len word, 's::len word) tlsf \<times> mem \<Rightarrow> view \<Rightarrow> bool" where
  "refines c s v \<longleftrightarrow> holds (snd s) v \<and>
     (\<exists>ps. tlsf_inv c (fst s) (snd s) ps \<and> same_live v (live ps) \<and> pool_bytes ps \<subseteq> owned v \<and> ends v \<subseteq> pool_ends ps)"

lemma refinesI:
  "tlsf_inv c t m ps \<Longrightarrow> same_live v (live ps) \<Longrightarrow> holds m v \<Longrightarrow> pool_bytes ps \<subseteq> owned v \<Longrightarrow> ends v \<subseteq> pool_ends ps \<Longrightarrow>
    refines c (t, m) v"
  by (auto simp: refines_def)

lemma same_live_heap: "same_live v A \<Longrightarrow> heap v p = Some (al, bs) \<Longrightarrow> (p, al, length bs) \<in> A"
  by (auto simp: same_live_def)

lemma pool_ends_spans: "spans ps' = spans ps \<Longrightarrow> pool_ends ps' = pool_ends ps"
  by (simp add: pool_ends_def)

lemma live_bytes:
  assumes I: "tlsf_inv c t m ps" and x: "(p, al, sz) \<in> live ps"
  obtains bs where "length bs = sz" and "\<forall>i < sz. load_byte m (p + i) = Some (bs ! i)"
proof -
  obtain b z q where e: "(b, z, Used p al sz, q) \<in> set (all_entries ps)" using x live_entry by metis
  note u = used_entry [OF I e]
  obtain bs where "load_bytes m p sz = Some bs" "length bs = sz" "\<And>i. i < sz \<Longrightarrow> load_byte m (p + i) = Some (bs ! i)"
    by (rule load_bytes_obtain [of sz m p]) (use payload_cell_mapped [OF I e] u(12) in auto)
  then show thesis using that by blast
qed

lemma holds_kept:
  assumes "holds m v" and "contents_kept m m' A"
    and "\<And>p al bs. heap v' p = Some (al, bs) \<Longrightarrow> heap v p = Some (al, bs) \<and> (p, al, length bs) \<in> A"
  shows "holds m' v'"
  unfolding holds_def
proof (intro allI impI)
  fix p al bs i assume h: "heap v' p = Some (al, bs)" and i: "i < length bs"
  have "load_byte m' (p + i) = load_byte m (p + i)" using assms(2) assms(3) [OF h] i unfolding contents_kept_def by (metis le_add1 nat_add_left_cancel_less)
  then show "load_byte m' (p + i) = Some (bs ! i)" using assms(1) assms(3) [OF h] i by (simp add: holds_def)
qed

lemma holds_update:
  assumes "holds m' (v\<lparr>heap := (heap v)(p := None)\<rparr>)" and "\<forall>i < length bs. load_byte m' (p + i) = Some (bs ! i)"
  shows "holds m' (v\<lparr>heap := (heap v)(p \<mapsto> (al, bs))\<rparr>)"
  using assms by (auto simp: holds_def)

text \<open>A new allocation of the model has room in the view.\<close>

lemma roomI:
  assumes I: "tlsf_inv c t m ps'" and lv: "live ps' = insert (p, lalign l, lsize l) A" "(p, lalign l, lsize l) \<notin> A"
    and v: "same_live v A" "pool_bytes ps' \<subseteq> owned v"
  shows "room v p l"
proof -
  have sep: "separate (p, lalign l, lsize l) x" if "x \<in> A" for x
    using that lv by (intro live_separate [OF I]) auto
  have "p \<notin> dom (heap v)"
  proof
    assume "p \<in> dom (heap v)"
    then obtain al bs where "heap v p = Some (al, bs)" by auto
    from sep [OF same_live_heap [OF v(1) this]] show False by (simp add: separate_def)
  qed
  moreover have "{p ..< p + lsize l} \<inter> {q ..< q + length bs} = {}" if "heap v q = Some (al, bs)" for q al bs
    using sep [OF same_live_heap [OF v(1) that]] by (simp add: separate_def)
  moreover have "lalign l dvd p" "{p ..< p + lsize l} \<subseteq> pool_bytes ps'"
    using live_in_pools [OF I, of p "lalign l" "lsize l"] lv(1) by simp_all
  ultimately show ?thesis using v(2) by (auto simp: room_def)
qed

lemma same_live_update:
  assumes "same_live v A" and "B = insert (p, al, length bs) A" and "p \<notin> dom (heap v)"
  shows "same_live (v\<lparr>heap := (heap v)(p \<mapsto> (al, bs))\<rparr>) B"
  using assms by (auto simp: same_live_def)

lemma same_live_delete:
  assumes "same_live v A" and "B = A - {(p, al, length bs)}" and "heap v p = Some (al, bs)"
  shows "same_live (v\<lparr>heap := (heap v)(p := None)\<rparr>) B"
  using assms by (auto simp: same_live_def)

section \<open>Every operation follows the specification\<close>

lemma refinesE:
  assumes "refines c (t, m) v"
  obtains ps where "tlsf_inv c t m ps" and "same_live v (live ps)" and "holds m v" and "pool_bytes ps \<subseteq> owned v" and "ends v \<subseteq> pool_ends ps"
  using assms by (auto simp: refines_def)

definition follows :: "cfg \<Rightarrow> view \<Rightarrow> op \<Rightarrow> ('f::len word, 's::len word) tlsf \<times> mem \<Rightarrow> bool" where
  "follows c v x s \<longleftrightarrow> (\<exists>r s' v'. exec c x s = Some (r, s') \<and> spec v x r v' \<and> refines c s' v')"

lemma followsI: "exec c x s = Some (r, s') \<Longrightarrow> spec v x r v' \<Longrightarrow> refines c s' v' \<Longrightarrow> follows c v x s"
  by (auto simp: follows_def)

lemma allocate_follows:
  assumes R: "refines c (t, m) v" and L: "layout_ok l"
  shows "follows c v (Allocate l) (t, m)"
proof -
  obtain ps where ps: "tlsf_inv c t m ps" "same_live v (live ps)" "holds m v" "pool_bytes ps \<subseteq> owned v" "ends v \<subseteq> pool_ends ps"
    by (rule refinesE [OF R])
  show ?thesis
  proof (rule allocate_live [OF ps(1) L])
    assume "allocate c t m l = Some (None, t, m)"
    then show ?thesis by (intro followsI [OF _ spec.alloc_fails R]) simp
  next
    fix p t' m' ps' assume a: "allocate c t m l = Some (Some p, t', m')" "tlsf_inv c t' m' ps'"
      "live ps' = insert (p, lalign l, lsize l) (live ps)" "(p, lalign l, lsize l) \<notin> live ps"
      "pool_bytes ps' = pool_bytes ps" "contents_kept m m' (live ps)" "spans ps' = spans ps"
    have room: "room v p l" using ps(4) a(5) by (intro roomI [OF a(2-4) ps(2)]) simp
    then have new: "p \<notin> dom (heap v)" by (simp add: room_def)
    obtain bs where bs: "length bs = lsize l" "\<forall>i < lsize l. load_byte m' (p + i) = Some (bs ! i)"
      by (rule live_bytes [OF a(2), of p "lalign l" "lsize l"]) (use a(3) in auto)
    let ?v = "v\<lparr>heap := (heap v)(p \<mapsto> (lalign l, bs))\<rparr>"
    have "holds m' (v\<lparr>heap := (heap v)(p := None)\<rparr>)"
      by (rule holds_kept [OF ps(3) a(6)]) (use same_live_heap [OF ps(2)] in \<open>auto split: if_splits\<close>)
    then have "holds m' ?v" by (rule holds_update) (simp add: bs)
    then have "refines c (t', m') ?v"
      using ps(4,5) a(3,5) pool_ends_spans [OF a(7)] bs(1) by (intro refinesI [OF a(2) same_live_update [OF ps(2) _ new]]) simp_all
    then show ?thesis using a(1) room bs(1) by (intro followsI [OF _ spec.alloc]) simp_all
  qed
qed

lemma deallocate_follows:
  assumes R: "refines c (t, m) v" and h: "heap v p = Some (al, bs)"
  shows "follows c v (Deallocate p al) (t, m)"
proof -
  obtain ps where ps: "tlsf_inv c t m ps" "same_live v (live ps)" "holds m v" "pool_bytes ps \<subseteq> owned v" "ends v \<subseteq> pool_ends ps"
    by (rule refinesE [OF R])
  note x = same_live_heap [OF ps(2) h]
  obtain t' m' ps' where d: "deallocate c t m p al = Some (t', m')" "tlsf_inv c t' m' ps'"
      "live ps' = live ps - {(p, al, length bs)}" "pool_bytes ps' = pool_bytes ps"
      "contents_kept m m' (live ps - {(p, al, length bs)})" "spans ps' = spans ps"
    by (rule deallocate_live [OF ps(1) x])
  let ?v = "v\<lparr>heap := (heap v)(p := None)\<rparr>"
  have "holds m' ?v"
    by (rule holds_kept [OF ps(3) d(5)]) (use same_live_heap [OF ps(2)] in \<open>auto split: if_splits\<close>)
  then have "refines c (t', m') ?v"
    using ps(4,5) d(4) pool_ends_spans [OF d(6)] by (intro refinesI [OF d(2) same_live_delete [OF ps(2) d(3) h]]) simp_all
  then show ?thesis using d(1) by (intro followsI [OF _ spec.dealloc]) simp_all
qed

lemma reallocate_follows:
  assumes R: "refines c (t, m) v" and L: "layout_ok l" and h: "heap v p = Some (lalign l, bs)"
  shows "follows c v (Reallocate p l) (t, m)"
proof -
  obtain ps where ps: "tlsf_inv c t m ps" "same_live v (live ps)" "holds m v" "pool_bytes ps \<subseteq> owned v" "ends v \<subseteq> pool_ends ps"
    by (rule refinesE [OF R])
  note x = same_live_heap [OF ps(2) h]
  obtain n where n: "length bs \<le> n" "reallocate c t m p l = Some (None, t, m) \<and> n \<le> lsize l \<or>
      (\<exists>q t' m'. reallocate c t m p l = Some (Some q, t', m') \<and> reallocated c m ps p (length bs) n l q t' m')"
    by (rule reallocate_live [OF ps(1) x L])
  from n(2) show ?thesis
  proof (elim disjE exE conjE)
    assume "reallocate c t m p l = Some (None, t, m)"
    then show ?thesis by (intro followsI [OF _ spec.realloc_fails R]) simp
  next
    fix q t' m' assume r: "reallocate c t m p l = Some (Some q, t', m')" and re: "reallocated c m ps p (length bs) n l q t' m'"
    let ?A = "live ps - {(p, lalign l, length bs)}" and ?w = "v\<lparr>heap := (heap v)(p := None)\<rparr>"
    obtain ps' where a: "tlsf_inv c t' m' ps'" "live ps' = insert (q, lalign l, lsize l) ?A" "pool_bytes ps' = pool_bytes ps"
        "spans ps' = spans ps" and k: "contents_kept m m' ?A" "(q, lalign l, lsize l) \<notin> ?A"
        "\<forall>i < min n (lsize l). load_byte m' (q + i) = load_byte m (p + i)"
      using re unfolding reallocated_def by blast
    have w: "same_live ?w ?A" by (rule same_live_delete [OF ps(2) refl h])
    have room: "room ?w q l" using ps(4) a(3) by (intro roomI [OF a(1,2) k(2) w]) simp
    then have new: "q \<notin> dom (heap ?w)" by (simp add: room_def)
    obtain bs' where bs': "length bs' = lsize l" "\<forall>i < lsize l. load_byte m' (q + i) = Some (bs' ! i)"
      by (rule live_bytes [OF a(1), of q "lalign l" "lsize l"]) (use a(2) in auto)
    have "take (length bs) bs' = take (lsize l) bs"
    proof (rule nth_equalityI)
      fix i assume "i < length (take (length bs) bs')"
      then have i: "i < length bs" "i < lsize l" using bs'(1) by simp_all
      moreover from this have "load_byte m' (q + i) = Some (bs ! i)" using k(3) n(1) ps(3) h by (simp add: holds_def)
      ultimately show "take (length bs) bs' ! i = take (lsize l) bs ! i" using bs'(2) by simp
    qed (simp add: bs'(1))
    then have sp: "spec v (Reallocate p l) (Pointer (Some q)) (?w\<lparr>heap := (heap ?w)(q \<mapsto> (lalign l, bs'))\<rparr>)"
      using spec.realloc [OF h room bs'(1)] by simp
    have "holds m' (?w\<lparr>heap := (heap ?w)(q := None)\<rparr>)"
      by (rule holds_kept [OF ps(3) k(1)]) (use same_live_heap [OF w] in \<open>auto split: if_splits\<close>)
    then have "holds m' (?w\<lparr>heap := (heap ?w)(q \<mapsto> (lalign l, bs'))\<rparr>)" by (rule holds_update) (simp add: bs')
    then have "refines c (t', m') (?w\<lparr>heap := (heap ?w)(q \<mapsto> (lalign l, bs'))\<rparr>)"
      using ps(4,5) a(2,3) pool_ends_spans [OF a(4)] bs'(1) by (intro refinesI [OF a(1) same_live_update [OF w _ new]]) simp_all
    then show ?thesis using r by (intro followsI [OF _ sp]) simp_all
  qed
qed

lemma read_follows:
  assumes R: "refines c (t, m) v" and h: "heap v p = Some (al, bs)" and i: "i < length bs"
  shows "follows c v (Read p i) (t, m)"
proof -
  have "load_byte m (p + i) = Some (bs ! i)" using R h i by (simp add: refines_def holds_def)
  then show ?thesis by (intro followsI [OF _ spec.read_byte [OF h] R]) simp
qed

lemma write_follows:
  assumes R: "refines c (t, m) v" and h: "heap v p = Some (al, bs)" and i: "i < length bs" and x: "x < 256"
  shows "follows c v (Write p i x) (t, m)"
proof -
  obtain ps where ps: "tlsf_inv c t m ps" "same_live v (live ps)" "holds m v" "pool_bytes ps \<subseteq> owned v" "ends v \<subseteq> pool_ends ps"
    by (rule refinesE [OF R])
  note lv = same_live_heap [OF ps(2) h]
  obtain b z q where e: "(b, z, Used p al (length bs), q) \<in> set (all_entries ps)" using lv live_entry by metis
  note u = used_entry [OF ps(1) e]
  have le: "p + i < b + z" using u(12) i by linarith
  obtain m' where m': "store_byte m (p + i) x = Some m'" "changes_only m m' {p + i - (p + i) mod 8}"
      "\<And>b. load_byte m' b = (if b = p + i then Some (x mod 256) else load_byte m b)"
    by (rule store_byte_obtain [of m "p + i" x]) (use payload_cell_mapped [OF ps(1) e le] in auto)
  have S: "{p + i - (p + i) mod 8} \<subseteq> {p ..< b + z}" using cell_of_byte [OF u(9), of "p + i"] le by auto
  note I' = payload_write_inv [OF ps(1) e m'(2) S] and k = payload_write_contents [OF ps(1) e m'(2) S]
  let ?v = "v\<lparr>heap := (heap v)(p \<mapsto> (al, bs[i := x]))\<rparr>"
  have "holds m' (v\<lparr>heap := (heap v)(p := None)\<rparr>)"
    by (rule holds_kept [OF ps(3) k]) (use same_live_heap [OF ps(2)] in \<open>auto split: if_splits\<close>)
  then have "holds m' ?v"
    using m'(3) x ps(3) h by (intro holds_update) (auto simp: nth_list_update holds_def)
  moreover have "same_live ?v (live ps)" using ps(2) h by (auto simp: same_live_def)
  ultimately have "refines c (t, m') ?v" using ps(4,5) by (intro refinesI [OF I']) simp_all
  then show ?thesis using m'(1) by (intro followsI [OF _ spec.write_byte [OF h]]) simp_all
qed

lemma unowned_fresh: "unowned m v blk \<Longrightarrow> pool_bytes ps \<subseteq> owned v \<Longrightarrow> fresh m ps (fst blk) (snd blk)"
  by (auto simp: unowned_def fresh_def pool_bytes_def)

lemma insert_follows:
  assumes R: "refines c (t, m) v" and un: "unowned m v blk"
  shows "follows c v (Insert blk) (t, m)"
proof -
  obtain ps where ps: "tlsf_inv c t m ps" "same_live v (live ps)" "holds m v" "pool_bytes ps \<subseteq> owned v" "ends v \<subseteq> pool_ends ps"
    by (rule refinesE [OF R])
  have blk: "0 < fst blk" "fst blk < USIZE_LIM" "fst blk + snd blk \<le> USIZE_LIM" using un by (simp_all add: unowned_def)
  note fr = unowned_fresh [OF un ps(4)]
  show ?thesis
  proof (cases "snd blk < (round_up 32 (fst blk) - fst blk) + 64")
    case True
    then have "snd blk < 96" using round_up_32 [of "fst blk"] by linarith
    then show ?thesis using insert_small [OF blk True] by (intro followsI [OF _ spec.insert_fails R]) simp_all
  next
    case False
    then have "(round_up 32 (fst blk) - fst blk) + 64 \<le> snd blk" by simp
    then show ?thesis
    proof (rule insert_grown [OF ps(1) blk fr])
      let ?s = "round_up 32 (fst blk)" and ?u = "usable_len blk"
      fix n t' m' assume r: "insert_free_block_ptr c t m blk = Some (Some n, t', m')" "tlsf_inv c t' m' (add_pools c ?s ?u ps)"
        "n \<le> snd blk" "snd blk < n + 64" and g: "grown m m' ps (add_pools c ?s ?u ps) ?s (fst blk + n) {}"
      let ?v = "v\<lparr>owned := owned v \<union> {fst blk ..< fst blk + n}, ends := insert (fst blk + n) (ends v)\<rparr>"
      have "holds m' ?v"
        using g used_kept_contents [OF ps(1)]
        by (intro holds_kept [OF ps(3), of m' "live ps"]) (auto simp: grown_def same_live_heap [OF ps(2)])
      moreover have "same_live ?v (live (add_pools c ?s ?u ps))" using ps(2) by (simp add: live_add_pools same_live_def)
      moreover have "pool_bytes (add_pools c ?s ?u ps) \<subseteq> owned ?v" using g ps(4) round_up_32 [of "fst blk"] by (auto simp: grown_def)
      moreover have "ends ?v \<subseteq> pool_ends (add_pools c ?s ?u ps)" using g ps(5) pool_ends_add_pools [of ps c ?s ?u] by (auto simp: grown_def)
      ultimately have "refines c (t', m') ?v" by (intro refinesI [OF r(2)])
      then show ?thesis using r(1) by (intro followsI [OF _ spec.insert [OF r(3,4)]]) simp_all
    qed
  qed
qed

lemma append_follows:
  assumes R: "refines c (t, m) v" and un: "unowned m v blk" and e: "fst blk \<in> ends v"
  shows "follows c v (Append blk) (t, m)"
proof -
  obtain ps where ps: "tlsf_inv c t m ps" "same_live v (live ps)" "holds m v" "pool_bytes ps \<subseteq> owned v" "ends v \<subseteq> pool_ends ps"
    by (rule refinesE [OF R])
  have blk: "fst blk < USIZE_LIM" "fst blk + snd blk \<le> USIZE_LIM" using un by (simp_all add: unowned_def)
  obtain s bs where p: "(s, bs) \<in> set ps" "fst blk = s + extent bs"
    using e ps(5) by (auto simp: pool_ends_def spans_def)
  show ?thesis
  proof (rule append_live [OF ps(1) p blk unowned_fresh [OF un ps(4)]])
    fix n t' m' ps' assume r: "append_free_block_ptr c t m blk = Some (n, t', m')" "tlsf_inv c t' m' ps'"
      "n \<le> snd blk" "snd blk < n + 64" and g: "live ps' = live ps" "pool_bytes ps' = pool_bytes ps \<union> {fst blk ..< fst blk + n}"
      "used_kept m m' ps ps'" "insert (fst blk + n) (pool_ends ps - {fst blk}) \<subseteq> pool_ends ps'"
    let ?v = "v\<lparr>owned := owned v \<union> {fst blk ..< fst blk + n}, ends := insert (fst blk + n) (ends v - {fst blk})\<rparr>"
    have "holds m' ?v" by (rule holds_kept [OF ps(3) used_kept_contents [OF ps(1) g(3)]]) (simp add: same_live_heap [OF ps(2)])
    moreover have "same_live ?v (live ps')" using ps(2) by (simp add: g(1) same_live_def)
    moreover have "pool_bytes ps' \<subseteq> owned ?v" "ends ?v \<subseteq> pool_ends ps'" using g(2,4) ps(4,5) by auto
    ultimately have "refines c (t', m') ?v" by (intro refinesI [OF r(2)])
    then show ?thesis using r(1) by (intro followsI [OF _ spec.append [OF r(3,4)]]) simp_all
  qed
qed

lemma legal_follows: "refines c (t, m) v \<Longrightarrow> legal m v x \<Longrightarrow> follows c v x (t, m)"
  by (cases x) (auto intro: allocate_follows deallocate_follows reallocate_follows read_follows write_follows insert_follows append_follows)

text \<open>C9: one step of a client. In a state that implements the client's view, every legal operation runs
  without a fault, its reply and the change of the view are ones the specification allows, and the new
  state implements the new view.\<close>

theorem exec_refines_spec:
  fixes s :: "('f::len word, 's::len word) tlsf \<times> mem"
  assumes "refines c s v" and "legal (snd s) v x"
  shows "\<exists>r s' v'. exec c x s = Some (r, s') \<and> spec v x r v' \<and> refines c s' v'"
  using legal_follows [of c "fst s" "snd s" v x] assms by (simp add: follows_def)

section \<open>Reachable states\<close>

lemma holdsD: "holds m v \<Longrightarrow> heap v p = Some (al, bs) \<Longrightarrow> i < length bs \<Longrightarrow> load_byte m (p + i) = Some (bs ! i)"
  by (simp add: holds_def)

lemma holds_unique:
  assumes "holds m (v\<lparr>heap := h(p \<mapsto> (al, bs))\<rparr>)" "holds m (v\<lparr>heap := h(p \<mapsto> (al, bs'))\<rparr>)" "length bs = length bs'"
  shows "bs = bs'"
proof (rule nth_equalityI [OF assms(3)])
  fix i assume "i < length bs"
  then have "load_byte m (p + i) = Some (bs ! i)" "load_byte m (p + i) = Some (bs' ! i)"
    using holdsD [OF assms(1), of p al bs i] holdsD [OF assms(2), of p al bs' i] assms(3) by simp_all
  then show "bs ! i = bs' ! i" by simp
qed

lemma spec_unique:
  assumes "spec v x r v1" "spec v x r v2" "holds m v1" "holds m v2"
  shows "v1 = v2"
  using assms
proof (cases x)
  case (Allocate l)
  with assms show ?thesis by (auto elim!: spec_allocE dest: holds_unique)
next
  case (Reallocate p l)
  with assms show ?thesis by (auto elim!: spec_reallocE dest: holds_unique)
next
  case (Write p i b)
  with assms show ?thesis by (auto elim!: spec_writeE)
qed (auto elim: spec_deallocE spec_readE spec_insertE spec_appendE)

lemma reachable_refines:
  assumes "reachable c s v" and "cfg_ok c" "FLLEN c \<le> LENGTH('f)" "SLLEN c \<le> LENGTH('s)"
  shows "refines c (s :: ('f::len word, 's::len word) tlsf \<times> mem) v"
  using assms(1)
proof induction
  case (new m)
  show ?case by (rule refinesI [OF tlsf_new_inv [OF assms(2-4)]]) (simp_all add: same_live_def holds_def live_def blocks_of_def pool_bytes_def)
next
  case (step s v x r s' v')
  obtain v'' where v: "spec v x r v''" "refines c s' v''"
    using legal_follows [of c "fst s" "snd s" v x] step(2,3,6) by (auto simp: follows_def)
  then have "holds (snd s') v''" by (simp add: refines_def)
  then have "v'' = v'" using spec_unique v(1) step(4,5) by blast
  with v(2) show ?case by simp
qed

lemma refines_heap:
  assumes "refines c (t, m) v" and "heap v p = Some (al, bs)"
  shows "al dvd p" and "{p ..< p + length bs} \<subseteq> owned v"
    and "q \<noteq> p \<Longrightarrow> heap v q = Some (al', bs') \<Longrightarrow> {p ..< p + length bs} \<inter> {q ..< q + length bs'} = {}"
proof -
  obtain ps where ps: "tlsf_inv c t m ps" "same_live v (live ps)" "pool_bytes ps \<subseteq> owned v" using assms(1) by (rule refinesE)
  note lv = same_live_heap [OF ps(2) assms(2)]
  show "al dvd p" "{p ..< p + length bs} \<subseteq> owned v" using live_in_pools [OF ps(1) lv] ps(3) by auto
  show "{p ..< p + length bs} \<inter> {q ..< q + length bs'} = {}" if "q \<noteq> p" "heap v q = Some (al', bs')"
    using live_separate [OF ps(1) lv same_live_heap [OF ps(2) that(2)]] that(1) by (simp add: separate_def)
qed


section \<open>No fragmentation remains\<close>

text \<open>A pool without used blocks is one free block: neighbours that are free have been merged.\<close>

lemma unused_pool_whole:
  assumes "pool_ok c (s, bs)" and "\<forall>x \<in> set bs. \<forall>ptr al sz. snd x \<noteq> Used ptr al sz"
  shows "bs = [(extent bs - 32, Free), (32, Sentinel)]"
proof -
  obtain us where us: "bs = us @ [(32, Sentinel)]" "us \<noteq> []" "list_all blk_ok us" "no_adjacent_free bs"
    using assms(1) by (auto simp: pool_ok_def shape_def)
  have free: "snd x = Free" if "x \<in> set us" for x
    using assms(2) us(1,3) that by (cases "snd x") (auto simp: list_all_iff blk_ok_def)
  obtain x ys where x: "us = x # ys" using us(2) by (cases us) auto
  have "ys = []"
  proof (cases ys)
    case (Cons y zs)
    then show ?thesis using us(1,4) free [of x] free [of y] by (simp add: x no_adjacent_free_def)
  qed
  then show ?thesis using us(1) free [of x] by (cases x) (simp add: x)
qed

lemma unused_pools_whole:
  assumes I: "tlsf_inv c t m ps" and "live ps = {}" and p: "(s, bs) \<in> set ps"
  shows "bs = [(extent bs - 32, Free), (32, Sentinel)]" and "(s, extent bs - 32, Free, None) \<in> set (all_entries ps)"
proof -
  have "pool_ok c (s, bs)" using inv_pools_ok [OF I] p by (auto simp: pools_ok_def list_all_iff)
  moreover have "snd x \<noteq> Used ptr al sz" if "x \<in> set bs" for x ptr al sz
    using assms(2) p that by (force simp: live_def blocks_of_def)
  ultimately show bs: "bs = [(extent bs - 32, Free), (32, Sentinel)]" by (intro unused_pool_whole) auto
  obtain P Q where "ps = P @ (s, bs) # Q" using p by (metis split_list)
  then show "(s, extent bs - 32, Free, None) \<in> set (all_entries ps)" by (subst (asm) bs) simp
qed

text \<open>C11: freeing everything undoes all fragmentation. Whatever legal operations led to the state, once the client has
  no allocations left, every pool of the allocator is one free block again, up to its sentinel, and an allocation for which
  \<open>pool_size_to_contain_allocation\<close> returns at most the length of a pool succeeds.\<close>

theorem freed_pools_coalesce:
  fixes t :: "('f::len word, 's::len word) tlsf"
  assumes "reachable c (t, m) v" and "cfg_ok c" "FLLEN c \<le> LENGTH('f)" "SLLEN c \<le> LENGTH('s)" and "heap v = Map.empty"
  shows "\<exists>ps. tlsf_inv c t m ps \<and> pool_bytes ps \<subseteq> owned v \<and> ends v \<subseteq> pool_ends ps \<and>
    (\<forall>s bs. (s, bs) \<in> set ps \<longrightarrow> bs = [(extent bs - 32, Free), (32, Sentinel)] \<and>
      (\<forall>l n. layout_ok l \<longrightarrow> pool_size_to_contain_allocation c l = Some (Some n) \<longrightarrow> n \<le> extent bs \<longrightarrow>
        (\<exists>p t' m'. exec c (Allocate l) (t, m) = Some (Pointer (Some p), t', m'))))"
proof -
  have "refines c (t, m) v" by (rule reachable_refines [OF assms(1-4)])
  then obtain ps where ps: "tlsf_inv c t m ps" "same_live v (live ps)" "pool_bytes ps \<subseteq> owned v" "ends v \<subseteq> pool_ends ps"
    by (auto simp: refines_def)
  have "live ps = {}" using ps(2) assms(5) by (auto simp: same_live_def)
  note w = unused_pools_whole [OF ps(1) this]
  have "\<exists>p t' m'. exec c (Allocate l) (t, m) = Some (Pointer (Some p), t', m')"
    if p: "(s, bs) \<in> set ps" and l: "layout_ok l" "pool_size_to_contain_allocation c l = Some (Some n)" "n \<le> extent bs" for s bs l n
  proof -
    have n: "n \<le> extent bs - 32 + 32" using l(3) by simp
    obtain fl sl where "search_suitable_free_block_list_for_allocation c t (search_size l) = Some (Some (fl, sl))"
      by (rule allocate_contained [OF ps(1) l(1,2) w(2) [OF p] n])
    from allocate_some [OF ps(1) l(1) this] obtain p' t' m' where "allocate c t m l = Some (Some p', t', m')" by metis
    then show ?thesis by auto
  qed
  then show ?thesis using ps w(1) by blast
qed

section \<open>A concrete client\<close>

definition demo_view :: view where
  "demo_view = \<lparr>heap = Map.empty, owned = {}, ends = {}\<rparr>"

lemma demo_view_refines: "refines demo_cfg (tlsf_new demo_cfg :: (16 word, 16 word) tlsf, demo_mem) demo_view"
  using reachable.new [of demo_cfg demo_mem] demo_cfg_ok
  by (intro reachable_refines) (simp_all add: demo_view_def demo_cfg_def)

theorem exec_refines_spec_witness:
  "\<exists>r (s' :: (16 word, 16 word) tlsf \<times> mem) v'. exec demo_cfg (Insert (4096, 4096)) (tlsf_new demo_cfg, demo_mem) = Some (r, s') \<and>
    spec demo_view (Insert (4096, 4096)) r v' \<and> refines demo_cfg s' v'"
  by (rule exec_refines_spec [OF demo_view_refines]) (simp add: unowned_def demo_view_def demo_mem_def USIZE_LIM_def)

lemma demo_reachable: "\<exists>s :: (16 word, 16 word) tlsf \<times> mem. \<exists>v. reachable demo_cfg s v \<and> owned v \<noteq> {} \<and> ends v \<noteq> {} \<and> heap v = Map.empty"
proof -
  have new: "reachable demo_cfg (tlsf_new demo_cfg :: (16 word, 16 word) tlsf, demo_mem) demo_view"
    unfolding demo_view_def by (rule reachable.new)
  have lg: "legal (snd (tlsf_new demo_cfg :: (16 word, 16 word) tlsf, demo_mem)) demo_view (Insert (4096, 4096))"
    by (simp add: unowned_def demo_view_def demo_mem_def USIZE_LIM_def)
  obtain r and s' :: "(16 word, 16 word) tlsf \<times> mem" and v' where x:
      "exec demo_cfg (Insert (4096, 4096)) (tlsf_new demo_cfg, demo_mem) = Some (r, s')"
      "spec demo_view (Insert (4096, 4096)) r v'" "refines demo_cfg s' v'"
    using legal_follows [OF demo_view_refines, of "Insert (4096, 4096)"] lg by (auto simp: follows_def)
  have "reachable demo_cfg s' v'" using reachable.step [OF new lg x(1,2)] x(3) by (simp add: refines_def)
  moreover have "owned v' \<noteq> {}" "ends v' \<noteq> {}" "heap v' = Map.empty" using x(2) by (auto elim!: spec_insertE simp: demo_view_def)
  ultimately show ?thesis by blast
qed


theorem freed_pools_coalesce_witness:
  "\<exists>(t :: (16 word, 16 word) tlsf) m v ps. reachable demo_cfg (t, m) v \<and> tlsf_inv demo_cfg t m ps \<and> ps \<noteq> [] \<and>
    (\<forall>s bs. (s, bs) \<in> set ps \<longrightarrow> bs = [(extent bs - 32, Free), (32, Sentinel)])"
proof -
  obtain t :: "(16 word, 16 word) tlsf" and m v where s: "reachable demo_cfg (t, m) v" "ends v \<noteq> {}" "heap v = Map.empty"
    using demo_reachable by auto
  obtain ps where ps: "tlsf_inv demo_cfg t m ps" "ends v \<subseteq> pool_ends ps"
      "\<forall>s bs. (s, bs) \<in> set ps \<longrightarrow> bs = [(extent bs - 32, Free), (32, Sentinel)]"
    using freed_pools_coalesce [OF s(1) demo_cfg_ok _ _ s(3)] by (auto simp: demo_cfg_def)
  then have "ps \<noteq> []" using s(2) by (auto simp: pool_ends_def spans_def)
  then show ?thesis using s ps by blast
qed

end
