(* ===== verification/Flex_Source.thy ===== *)
theory Flex_Source
  imports Allocator_Pool Allocator_Realloc
begin

text \<open>
  The interface between \<open>FlexTlsf\<close> and the memory it acquires (crates/rlsf/src/flex.rs): the trait
  \<open>FlexSource\<close> as a record of operations on the source's state and the memory, the trait's default
  methods, and the wrapper \<open>GlobalAllocAsFlexSource\<close> of a \<open>core::alloc::GlobalAlloc\<close>.
  A result \<open>None\<close> of an operation is a panic. The documented behaviour of a source is the locale
  \<open>flex_source\<close>; the wrapper satisfies it for every \<open>GlobalAlloc\<close> that keeps its contract.
\<close>

section \<open>The trait\<close>

record 'x FlexSource =
  src_alloc :: "'x \<Rightarrow> mem \<Rightarrow> usize \<Rightarrow> ((usize \<times> usize) option \<times> 'x \<times> mem) option"
  src_realloc_inplace_grow :: "'x \<Rightarrow> mem \<Rightarrow> usize \<times> usize \<Rightarrow> usize \<Rightarrow> (usize option \<times> 'x \<times> mem) option"
  src_dealloc :: "'x \<Rightarrow> mem \<Rightarrow> usize \<times> usize \<Rightarrow> ('x \<times> mem) option"
  src_supports_dealloc :: bool
  src_supports_realloc_inplace_grow :: bool
  src_is_contiguous_growable :: bool
  src_min_align :: usize

definition default_source :: "'x FlexSource" where
  \<comment> \<open>the provided methods of the trait; \<open>dealloc\<close> is \<open>unimplemented!\<close>\<close>
  "default_source = \<lparr>
     src_alloc = (\<lambda>x m min_size. Some (None, x, m)),
     src_realloc_inplace_grow = (\<lambda>x m ptr min_new_len. Some (None, x, m)),
     src_dealloc = (\<lambda>x m ptr. None),
     src_supports_dealloc = False,
     src_supports_realloc_inplace_grow = False,
     src_is_contiguous_growable = False,
     src_min_align = 1\<rparr>"

definition use_growable_pool :: "'x FlexSource \<Rightarrow> bool" where
  "use_growable_pool S \<longleftrightarrow> src_supports_dealloc S \<or> src_supports_realloc_inplace_grow S"

section \<open>GlobalAlloc as a source\<close>

text \<open>\<open>core::alloc::GlobalAlloc\<close>: \<open>alloc\<close> returns a pointer, null on failure.\<close>

record 'x GlobalAlloc =
  ga_alloc :: "'x \<Rightarrow> mem \<Rightarrow> layout \<Rightarrow> (usize \<times> 'x \<times> mem) option"
  ga_dealloc :: "'x \<Rightarrow> mem \<Rightarrow> usize \<Rightarrow> layout \<Rightarrow> ('x \<times> mem) option"

definition GA_ALIGN :: "usize \<Rightarrow> usize option" where
  \<comment> \<open>the constant \<open>Self::ALIGN\<close>; no power of two is a compile-time panic\<close>
  "GA_ALIGN al = (if is_power_of_two al then Some (if al < GRANULARITY then GRANULARITY else al) else None)"

definition pad_to_align :: "layout \<Rightarrow> layout" where
  "pad_to_align l = l\<lparr>lsize := round_up (lalign l) (lsize l)\<rparr>"

definition ga_source_alloc ::
  "'x GlobalAlloc \<Rightarrow> usize \<Rightarrow> 'x \<Rightarrow> mem \<Rightarrow> usize \<Rightarrow> ((usize \<times> usize) option \<times> 'x \<times> mem) option" where
  "ga_source_alloc G al x m min_size = (case map_option pad_to_align (from_size_align min_size al) of
     None \<Rightarrow> Some (None, x, m)
   | Some l \<Rightarrow> do {
       (start, x, m) \<leftarrow> ga_alloc G x m l;
       Some (map_option (\<lambda>start. (start, lsize l)) (to_ptr start), x, m)
     })"

definition ga_source_dealloc :: "'x GlobalAlloc \<Rightarrow> usize \<Rightarrow> 'x \<Rightarrow> mem \<Rightarrow> usize \<times> usize \<Rightarrow> ('x \<times> mem) option" where
  "ga_source_dealloc G al x m ptr = ga_dealloc G x m (nonnull_slice_start ptr) \<lparr>lsize = nonnull_slice_len ptr, lalign = al\<rparr>"

definition ga_source :: "'x GlobalAlloc \<Rightarrow> usize \<Rightarrow> 'x FlexSource" where
  "ga_source G al = default_source\<lparr>src_alloc := ga_source_alloc G al, src_dealloc := ga_source_dealloc G al,
     src_supports_dealloc := True, src_min_align := al\<rparr>"

lemma pad_to_align_ok:
  assumes "layout_ok l"
  shows "layout_ok (pad_to_align l)" and "lsize l \<le> lsize (pad_to_align l)" and "lalign l dvd lsize (pad_to_align l)"
    and "lalign (pad_to_align l) = lalign l"
proof -
  let ?al = "lalign l" and ?n = "lsize l"
  have p: "is_power_of_two ?al" and le: "?n + (?al - 1) \<le> ISIZE_MAX" using assms by (simp_all add: layout_ok_def)
  then obtain k where k: "?al = 2 ^ k" by (metis is_power_of_two_obtain)
  have "(2::nat) ^ k < 2 ^ 64" using le k by (simp add: ISIZE_MAX_def)
  then have "k < 64" by (rule power_less_imp_less_exp [rotated]) simp
  then have "?al dvd 2 ^ 63" unfolding k by (intro le_imp_power_dvd) simp
  moreover have r: "?n \<le> round_up ?al ?n" "round_up ?al ?n < ?n + ?al" "?al dvd round_up ?al ?n"
    using k by (simp_all add: round_up_ge round_up_lt)
  moreover have "round_up ?al ?n < 2 ^ 63" using r(2) le by (simp add: ISIZE_MAX_def)
  ultimately have "round_up ?al ?n + ?al \<le> 2 ^ 63" by (intro dvd_less_add_le)
  then have "round_up ?al ?n + (?al - 1) \<le> ISIZE_MAX" using k unfolding ISIZE_MAX_def by (metis Nat.add_diff_assoc One_nat_def Suc_leI diff_le_mono zero_less_numeral zero_less_power)
  then show "layout_ok (pad_to_align l)" using assms by (simp add: layout_ok_def pad_to_align_def)
  show "lsize l \<le> lsize (pad_to_align l)" "lalign l dvd lsize (pad_to_align l)" "lalign (pad_to_align l) = lalign l"
    using r by (simp_all add: pad_to_align_def)
qed

section \<open>The contract of a source\<close>

definition blk_range :: "usize \<times> usize \<Rightarrow> usize set" where
  "blk_range blk = {fst blk ..< fst blk + snd blk}"

definition agree :: "mem \<Rightarrow> mem \<Rightarrow> (usize \<times> usize) set \<Rightarrow> bool" where
  "agree m m' A \<longleftrightarrow> (\<forall>blk \<in> A. \<forall>y \<in> blk_range blk. m' y = m y)"

definition mapped_blk :: "mem \<Rightarrow> usize \<times> usize \<Rightarrow> bool" where
  "mapped_blk m blk \<longleftrightarrow> (\<forall>y \<in> blk_range blk. 8 dvd y \<longrightarrow> m y \<noteq> None)"

definition apart :: "usize \<times> usize \<Rightarrow> (usize \<times> usize) set \<Rightarrow> bool" where
  "apart blk A \<longleftrightarrow> (\<forall>b \<in> A. blk_range blk \<inter> blk_range b = {})"

definition block_ok :: "'x FlexSource \<Rightarrow> usize \<times> usize \<Rightarrow> bool" where
  \<comment> \<open>a block is not null, does not wrap around and is aligned; where the source promises an alignment
    of a machine word or of a granule, so is its length\<close>
  "block_ok S blk \<longleftrightarrow> 0 < fst blk \<and> fst blk + snd blk \<le> USIZE_LIM \<and> src_min_align S dvd fst blk \<and>
     (8 \<le> src_min_align S \<longrightarrow> 8 dvd snd blk) \<and> (GRANULARITY \<le> src_min_align S \<longrightarrow> GRANULARITY dvd snd blk)"

text \<open>\<open>R x m A\<close>: in state \<open>x\<close>, with memory \<open>m\<close>, the blocks \<open>A\<close> are allocated. The
  owner of the blocks may write to them.\<close>

locale flex_source =
  fixes S :: "'x FlexSource" and R :: "'x \<Rightarrow> mem \<Rightarrow> (usize \<times> usize) set \<Rightarrow> bool"
  assumes min_align_law: "is_power_of_two (src_min_align S)"
    and alloc_law: "R x m A \<Longrightarrow> 0 < n \<Longrightarrow> GRANULARITY dvd n \<Longrightarrow> n < USIZE_LIM \<Longrightarrow>
      \<exists>r x' m'. src_alloc S x m n = Some (r, x', m') \<and> agree m m' A \<and>
        (case r of None \<Rightarrow> R x' m' A
         | Some blk \<Rightarrow> n \<le> snd blk \<and> block_ok S blk \<and> mapped_blk m' blk \<and> apart blk A \<and> R x' m' (insert blk A))"
    and grow_law: "R x m A \<Longrightarrow> blk \<in> A \<Longrightarrow> snd blk \<le> n \<Longrightarrow> n < USIZE_LIM \<Longrightarrow>
      \<exists>r x' m'. src_realloc_inplace_grow S x m blk n = Some (r, x', m') \<and> agree m m' A \<and>
        (case r of None \<Rightarrow> R x' m' A
         | Some k \<Rightarrow> src_supports_realloc_inplace_grow S \<and> n \<le> k \<and> block_ok S (fst blk, k) \<and> mapped_blk m' (fst blk, k) \<and>
             apart (fst blk, k) (A - {blk}) \<and> R x' m' (insert (fst blk, k) (A - {blk})))"
    and dealloc_law: "src_supports_dealloc S \<Longrightarrow> R x m A \<Longrightarrow> blk \<in> A \<Longrightarrow>
      \<exists>x' m'. src_dealloc S x m blk = Some (x', m') \<and> agree m m' (A - {blk}) \<and> R x' m' (A - {blk})"
    and write_law: "R x m A \<Longrightarrow> dom m' = dom m \<Longrightarrow> (\<And>y. y \<notin> \<Union>(blk_range ` A) \<Longrightarrow> m' y = m y) \<Longrightarrow> R x m' A"

text \<open>The default methods are a source without memory.\<close>

interpretation no_source: flex_source default_source "\<lambda>x m A. True"
  by unfold_locales (auto simp: default_source_def agree_def is_power_of_two_def)

section \<open>The contract of a global allocator\<close>

text \<open>What the documentation of \<open>GlobalAlloc\<close> promises: \<open>alloc\<close> returns null or a pointer to new memory
  of the layout asked for, which stays until \<open>dealloc\<close> is called with the same layout.\<close>

definition region :: "usize \<times> layout \<Rightarrow> usize \<times> usize" where
  "region x = (fst x, lsize (snd x))"

locale global_allocator =
  fixes G :: "'x GlobalAlloc" and Q :: "'x \<Rightarrow> mem \<Rightarrow> (usize \<times> layout) set \<Rightarrow> bool"
  assumes ga_alloc_law: "Q x m A \<Longrightarrow> layout_ok l \<Longrightarrow> 0 < lsize l \<Longrightarrow>
      \<exists>p x' m'. ga_alloc G x m l = Some (p, x', m') \<and> agree m m' (region ` A) \<and>
        (if p = 0 then Q x' m' A
         else lalign l dvd p \<and> p + lsize l \<le> USIZE_LIM \<and> mapped_blk m' (p, lsize l) \<and> apart (p, lsize l) (region ` A) \<and>
           Q x' m' (insert (p, l) A))"
    and ga_dealloc_law: "Q x m A \<Longrightarrow> (p, l) \<in> A \<Longrightarrow>
      \<exists>x' m'. ga_dealloc G x m p l = Some (x', m') \<and> agree m m' (region ` (A - {(p, l)})) \<and> Q x' m' (A - {(p, l)})"
    and ga_write_law: "Q x m A \<Longrightarrow> dom m' = dom m \<Longrightarrow> (\<And>y. y \<notin> \<Union>(blk_range ` region ` A) \<Longrightarrow> m' y = m y) \<Longrightarrow> Q x m' A"

locale global_alloc_source = global_allocator G Q for G :: "'x GlobalAlloc" and Q :: "'x \<Rightarrow> mem \<Rightarrow> (usize \<times> layout) set \<Rightarrow> bool" +
  fixes al ALIGN :: usize
  assumes align: "GA_ALIGN ALIGN = Some al" "al < USIZE_LIM"
begin

definition with_align :: "usize \<times> usize \<Rightarrow> usize \<times> layout" where
  "with_align blk = (fst blk, \<lparr>lsize = snd blk, lalign = al\<rparr>)"

lemma region_with_align [simp]: "region (with_align blk) = blk" "region ` with_align ` A = A"
  by (simp_all add: region_def with_align_def image_image)

lemma with_align_inj: "with_align a = with_align b \<longleftrightarrow> a = b"
  by (auto simp: with_align_def prod_eq_iff)

lemma align_facts: "is_power_of_two al" "32 \<le> al" "8 dvd al" "32 dvd al"
proof -
  have p: "is_power_of_two al" "32 \<le> al"
    using align(1) is_power_of_two_pow2 [of 5] by (auto simp: GA_ALIGN_def split: if_splits)
  then obtain k where k: "al = 2 ^ k" by (metis is_power_of_two_obtain)
  then have "5 \<le> k" using p(2) power_le_imp_le_exp [of 2 5 k] by simp
  then have d: "(2::nat) ^ 5 dvd 2 ^ k" by (rule le_imp_power_dvd)
  show "is_power_of_two al" "32 \<le> al" by (rule p)+
  show "32 dvd al" "8 dvd al" using d dvd_trans [of 8 32 al] by (simp_all add: k)
qed

end

sublocale global_alloc_source \<subseteq> ga: flex_source "ga_source G al" "\<lambda>x m A. Q x m (with_align ` A)"
proof
  show "is_power_of_two (src_min_align (ga_source G al))" by (simp add: ga_source_def align_facts)
next
  fix x m A n assume q: "Q x m (with_align ` A)" and n: "0 < n" "GRANULARITY dvd n" "n < USIZE_LIM"
  show "\<exists>r x' m'. src_alloc (ga_source G al) x m n = Some (r, x', m') \<and> agree m m' A \<and>
      (case r of None \<Rightarrow> Q x' m' (with_align ` A)
       | Some blk \<Rightarrow> n \<le> snd blk \<and> block_ok (ga_source G al) blk \<and> mapped_blk m' blk \<and> apart blk A \<and> Q x' m' (with_align ` insert blk A))"
  proof (cases "from_size_align n al")
    case None
    then show ?thesis using q by (simp add: ga_source_def ga_source_alloc_def agree_def)
  next
    case (Some l)
    let ?l = "pad_to_align l"
    have l: "l = \<lparr>lsize = n, lalign = al\<rparr>" "layout_ok l" using Some by (auto simp: from_size_align_def Let_def split: if_splits)
    note p = pad_to_align_ok [OF l(2)]
    have "0 < lsize ?l" using p(2) n(1) l(1) by simp
    then obtain a x' m' where g: "ga_alloc G x m ?l = Some (a, x', m')" "agree m m' A" "if a = 0 then Q x' m' (with_align ` A)
        else lalign ?l dvd a \<and> a + lsize ?l \<le> USIZE_LIM \<and> mapped_blk m' (a, lsize ?l) \<and> apart (a, lsize ?l) A \<and> Q x' m' (insert (a, ?l) (with_align ` A))"
      using ga_alloc_law [OF q p(1), unfolded region_with_align] by blast
    have w: "with_align (a, lsize ?l) = (a, ?l)" by (simp add: with_align_def l(1) pad_to_align_def)
    have "block_ok (ga_source G al) (a, lsize ?l)" if "a \<noteq> 0"
      using g(3) that p(3,4) l(1) align_facts dvd_trans [of _ al "lsize ?l"] by (auto simp: block_ok_def ga_source_def)
    then show ?thesis using Some g p(2) l(1) w by (cases "a = 0") (auto simp: ga_source_def ga_source_alloc_def to_ptr_def)
  qed
next
  fix x m A blk n assume "Q x m (with_align ` A)"
  then show "\<exists>r x' m'. src_realloc_inplace_grow (ga_source G al) x m blk n = Some (r, x', m') \<and> agree m m' A \<and>
      (case r of None \<Rightarrow> Q x' m' (with_align ` A)
       | Some k \<Rightarrow> src_supports_realloc_inplace_grow (ga_source G al) \<and> n \<le> k \<and> block_ok (ga_source G al) (fst blk, k) \<and>
           mapped_blk m' (fst blk, k) \<and> apart (fst blk, k) (A - {blk}) \<and> Q x' m' (with_align ` insert (fst blk, k) (A - {blk})))"
    by (simp add: ga_source_def default_source_def agree_def)
next
  fix x m A blk assume q: "Q x m (with_align ` A)" and b: "blk \<in> A"
  have d: "with_align ` A - {with_align blk} = with_align ` (A - {blk})" by (auto simp: with_align_inj)
  have "(fst blk, \<lparr>lsize = snd blk, lalign = al\<rparr>) \<in> with_align ` A" using b by (auto simp: with_align_def)
  from ga_dealloc_law [OF q this] show "\<exists>x' m'. src_dealloc (ga_source G al) x m blk = Some (x', m') \<and> agree m m' (A - {blk}) \<and> Q x' m' (with_align ` (A - {blk}))"
    unfolding d [unfolded with_align_def [of blk]] by (simp add: ga_source_def ga_source_dealloc_def)
next
  fix x m A m' assume "Q x m (with_align ` A)" "dom m' = dom m" "\<And>y. y \<notin> \<Union>(blk_range ` A) \<Longrightarrow> m' y = m y"
  then show "Q x m' (with_align ` A)" using ga_write_law by (metis region_with_align(2))
qed

context global_alloc_source
begin

lemma with_align_source: "flex_source (ga_source G al) (\<lambda>x m A. Q x m (with_align ` A))"
  by (rule ga.flex_source_axioms)

end

section \<open>A concrete global allocator\<close>

text \<open>An allocator that hands out increasing addresses and never reuses them. The cells \<open>D\<close> belong to the program; they lie
  below its memory.\<close>

definition bump :: "usize GlobalAlloc" where
  "bump = \<lparr>
     ga_alloc = (\<lambda>x m l. let p = round_up (lalign l) x in
       if p + lsize l < 2 ^ 40 then Some (p, p + lsize l, \<lambda>y. if p \<le> y \<and> y < p + lsize l then Some 0 else m y) else Some (0, x, m)),
     ga_dealloc = (\<lambda>x m p l. Some (x, m))\<rparr>"

definition bump_ok :: "usize set \<Rightarrow> usize \<Rightarrow> mem \<Rightarrow> (usize \<times> layout) set \<Rightarrow> bool" where
  "bump_ok D x m A \<longleftrightarrow> 4096 \<le> x \<and> (\<forall>a \<in> A. 4096 \<le> fst a \<and> fst a + lsize (snd a) \<le> x) \<and> (\<forall>y \<in> D. y < 4096 \<and> m y \<noteq> None)"

interpretation bump: global_allocator bump "bump_ok D" for D
proof
  fix x m A l assume q: "bump_ok D x m A" and l: "layout_ok l" "0 < lsize l"
  have al: "0 < lalign l" using l by (simp add: layout_ok_def is_power_of_two_def)
  let ?p = "round_up (lalign l) x"
  let ?m = "\<lambda>y. if ?p \<le> y \<and> y < ?p + lsize l then Some 0 else m y"
  have p: "x \<le> ?p" "lalign l dvd ?p" using al by (simp_all add: round_up_ge)
  have below: "fst a + lsize (snd a) \<le> x" if "a \<in> A" for a using q that by (simp add: bump_ok_def)
  have "agree m ?m (region ` A)" using below p by (fastforce simp: agree_def region_def blk_range_def)
  moreover have "apart (?p, lsize l) (region ` A)" using below p by (fastforce simp: apart_def region_def blk_range_def)
  moreover have "bump_ok D (?p + lsize l) ?m (insert (?p, l) A)" using q p below by (fastforce simp: bump_ok_def)
  ultimately show "\<exists>p x' m'. ga_alloc bump x m l = Some (p, x', m') \<and> agree m m' (region ` A) \<and>
      (if p = 0 then bump_ok D x' m' A else lalign l dvd p \<and> p + lsize l \<le> USIZE_LIM \<and> mapped_blk m' (p, lsize l) \<and>
        apart (p, lsize l) (region ` A) \<and> bump_ok D x' m' (insert (p, l) A))"
    using q p by (auto simp: bump_def Let_def bump_ok_def agree_def USIZE_LIM_def mapped_blk_def blk_range_def)
next
  fix x m A p l assume "bump_ok D x m A" "(p, l) \<in> A"
  then show "\<exists>x' m'. ga_dealloc bump x m p l = Some (x', m') \<and> agree m m' (region ` (A - {(p, l)})) \<and> bump_ok D x' m' (A - {(p, l)})"
    by (simp add: bump_def agree_def bump_ok_def)
next
  fix x and m m' :: mem and A assume "bump_ok D x m A" "dom m' = dom m"
  then show "bump_ok D x m' A" unfolding bump_ok_def by (metis domIff)
qed

interpretation bump_source: global_alloc_source bump "bump_ok D" 32 32 for D
  by unfold_locales (use is_power_of_two_pow2 [of 5] in \<open>simp_all add: GA_ALIGN_def USIZE_LIM_def\<close>)

text \<open>C19: \<open>GlobalAllocAsFlexSource\<close> over every \<open>GlobalAlloc\<close> that keeps its contract keeps the contract of \<open>FlexSource\<close>: the
  blocks are the allocations of the wrapped allocator, each with the length padded to the alignment, and \<open>dealloc\<close>
  rebuilds the layout with which each was made.\<close>

theorem GlobalAllocAsFlexSource_is_source:
  assumes "global_allocator G Q" and "GA_ALIGN ALIGN = Some al" and "al < USIZE_LIM"
  shows "flex_source (ga_source G al) (\<lambda>x m A. Q x m ((\<lambda>blk. (fst blk, \<lparr>lsize = snd blk, lalign = al\<rparr>)) ` A))"
proof -
  have g: "global_alloc_source G Q al ALIGN" using assms by (simp add: global_alloc_source_def global_alloc_source_axioms_def)
  have "global_alloc_source.with_align al = (\<lambda>blk. (fst blk, \<lparr>lsize = snd blk, lalign = al\<rparr>))"
    using global_alloc_source.with_align_def [OF g] by (rule ext)
  with global_alloc_source.with_align_source [OF g] show ?thesis by simp
qed

theorem GlobalAllocAsFlexSource_is_source_witness:
  "flex_source (ga_source bump 64) (\<lambda>x m A. bump_ok {} x m ((\<lambda>blk. (fst blk, \<lparr>lsize = snd blk, lalign = 64\<rparr>)) ` A)) \<and> bump_ok {} 4096 (\<lambda>_. None) {}"
  using GlobalAllocAsFlexSource_is_source [OF bump.global_allocator_axioms [of "{}"], of 64 64] is_power_of_two_pow2 [of 6]
  by (simp add: GA_ALIGN_def USIZE_LIM_def bump_ok_def)

end
