(* ===== verification/Flex.thy ===== *)
theory Flex
  imports Flex_Source
begin

text \<open>
  \<open>FlexTlsf\<close> (crates/rlsf/src/flex.rs): an allocator that acquires pools from a source when an
  allocation does not fit. The state keeps the pool that can still grow; when the source supports
  deallocation, a footer at the end of each block acquired links it to the previous one, so that
  \<open>drop\<close> can return all of them. The functions return \<open>None\<close> for a panic or an access to
  memory that is not mapped.
\<close>

unbundle bit_operations_syntax

section \<open>State\<close>

record flex_pool =
  alloc_start :: usize
  alloc_len :: usize
  pool_len :: usize

record ('x, 'f, 's) flex =
  growable_pool :: "flex_pool option"
  source :: 'x
  tlsf_of :: "('f, 's) tlsf"

definition flex_new :: "cfg \<Rightarrow> 'x \<Rightarrow> ('x, 'f::len word, 's::len word) flex" where
  "flex_new c src = \<lparr>growable_pool = None, source = src, tlsf_of = tlsf_new c\<rparr>"

definition source_ref :: "('x, 'f::len word, 's::len word) flex \<Rightarrow> 'x" where
  "source_ref f = source f"

definition source_mut_unchecked :: "('x \<Rightarrow> 'x) \<Rightarrow> ('x, 'f::len word, 's::len word) flex \<Rightarrow> ('x, 'f word, 's word) flex" where
  \<comment> \<open>what the borrower does with the mutable reference is the function \<open>g\<close>\<close>
  "source_mut_unchecked g f = f\<lparr>source := g (source f)\<rparr>"

section \<open>Pool footers\<close>

definition SIZE_OF_PoolFtr :: usize where
  "SIZE_OF_PoolFtr = 16"

definition ALIGN_OF_PoolFtr :: usize where
  "ALIGN_OF_PoolFtr = 8"

definition get_for_alloc :: "usize \<times> usize \<Rightarrow> usize \<Rightarrow> usize" where
  "get_for_alloc alloc alloc_align = (
     let alloc_end = nonnull_slice_end alloc;
         ptr = wrapping_sub alloc_end SIZE_OF_PoolFtr
     in if alloc_align < ALIGN_OF_PoolFtr then ptr AND not_usize (ALIGN_OF_PoolFtr - 1) else ptr)"

text \<open>A footer is one \<open>Option<NonNull<[u8]>>\<close>: a pointer, null for \<open>None\<close>, and a length, which
  \<open>None\<close> does not have.\<close>

definition read_prev_alloc :: "mem \<Rightarrow> usize \<Rightarrow> (usize \<times> usize) option option" where
  "read_prev_alloc m ftr = do {
     p \<leftarrow> load m ftr;
     n \<leftarrow> load m (ftr + 8);
     Some (map_option (\<lambda>p. (p, n)) (to_ptr p))
   }"

definition write_prev_alloc :: "mem \<Rightarrow> usize \<Rightarrow> (usize \<times> usize) option \<Rightarrow> mem option" where
  "write_prev_alloc m ftr prev = (case prev of
     None \<Rightarrow> store m ftr 0
   | Some blk \<Rightarrow> do {
       m \<leftarrow> store m ftr (fst blk);
       store m (ftr + 8) (snd blk)
     })"

definition move_ftr :: "mem \<Rightarrow> usize \<Rightarrow> usize \<Rightarrow> mem option" where
  "move_ftr m old_ftr new_ftr = do {
     p \<leftarrow> load m old_ftr;
     n \<leftarrow> load m (old_ftr + 8);
     m \<leftarrow> store m new_ftr p;
     store m (new_ftr + 8) n
   }"

section \<open>Acquiring memory\<close>

definition grow_pool ::
  "cfg \<Rightarrow> 'x FlexSource \<Rightarrow> ('x, 'f::len word, 's::len word) flex \<Rightarrow> mem \<Rightarrow> flex_pool \<Rightarrow> usize \<Rightarrow>
   (bool option \<times> ('x, 'f word, 's word) flex \<times> mem) option" where
  \<comment> \<open>the attempt to extend the growable pool: \<open>Some b\<close> when the function returns, \<open>b\<close> telling
    whether with \<open>Some(())\<close>, and \<open>None\<close> when it goes on to a new allocation\<close>
  "grow_pool c S f m g extra_bytes_well_aligned = (
     case checked_add (pool_len g) extra_bytes_well_aligned of
       None \<Rightarrow> Some (Some False, f, m)
     | Some new_pool_len_desired \<Rightarrow> do {
         debug_assert (alloc_len g \<le> new_pool_len_desired);
         (r, src, m) \<leftarrow> src_realloc_inplace_grow S (source f) m (nonnull_slice_from_raw_parts (alloc_start g) (alloc_len g)) new_pool_len_desired;
         let f = f\<lparr>source := src\<rparr>;
         case r of
           Some new_alloc_len \<Rightarrow> do {
             m \<leftarrow> (if src_supports_dealloc S
               then move_ftr m (get_for_alloc (nonnull_slice_from_raw_parts (alloc_start g) (alloc_len g)) (src_min_align S))
                 (get_for_alloc (nonnull_slice_from_raw_parts (alloc_start g) new_alloc_len) (src_min_align S))
               else Some m);
             len \<leftarrow> sub_usize new_alloc_len (pool_len g);
             (num_appended_len, t, m) \<leftarrow>
               append_free_block_ptr c (tlsf_of f) m (nonnull_slice_from_raw_parts (wrapping_add (alloc_start g) (pool_len g)) len);
             new_pool_len \<leftarrow> add_usize (pool_len g) num_appended_len;
             d \<leftarrow> sub_usize new_pool_len new_alloc_len;
             debug_assert (d < GRANULARITY * 2);
             Some (Some True, f\<lparr>tlsf_of := t, growable_pool := Some \<lparr>alloc_start = alloc_start g,
               alloc_len = new_alloc_len, pool_len = new_pool_len\<rparr>\<rparr>, m)
           }
         | None \<Rightarrow>
             if src_is_contiguous_growable S then Some (Some False, f, m) else Some (None, f, m)
       })"

definition new_pool ::
  "cfg \<Rightarrow> 'x FlexSource \<Rightarrow> ('x, 'f::len word, 's::len word) flex \<Rightarrow> mem \<Rightarrow> usize \<Rightarrow>
   (bool \<times> ('x, 'f word, 's word) flex \<times> mem) option" where
  \<comment> \<open>the brand new allocation\<close>
  "new_pool c S f m extra_bytes_well_aligned = (
     case (if src_min_align S < GRANULARITY then checked_add extra_bytes_well_aligned GRANULARITY
           else Some extra_bytes_well_aligned) of
       None \<Rightarrow> Some (False, f, m)
     | Some extra_bytes \<Rightarrow> do {
         (r, src, m) \<leftarrow> src_alloc S (source f) m extra_bytes;
         let f = f\<lparr>source := src\<rparr>;
         case r of
           None \<Rightarrow> Some (False, f, m)
         | Some alloc \<Rightarrow> do {
             (r, t, m) \<leftarrow> (if GRANULARITY \<le> src_min_align S
               then insert_free_block_ptr_aligned c (tlsf_of f) m alloc
               else insert_free_block_ptr c (tlsf_of f) m alloc);
             pool_len \<leftarrow> r;
             m \<leftarrow> (if src_supports_dealloc S
               then write_prev_alloc m (get_for_alloc alloc (src_min_align S))
                 (map_option (\<lambda>p. nonnull_slice_from_raw_parts (alloc_start p) (alloc_len p)) (growable_pool f))
               else Some m);
             Some (True, f\<lparr>tlsf_of := t, growable_pool :=
               if use_growable_pool S
               then Some \<lparr>alloc_start = nonnull_slice_start alloc, alloc_len = nonnull_slice_len alloc, pool_len = pool_len\<rparr>
               else growable_pool f\<rparr>, m)
           }
       })"

definition increase_pool_to_contain_allocation ::
  "cfg \<Rightarrow> 'x FlexSource \<Rightarrow> ('x, 'f::len word, 's::len word) flex \<Rightarrow> mem \<Rightarrow> layout \<Rightarrow>
   (bool \<times> ('x, 'f word, 's word) flex \<times> mem) option" where
  "increase_pool_to_contain_allocation c S f m l = do {
     r \<leftarrow> pool_size_to_contain_allocation c l;
     case r of
       None \<Rightarrow> Some (False, f, m)
     | Some extra_bytes_well_aligned \<Rightarrow> do {
         debug_assert (GRANULARITY * 2 \<le> extra_bytes_well_aligned);
         (ret, f, m) \<leftarrow> (case (if use_growable_pool S then growable_pool f else None) of
             Some g \<Rightarrow> grow_pool c S f m g extra_bytes_well_aligned
           | None \<Rightarrow> Some (None, f, m));
         case ret of
           Some b \<Rightarrow> Some (b, f, m)
         | None \<Rightarrow> new_pool c S f m extra_bytes_well_aligned
       }
   }"

section \<open>Allocation\<close>

definition flex_allocate ::
  "cfg \<Rightarrow> 'x FlexSource \<Rightarrow> ('x, 'f::len word, 's::len word) flex \<Rightarrow> mem \<Rightarrow> layout \<Rightarrow>
   (usize option \<times> ('x, 'f word, 's word) flex \<times> mem) option" where
  "flex_allocate c S f m l = do {
     (r, t, m) \<leftarrow> allocate c (tlsf_of f) m l;
     let f = f\<lparr>tlsf_of := t\<rparr>;
     case r of
       Some x \<Rightarrow> Some (Some x, f, m)
     | None \<Rightarrow> do {
         (b, f, m) \<leftarrow> increase_pool_to_contain_allocation c S f m l;
         if \<not> b then Some (None, f, m)
         else do {
           (r, t, m) \<leftarrow> allocate c (tlsf_of f) m l;
           debug_assert (r \<noteq> None);
           Some (r, f\<lparr>tlsf_of := t\<rparr>, m)
         }
       }
   }"

definition flex_deallocate ::
  "cfg \<Rightarrow> ('x, 'f::len word, 's::len word) flex \<Rightarrow> mem \<Rightarrow> usize \<Rightarrow> usize \<Rightarrow>
   (('x, 'f word, 's word) flex \<times> mem) option" where
  "flex_deallocate c f m ptr al = do {
     (t, m) \<leftarrow> deallocate c (tlsf_of f) m ptr al;
     Some (f\<lparr>tlsf_of := t\<rparr>, m)
   }"

definition flex_deallocate_unknown_align ::
  "cfg \<Rightarrow> ('x, 'f::len word, 's::len word) flex \<Rightarrow> mem \<Rightarrow> usize \<Rightarrow>
   (('x, 'f word, 's word) flex \<times> mem) option" where
  "flex_deallocate_unknown_align c f m ptr = do {
     (t, m) \<leftarrow> deallocate_unknown_align c (tlsf_of f) m ptr;
     Some (f\<lparr>tlsf_of := t\<rparr>, m)
   }"

definition flex_allocation_usable_size :: "mem \<Rightarrow> usize \<Rightarrow> usize option" where
  "flex_allocation_usable_size m ptr = size_of_allocation_unknown_align m ptr"

definition flex_size_of_allocation_unknown_align :: "mem \<Rightarrow> usize \<Rightarrow> usize option" where
  "flex_size_of_allocation_unknown_align m ptr = size_of_allocation_unknown_align m ptr"

definition flex_reallocate ::
  "cfg \<Rightarrow> 'x FlexSource \<Rightarrow> ('x, 'f::len word, 's::len word) flex \<Rightarrow> mem \<Rightarrow> usize \<Rightarrow> layout \<Rightarrow>
   (usize option \<times> ('x, 'f word, 's word) flex \<times> mem) option" where
  "flex_reallocate c S f m ptr new_layout = do {
     old_size \<leftarrow> size_of_allocation m ptr (lalign new_layout);
     (r, t, m) \<leftarrow> reallocate c (tlsf_of f) m ptr new_layout;
     let f = f\<lparr>tlsf_of := t\<rparr>;
     case r of
       Some x \<Rightarrow> Some (Some x, f, m)
     | None \<Rightarrow> do {
         (r, f, m) \<leftarrow> flex_allocate c S f m new_layout;
         case r of
           None \<Rightarrow> Some (None, f, m)
         | Some new_ptr \<Rightarrow> do {
             debug_assert (old_size \<le> lsize new_layout);
             m \<leftarrow> copy_nonoverlapping m ptr new_ptr old_size;
             (f, m) \<leftarrow> flex_deallocate c f m ptr (lalign new_layout);
             Some (Some new_ptr, f, m)
           }
       }
   }"

section \<open>Drop\<close>

partial_function (option) drop_loop ::
  "'x FlexSource \<Rightarrow> 'x \<Rightarrow> mem \<Rightarrow> (usize \<times> usize) option \<Rightarrow> ('x \<times> mem) option" where
  "drop_loop S x m cur_alloc_or_none = (case cur_alloc_or_none of
     None \<Rightarrow> Some (x, m)
   | Some cur_alloc \<Rightarrow> do {
       prev_alloc \<leftarrow> read_prev_alloc m (get_for_alloc cur_alloc (src_min_align S));
       (x, m) \<leftarrow> src_dealloc S x m cur_alloc;
       drop_loop S x m prev_alloc
     })"

definition flex_drop :: "'x FlexSource \<Rightarrow> ('x, 'f::len word, 's::len word) flex \<Rightarrow> mem \<Rightarrow> ('x \<times> mem) option" where
  "flex_drop S f m = (if src_supports_dealloc S then do {
       debug_assert (use_growable_pool S);
       drop_loop S (source f) m (map_option (\<lambda>p. nonnull_slice_from_raw_parts (alloc_start p) (alloc_len p)) (growable_pool f))
     }
     else Some (source f, m))"

end
