(* ===== verification/Flex_Spec.thy ===== *)
theory Flex_Spec
  imports Flex
begin

text \<open>
  The correctness of \<open>FlexTlsf\<close> over any source that keeps its contract. The invariant ties the
  pools to the list of blocks acquired, newest first: the pools lie inside them, the growable pool
  ends where the next extension has to start, and the footers form the list \<open>drop\<close> walks along.
\<close>

section \<open>Sizes of new pools\<close>

lemma pool_size_total:
  assumes L: "layout_ok l" and c: "cfg_ok c"
  obtains "pool_size_to_contain_allocation c l = Some None"
  | n where "pool_size_to_contain_allocation c l = Some (Some n)" and "32 dvd n" and "64 \<le> n" and "n < USIZE_LIM"
    and "\<forall>mx. MAX_POOL_SIZE c = Some mx \<longrightarrow> n \<le> mx"
proof -
  have ev: "pool_size_to_contain_allocation c l =
      map_ceil_and_unmap c (search_size l) \<bind>
        (\<lambda>r. case r of None \<Rightarrow> Some None | Some y \<Rightarrow> Some (checked_add y GRANULARITY))"
    by (simp only: pool_size_to_contain_allocation_def layout_sizes(1-4) [OF L] run_simps)
  note bs = layout_sizes(5) [OF L]
  obtain r where r: "map_ceil_and_unmap c (search_size l) = Some r" using map_ceil_and_unmap_list_min [OF c bs] by blast
  show thesis
  proof (cases "r \<bind> (\<lambda>y. checked_add y 32)")
    case None
    then show thesis using ev r that(1) by (auto split: option.splits)
  next
    case (Some n)
    then obtain y where y: "r = Some y" "n = y + 32" "n < USIZE_LIM" by (auto simp: checked_add_def bind_eq_Some_conv split: if_splits)
    have b: "32 dvd y" "32 \<le> y" "\<exists>a. map_floor c y = Some (Some a)" "block_size y"
      using map_ceil_and_unmap_floor [OF c bs r [unfolded y(1)]] by (auto simp: block_size_def)
    then have "y < 2 ^ (FLLEN c + 5)" using map_floor_None_iff [OF c b(4)] by (metis not_less option.distinct(1) option.inject)
    moreover have "32 dvd (2::nat) ^ (FLLEN c + 5)" by (simp add: power_add)
    ultimately have "y + 32 \<le> 2 ^ (FLLEN c + 5)" using b(1) by (intro dvd_less_add_le)
    then have "\<forall>mx. MAX_POOL_SIZE c = Some mx \<longrightarrow> n \<le> mx"
      by (auto simp: MAX_POOL_SIZE_def y(2) add.commute Let_def split: if_splits)
    moreover have "pool_size_to_contain_allocation c l = Some (Some n)" using ev r Some y(1) by simp
    ultimately show thesis using that(2) b(1,2) y(2,3) by simp
  qed
qed

section \<open>Frames\<close>

text \<open>The allocator does not depend on memory outside the pools and on the unused ends of the pools.\<close>

lemma entry_not_tail:
  assumes ok: "pools_ok c ps" and e: "(b, z, k, q) \<in> set (all_entries ps)" and x: "b \<le> x" "x < b + z" "k = Sentinel \<longrightarrow> x < b + 16"
  shows "x \<notin> tail_space ps"
proof
  assume "x \<in> tail_space ps"
  then obtain d r where d: "(d, 32, Sentinel, r) \<in> set (all_entries ps)" "d + 16 \<le> x" "x < d + 32" by (rule tail_entry [OF ok])
  then have "d = b \<and> k = Sentinel" using entries_disjoint [OF ok d(1) e] x(1,2) by auto
  then show False using d(2) x(3) by simp
qed

lemma tlsf_inv_frame:
  assumes I: "tlsf_inv c t m ps" and same: "\<And>x. x \<in> pool_bytes ps \<Longrightarrow> x \<notin> tail_space ps \<Longrightarrow> m' x = m x"
    and dm: "\<And>x. x \<in> pool_bytes ps \<Longrightarrow> m x \<noteq> None \<Longrightarrow> m' x \<noteq> None"
  shows "tlsf_inv c t m' ps"
proof -
  note ok = inv_pools_ok [OF I]
  have ent: "m' x = m x" if e: "(b, z, k, q) \<in> set (all_entries ps)" and x: "b \<le> x" "x < b + z" "k = Sentinel \<longrightarrow> x < b + 16" for b z k q x
    by (rule same [OF entry_pool_bytes [OF ok e x(1,2)] entry_not_tail [OF ok e x]])
  have "hdr m' (b, z, k, q)" if e: "(b, z, k, q) \<in> set (all_entries ps)" for b z k q
  proof -
    note h = inv_hdr [OF I e] and f = entry_facts [OF ok e]
    have "m' (b + 8) = Some (of_ptr q)" "m' b = m b" using h ent [OF e, of "b + 8"] ent [OF e, of b] f by auto
    moreover have "m' x = m x" if "x \<in> protected (b, z, k, q)" "k \<noteq> Sentinel" for x
      using ent [OF e, of x] protected_in_block [of z b k q] f that by (cases k) auto
    ultimately show ?thesis using h f hdr_frame [OF h, of m' q] by (cases "k = Sentinel") auto
  qed
  moreover have "fl_inv c t m' (all_frees c ps)"
  proof (rule fls.frame)
    show "fl_inv c t m (all_frees c ps)" using I by (simp add: tlsf_inv_def)
    fix x assume "x \<in> link_cells (dom (all_frees c ps))"
    then obtain b z q where "(b, z, Free, q) \<in> set (all_entries ps)" "b \<le> x" "x < b + z" by (rule link_cell_entry [OF ok])
    then show "m' x = m x" by (rule ent) simp
  qed
  moreover have "pools_mapped m' ps" using I dm by (fastforce simp: tlsf_inv_def pools_mapped_def pool_bytes_def)
  ultimately show ?thesis using I by (auto simp: tlsf_inv_def list_all_iff)
qed

lemma agree_used_kept:
  assumes I: "tlsf_inv c t m ps" and "\<And>x. x \<in> pool_bytes ps \<Longrightarrow> x \<notin> tail_space ps \<Longrightarrow> m' x = m x"
  shows "used_kept m m' ps ps"
  unfolding used_kept_def
proof (intro allI impI conjI)
  fix b z p al n q x assume e: "(b, z, Used p al n, q) \<in> set (all_entries ps)"
  then show "\<exists>q. (b, z, Used p al n, q) \<in> set (all_entries ps)" by blast
  assume "p \<le> x \<and> x < b + z"
  then show "m' x = m x"
    using entry_pool_bytes [OF inv_pools_ok [OF I] e, of x] entry_not_tail [OF inv_pools_ok [OF I] e, of x]
      used_entry(11) [OF I e] assms(2) by simp
qed

section \<open>The invariant\<close>

definition ftr_addr :: "'x FlexSource \<Rightarrow> usize \<times> usize \<Rightarrow> usize" where
  "ftr_addr S blk = get_for_alloc blk (src_min_align S)"

definition ftr_slot :: "'x FlexSource \<Rightarrow> pool list \<Rightarrow> usize \<times> usize \<Rightarrow> bool" where
  \<comment> \<open>the footer lies in the block, in memory the pools do not use\<close>
  "ftr_slot S ps blk \<longleftrightarrow> (let a = ftr_addr S blk in 8 dvd a \<and> fst blk \<le> a \<and> a + 16 \<le> fst blk + snd blk \<and>
     (\<forall>y. a \<le> y \<and> y < a + 16 \<longrightarrow> y \<notin> pool_bytes ps \<or> y \<in> tail_space ps))"

fun footers :: "'x FlexSource \<Rightarrow> mem \<Rightarrow> pool list \<Rightarrow> (usize \<times> usize) list \<Rightarrow> bool" where
  "footers S m ps [] \<longleftrightarrow> True"
| "footers S m ps (blk # As) \<longleftrightarrow> ftr_slot S ps blk \<and>
     read_prev_alloc m (ftr_addr S blk) = Some (case As of [] \<Rightarrow> None | b # _ \<Rightarrow> Some b) \<and> footers S m ps As"

fun growable_ok :: "pool list \<Rightarrow> (usize \<times> usize) list \<Rightarrow> flex_pool option \<Rightarrow> bool" where
  "growable_ok ps As None \<longleftrightarrow> As = []"
| "growable_ok ps As (Some g) \<longleftrightarrow> (\<exists>Bs. As = (alloc_start g, alloc_len g) # Bs) \<and> 64 \<le> pool_len g \<and>
     pool_len g \<le> alloc_len g \<and> alloc_len g < pool_len g + 64 \<and> alloc_start g + pool_len g \<in> pool_ends ps \<and>
     {alloc_start g + pool_len g ..< alloc_start g + alloc_len g} \<inter> pool_bytes ps = {}"

definition blocks_ok :: "'x FlexSource \<Rightarrow> mem \<Rightarrow> (usize \<times> usize) list \<Rightarrow> bool" where
  "blocks_ok S m As \<longleftrightarrow> distinct As \<and>
     (\<forall>blk \<in> set As. block_ok S blk \<and> mapped_blk m blk \<and> apart blk (set As - {blk}))"

definition flex_inv ::
  "cfg \<Rightarrow> 'x FlexSource \<Rightarrow> ('x \<Rightarrow> mem \<Rightarrow> (usize \<times> usize) set \<Rightarrow> bool) \<Rightarrow> ('x, 'f::len word, 's::len word) flex \<Rightarrow> mem \<Rightarrow>
   pool list \<Rightarrow> (usize \<times> usize) list \<Rightarrow> bool" where
  "flex_inv c S R f m ps As \<longleftrightarrow> tlsf_inv c (tlsf_of f) m ps \<and> R (source f) m (set As) \<and> blocks_ok S m As \<and>
     pool_bytes ps \<subseteq> \<Union>(blk_range ` set As) \<and>
     (if use_growable_pool S then growable_ok ps As (growable_pool f) else growable_pool f = None) \<and>
     (src_supports_dealloc S \<longrightarrow> footers S m ps As)"

text \<open>A caller of \<open>source_mut_unchecked\<close> that leaves the blocks acquired from the source alone keeps the
  invariant.\<close>

lemma source_mut_unchecked_inv:
  "flex_inv c S R f m ps As \<Longrightarrow> R (g (source_ref f)) m (set As) \<Longrightarrow> flex_inv c S R (source_mut_unchecked g f) m ps As"
  by (simp add: flex_inv_def source_mut_unchecked_def source_ref_def)

lemma footers_frame:
  assumes "footers S m ps As" and "\<And>blk y. blk \<in> set As \<Longrightarrow> y \<in> blk_range blk \<Longrightarrow> y \<notin> pool_bytes ps \<or> y \<in> tail_space ps \<Longrightarrow>
      m' y = m y \<and> (y \<notin> pool_bytes ps' \<or> y \<in> tail_space ps')"
  shows "footers S m' ps' As"
  using assms
proof (induction As)
  case (Cons blk As)
  let ?a = "ftr_addr S blk"
  have slot: "ftr_slot S ps blk" using Cons.prems(1) by simp
  have y: "m' y = m y \<and> (y \<notin> pool_bytes ps' \<or> y \<in> tail_space ps')" if "?a \<le> y" "y < ?a + 16" for y
    using slot that by (intro Cons.prems(2) [of blk]) (auto simp: ftr_slot_def blk_range_def Let_def)
  have "read_prev_alloc m' ?a = read_prev_alloc m ?a" using y by (simp add: read_prev_alloc_def load_def)
  then show ?case using Cons slot y by (auto simp: ftr_slot_def Let_def)
qed simp

lemma dvd_le_down: "k dvd x \<Longrightarrow> x \<le> y \<Longrightarrow> x \<le> y - y mod (k::nat)"
  by (metis div_le_mono dvd_mult_div_cancel minus_mod_eq_mult_div mult_le_mono2)

lemma spans_views:
  assumes "spans ps' = spans ps"
  shows "pool_bytes ps' = pool_bytes ps" "tail_space ps' = tail_space ps" "pool_ends ps' = pool_ends ps"
  using assms by (simp_all add: pool_bytes_spans tail_space_def pool_ends_def)

lemma growable_ok_spans: "pool_ends ps' = pool_ends ps \<Longrightarrow> pool_bytes ps' = pool_bytes ps \<Longrightarrow> growable_ok ps' As g = growable_ok ps As g"
  by (cases g) simp_all

lemma mapped_dom: "mapped_blk m blk \<Longrightarrow> dom m' = dom m \<Longrightarrow> mapped_blk m' blk"
  by (auto simp: mapped_blk_def dom_def set_eq_iff)

lemma blocks_ok_dom: "blocks_ok S m As \<Longrightarrow> dom m' = dom m \<Longrightarrow> blocks_ok S m' As"
  using mapped_dom unfolding blocks_ok_def by blast

text \<open>What an extension of the memory leaves unchanged for the clients, and what it promises the allocation
  of which \<open>n\<close> is the pool size.\<close>

definition increased ::
  "cfg \<Rightarrow> 'x FlexSource \<Rightarrow> ('x \<Rightarrow> mem \<Rightarrow> (usize \<times> usize) set \<Rightarrow> bool) \<Rightarrow> usize \<Rightarrow> mem \<Rightarrow> pool list \<Rightarrow> bool \<Rightarrow>
   ('x, 'f::len word, 's::len word) flex \<Rightarrow> mem \<Rightarrow> bool" where
  "increased c S R n m ps b f' m' \<longleftrightarrow> (\<exists>ps' As'. flex_inv c S R f' m' ps' As' \<and> live ps' = live ps \<and> used_kept m m' ps ps' \<and>
     (b \<longrightarrow> (\<exists>b z q. (b, z, Free, q) \<in> set (all_entries ps') \<and> n \<le> z + 32)))"

text \<open>The debug assertion after an extension subtracts the length of the block from that of the pool, which is
  not greater. It holds exactly when the whole extension becomes part of the pool; otherwise the subtraction
  underflows and panics.\<close>

definition grow_underflows :: "cfg \<Rightarrow> 'x FlexSource \<Rightarrow> 'x \<Rightarrow> mem \<Rightarrow> flex_pool \<Rightarrow> usize \<Rightarrow> bool" where
  "grow_underflows c S x m g n \<longleftrightarrow> pool_len g + n < USIZE_LIM \<and>
     (case src_realloc_inplace_grow S x m (alloc_start g, alloc_len g) (pool_len g + n) of
        Some (Some k, _) \<Rightarrow> appended c (k - pool_len g) \<noteq> k - pool_len g
      | _ \<Rightarrow> False)"

definition increase_underflows :: "cfg \<Rightarrow> 'x FlexSource \<Rightarrow> ('x, 'f::len word, 's::len word) flex \<Rightarrow> mem \<Rightarrow> layout \<Rightarrow> bool" where
  "increase_underflows c S f m l \<longleftrightarrow> (case pool_size_to_contain_allocation c l of
     Some (Some n) \<Rightarrow> (case (if use_growable_pool S then growable_pool f else None) of
         None \<Rightarrow> False
       | Some g \<Rightarrow> grow_underflows c S (source f) m g n)
   | _ \<Rightarrow> False)"

context flex_source
begin

lemma min_align_pow: obtains k where "src_min_align S = 2 ^ k"
  using min_align_law by (rule is_power_of_two_obtain)

lemma min_align_dvd:
  assumes "block_ok S blk"
  shows "8 \<le> src_min_align S \<Longrightarrow> 8 dvd fst blk" and "32 \<le> src_min_align S \<Longrightarrow> 32 dvd fst blk"
proof -
  obtain k where k: "src_min_align S = 2 ^ k" by (rule min_align_pow)
  have d: "2 ^ k dvd fst blk" using assms by (simp add: block_ok_def k)
  show "8 dvd fst blk" if "8 \<le> src_min_align S"
  proof -
    have "(2::nat) ^ 3 dvd 2 ^ k" using that k by (intro le_imp_power_dvd) (simp add: power_le_imp_le_exp [of 2 3 k])
    with d show ?thesis by (auto intro: dvd_trans)
  qed
  show "32 dvd fst blk" if "32 \<le> src_min_align S"
  proof -
    have "(2::nat) ^ 5 dvd 2 ^ k" using that k by (intro le_imp_power_dvd) (simp add: power_le_imp_le_exp [of 2 5 k])
    with d show ?thesis by (auto intro: dvd_trans)
  qed
qed

text \<open>A step of the inner allocator that stays within the pools keeps the invariant.\<close>

lemma inner_step:
  assumes F: "flex_inv c S R f m ps As" and t: "tlsf_inv c t' m' ps'" and sp: "spans ps' = spans ps" and un: "untouched m m' ps"
  shows "flex_inv c S R (f\<lparr>tlsf_of := t'\<rparr>) m' ps' As"
proof -
  note sv = spans_views [OF sp]
  have R: "R (source f) m (set As)" and B: "blocks_ok S m As" and sub: "pool_bytes ps \<subseteq> \<Union>(blk_range ` set As)"
    using F by (simp_all add: flex_inv_def)
  have dm: "dom m' = dom m" and same: "\<And>x. x \<notin> pool_bytes ps \<or> x \<in> tail_space ps \<Longrightarrow> m' x = m x"
    using un unfolding untouched_def by blast+
  have "R (source f) m' (set As)" by (rule write_law [OF R dm]) (use same sub in blast)
  moreover have "footers S m' ps' As" if "src_supports_dealloc S"
    by (rule footers_frame [of S m ps As]) (use F that same in \<open>simp_all add: flex_inv_def sv\<close>)
  ultimately show ?thesis
    using F t sub blocks_ok_dom [OF B dm] unfolding flex_inv_def by (simp add: sv(1) growable_ok_spans [OF sv(3,1)])
qed

text \<open>Where the footer of a block lies.\<close>

lemma ftr_addr_facts:
  assumes b: "block_ok S blk" and n: "16 \<le> n" "n \<le> snd blk" "32 dvd fst blk + n"
  shows "8 dvd ftr_addr S blk" "fst blk + n - 16 \<le> ftr_addr S blk" "ftr_addr S blk + 16 \<le> fst blk + snd blk"
proof -
  let ?e = "fst blk + snd blk"
  have e: "0 < fst blk" "?e \<le> USIZE_LIM" "16 \<le> ?e" using b n by (simp_all add: block_ok_def)
  have ptr: "wrapping_sub (nonnull_slice_end blk) SIZE_OF_PoolFtr = ?e - 16"
  proof (cases "?e = USIZE_LIM")
    case True
    then show ?thesis by (simp add: nonnull_slice_end_def wrapping_add_def wrapping_sub_def SIZE_OF_PoolFtr_def USIZE_LIM_def)
  next
    case False
    then show ?thesis using e by (simp add: nonnull_slice_end_def SIZE_OF_PoolFtr_def wrapping_add_exact wrapping_sub_exact)
  qed
  have d: "8 dvd fst blk + n - 16" using n(3) by (simp add: dvd_diff_nat dvd_trans [of 8 32])
  show "8 dvd ftr_addr S blk" "fst blk + n - 16 \<le> ftr_addr S blk" "ftr_addr S blk + 16 \<le> fst blk + snd blk"
  proof (atomize (full), cases "src_min_align S < 8")
    case True
    then have a: "ftr_addr S blk = (?e - 16) - (?e - 16) mod 8"
      using ptr e and_not_mask [of "?e - 16" 3] by (simp add: ftr_addr_def get_for_alloc_def ALIGN_OF_PoolFtr_def)
    have "fst blk + n - 16 \<le> ftr_addr S blk" unfolding a using d n(2) by (intro dvd_le_down) simp_all
    then show "8 dvd ftr_addr S blk \<and> fst blk + n - 16 \<le> ftr_addr S blk \<and> ftr_addr S blk + 16 \<le> ?e"
      using e(3) by (auto simp: a minus_mod_eq_mult_div)
  next
    case False
    then have a: "ftr_addr S blk = ?e - 16" using ptr by (simp add: ftr_addr_def get_for_alloc_def ALIGN_OF_PoolFtr_def)
    have "8 dvd ?e" using False min_align_dvd(1) [OF b] b by (simp add: block_ok_def)
    then show "8 dvd ftr_addr S blk \<and> fst blk + n - 16 \<le> ftr_addr S blk \<and> ftr_addr S blk + 16 \<le> ?e"
      using e(3) n(2) by (simp add: a dvd_diff_nat)
  qed
qed

lemma inv_agree:
  assumes "tlsf_inv c t m ps" and "pool_bytes ps \<subseteq> \<Union>(blk_range ` A)" and "agree m m' A"
  shows "tlsf_inv c t m' ps" and "used_kept m m' ps ps"
proof -
  have "m' x = m x" if "x \<in> pool_bytes ps" for x using assms(2,3) that by (auto simp: agree_def)
  then show "tlsf_inv c t m' ps" "used_kept m m' ps ps"
    by (auto intro: tlsf_inv_frame [OF assms(1)] agree_used_kept [OF assms(1)])
qed

lemma write_ftr:
  assumes a: "8 dvd a" "m a \<noteq> None" "m (a + 8) \<noteq> None" and p: "\<forall>b. prev = Some b \<longrightarrow> 0 < fst b"
  obtains m' where "write_prev_alloc m a prev = Some m'" and "dom m' = dom m" and "\<forall>y. y < a \<or> a + 16 \<le> y \<longrightarrow> m' y = m y"
    and "read_prev_alloc m' a = Some prev"
proof (cases prev)
  case None
  have "a mod 8 = 0" "(a + 8) mod 8 = 0" using a(1) by (simp_all add: mod_eq_0_iff_dvd)
  then show thesis using a(2,3) None by (intro that [of "m(a \<mapsto> 0)"])
    (auto simp: write_prev_alloc_def store_def load_def read_prev_alloc_def to_ptr_def)
next
  case (Some b)
  have "a mod 8 = 0" "(a + 8) mod 8 = 0" using a(1) by (simp_all add: mod_eq_0_iff_dvd)
  then show thesis using a(2,3) p Some by (intro that [of "m(a \<mapsto> fst b, a + 8 \<mapsto> snd b)"])
    (auto simp: write_prev_alloc_def store_def load_def read_prev_alloc_def to_ptr_def)
qed

text \<open>The memory of a new pool joins the blocks.\<close>

lemma insert_either:
  assumes I: "tlsf_inv c t m ps" and b: "block_ok S blk" and fr: "fresh m ps (fst blk) (snd blk)"
    and n: "32 dvd n" "64 \<le> n" "\<forall>mx. MAX_POOL_SIZE c = Some mx \<longrightarrow> n \<le> mx"
    and le: "(if src_min_align S < GRANULARITY then n + 32 else n) \<le> snd blk"
  obtains k t' m' ps' s where "(if GRANULARITY \<le> src_min_align S then insert_free_block_ptr_aligned c t m blk
      else insert_free_block_ptr c t m blk) = Some (Some k, t', m')"
    and "tlsf_inv c t' m' ps'" and "grown m m' ps ps' s (fst blk + k) {}" and "fst blk \<le> s" and "64 \<le> k" and "k \<le> snd blk"
    and "snd blk < k + 64" and "32 dvd fst blk + k" and "\<exists>b z q. (b, z, Free, q) \<in> set (all_entries ps') \<and> n \<le> z + 32"
proof -
  note cfg = inv_cfg_ok [OF I]
  have bk: "0 < fst blk" "fst blk < USIZE_LIM" "fst blk + snd blk \<le> USIZE_LIM" using b n(2) le by (auto simp: block_ok_def split: if_splits)
  have k64: "64 \<le> u - left_over c u" if "32 dvd u" "64 \<le> u" for u
    using left_over_chunk [OF that(2), of c] chunk_facts(2) [OF cfg that] chunk_size_le [of c u] by linarith
  show thesis
  proof (cases "GRANULARITY \<le> src_min_align S")
    case True
    let ?u = "snd blk"
    have d: "32 dvd fst blk" "32 dvd ?u" "64 \<le> ?u" "n \<le> ?u"
      using True min_align_dvd(2) [OF b] b n(2) le by (simp_all add: block_ok_def)
    obtain t' m' where r: "insert_free_block_ptr_aligned c t m (fst blk, ?u) = Some (to_ptr (?u - left_over c ?u), t', m')"
        "tlsf_inv c t' m' (add_pools c (fst blk) ?u ps)"
        "changes_only m m' (link_cells (dom (all_frees c ps)) \<union> {fst blk ..< fst blk + (?u - left_over c ?u) - 16})"
      by (rule insert_aligned_ok [OF I d(1) bk(1) d(2) bk(3,2) fr])
    note k = k64 [OF d(2,3)] and lo = left_over_granule [OF cfg d(2)]
    show thesis
    proof (rule that [of "?u - left_over c ?u" t' m', OF _ r(2)])
      show "grown m m' ps (add_pools c (fst blk) ?u ps) (fst blk) (fst blk + (?u - left_over c ?u)) {}"
        by (rule add_pools_grown [OF I d(2,3) fr r(3)])
      show "\<exists>b z q. (b, z, Free, q) \<in> set (all_entries (add_pools c (fst blk) ?u ps)) \<and> n \<le> z + 32"
        by (rule add_pools_free [OF d(3,4) n(3)])
    qed (use True k lo d r(1) in \<open>auto simp: to_ptr_def dvd_diff_nat\<close>)
  next
    case False
    have "snd blk \<ge> n + 32" using False le by simp
    then have large: "(round_up 32 (fst blk) - fst blk) + 64 \<le> snd blk" using round_up_32 [of "fst blk"] n(2) by linarith
    show thesis
    proof (rule insert_grown [OF I bk fr large])
      let ?s = "round_up 32 (fst blk)" and ?u = "usable_len blk"
      fix k t' m' assume r: "insert_free_block_ptr c t m blk = Some (Some k, t', m')" "tlsf_inv c t' m' (add_pools c ?s ?u ps)"
        "k \<le> snd blk" "snd blk < k + 64" "fst blk + k = ?s + (?u - left_over c ?u)"
        "grown m m' ps (add_pools c ?s ?u ps) ?s (fst blk + k) {}" "32 dvd ?u" "64 \<le> ?u" "snd blk < ?u + (?s - fst blk) + 32"
      have s: "fst blk \<le> ?s" "?s < fst blk + 32" "32 dvd ?s" using round_up_32 [of "fst blk"] by simp_all
      have "n < ?u + 32" using r(9) s \<open>snd blk \<ge> n + 32\<close> by linarith
      then have "n + 32 \<le> ?u + 32" using n(1) r(7) by (intro dvd_less_add_le) simp_all
      then have "n \<le> ?u" by simp
      then have fe: "\<exists>b z q. (b, z, Free, q) \<in> set (all_entries (add_pools c ?s ?u ps)) \<and> n \<le> z + 32"
        by (intro add_pools_free [OF r(8) _ n(3)])
      have "64 \<le> k" using k64 [OF r(7,8)] r(5) s by linarith
      moreover have "32 dvd fst blk + k" unfolding r(5) using s(3) r(7) left_over_granule [OF cfg r(7)] by (simp add: dvd_diff_nat)
      ultimately show thesis using False r(1) s(1) fe by (intro that [OF _ r(2,6)]) (use r(3,4) in simp_all)
    qed
  qed
qed

lemma fresh_block:
  assumes sub: "pool_bytes ps \<subseteq> \<Union>(blk_range ` A)" and "apart blk A" and "mapped_blk m blk"
  shows "fresh m ps (fst blk) (snd blk)"
proof -
  have "blk_range blk \<inter> pool_bytes ps = {}" using assms by (auto simp: apart_def)
  then show ?thesis using assms(3) by (auto simp: fresh_def mapped_blk_def blk_range_def pool_bytes_def)
qed

lemma blocks_ok_insert:
  assumes B: "blocks_ok S m As" and ag: "agree m m' (set As)" and blk: "block_ok S blk" "mapped_blk m' blk" "apart blk (set As)" "0 < snd blk"
  shows "blocks_ok S m' (blk # As)"
proof -
  have new: "blk \<notin> set As" using blk(3,4) by (auto simp: apart_def blk_range_def)
  have "mapped_blk m' a" if "a \<in> set As" for a using B ag that by (auto simp: blocks_ok_def mapped_blk_def agree_def)
  moreover have "apart a (set (blk # As) - {a})" if "a \<in> set As" for a
  proof -
    have "apart a (set As - {a})" using B that by (simp add: blocks_ok_def)
    then show ?thesis using blk(3) that unfolding apart_def by (metis Diff_iff Int_commute set_ConsD)
  qed
  moreover have "set (blk # As) - {blk} = set As" using new by auto
  ultimately show ?thesis using B blk new by (simp add: blocks_ok_def)
qed

lemma source_step:
  assumes F: "flex_inv c S R f m ps As" and ag: "agree m m' (set As)" and r: "R x' m' (set As)"
  shows "flex_inv c S R (f\<lparr>source := x'\<rparr>) m' ps As" and "used_kept m m' ps ps"
proof -
  have I: "tlsf_inv c (tlsf_of f) m ps" and B: "blocks_ok S m As"
    and sub: "pool_bytes ps \<subseteq> \<Union>(blk_range ` set As)" using F by (simp_all add: flex_inv_def)
  have "blocks_ok S m' As" using B ag by (auto simp: blocks_ok_def mapped_blk_def agree_def)
  moreover have "footers S m' ps As" if "src_supports_dealloc S"
    by (rule footers_frame [of S m ps As]) (use F that ag in \<open>auto simp: flex_inv_def agree_def\<close>)
  ultimately show "flex_inv c S R (f\<lparr>source := x'\<rparr>) m' ps As"
    using F r inv_agree(1) [OF I sub ag] unfolding flex_inv_def by simp
  show "used_kept m m' ps ps" by (rule inv_agree(2) [OF I sub ag])
qed

lemma slot_at_end:
  assumes b: "block_ok S blk" and n: "16 \<le> n" "n \<le> snd blk" "32 dvd fst blk + n" and e: "fst blk + n \<in> pool_ends ps"
    and out: "\<And>y. fst blk + n \<le> y \<Longrightarrow> y < fst blk + snd blk \<Longrightarrow> y \<notin> pool_bytes ps"
  shows "ftr_slot S ps blk"
proof -
  note a = ftr_addr_facts [OF b n]
  have tail: "y \<in> tail_space ps" if "fst blk + n - 16 \<le> y" "y < fst blk + n" for y
    using e that by (fastforce simp: pool_ends_def tail_space_def)
  have "y \<notin> pool_bytes ps \<or> y \<in> tail_space ps" if "ftr_addr S blk \<le> y" "y < ftr_addr S blk + 16" for y
    using tail [of y] out [of y] a that by (cases "y < fst blk + n") auto
  then show ?thesis using a n by (auto simp: ftr_slot_def Let_def)
qed

text \<open>A footer is written or not, depending on the source; the pools do not notice.\<close>

lemma write_ftr_inv:
  assumes I: "tlsf_inv c t m ps" and slot: "ftr_slot S ps blk" and dom: "dom m' = dom m"
    and out: "\<forall>y. y < ftr_addr S blk \<or> ftr_addr S blk + 16 \<le> y \<longrightarrow> m' y = m y"
  shows "tlsf_inv c t m' ps" and "used_kept m m' ps ps"
proof -
  have "m' x = m x" if "x \<in> pool_bytes ps" "x \<notin> tail_space ps" for x
    using slot out that unfolding ftr_slot_def Let_def by (meson not_le)
  then show "tlsf_inv c t m' ps" "used_kept m m' ps ps"
    using dom by (auto intro!: tlsf_inv_frame [OF I] agree_used_kept [OF I])
qed

text \<open>The invariant after a block was acquired or extended: \<open>m\<close> is the memory before, \<open>m1\<close> after the
  source did its work, \<open>m3\<close> after the pool and the footer were written.\<close>

lemma joined_inv:
  assumes t: "tlsf_inv c (tlsf_of f') m3 ps'" and R1: "R (source f') m1 (insert blk (set Bs))" and B: "blocks_ok S m1 (blk # Bs)"
    and ag: "agree m m1 (set Bs)" and dm: "dom m3 = dom m1"
    and ft: "src_supports_dealloc S \<Longrightarrow> footers S m ps Bs \<and> ftr_slot S ps' blk \<and>
      read_prev_alloc m3 (ftr_addr S blk) = Some (case Bs of [] \<Rightarrow> None | b # _ \<Rightarrow> Some b)"
    and sub: "pool_bytes ps \<subseteq> \<Union>(blk_range ` insert blk (set Bs))"
    and pb: "pool_bytes ps' = pool_bytes ps \<union> J" "J \<subseteq> blk_range blk" and ts: "tail_space ps - E \<subseteq> tail_space ps'" "E \<subseteq> blk_range blk"
    and same: "\<And>y. y \<notin> blk_range blk \<Longrightarrow> y \<notin> pool_bytes ps \<or> y \<in> tail_space ps \<Longrightarrow> m3 y = m1 y"
    and gr: "if use_growable_pool S then growable_ok ps' (blk # Bs) (growable_pool f') else growable_pool f' = None"
  shows "flex_inv c S R f' m3 ps' (blk # Bs)"
proof -
  have "R (source f') m3 (insert blk (set Bs))"
    by (rule write_law [OF R1 dm]) (use same sub in blast)
  moreover have "footers S m3 ps' Bs" if "src_supports_dealloc S"
  proof (rule footers_frame [of S m ps Bs])
    fix b y assume b: "b \<in> set Bs" "y \<in> blk_range b" and y: "y \<notin> pool_bytes ps \<or> y \<in> tail_space ps"
    have "apart b (insert blk (set Bs) - {b})" "blk \<noteq> b" using B b(1) by (auto simp: blocks_ok_def)
    then have out: "y \<notin> blk_range blk" using b(2) by (auto simp: apart_def)
    have "m3 y = m y" using same [OF out y] ag b by (auto simp: agree_def)
    then show "m3 y = m y \<and> (y \<notin> pool_bytes ps' \<or> y \<in> tail_space ps')" using y out pb ts by blast
  qed (use ft that in blast)
  moreover have "pool_bytes ps' \<subseteq> \<Union>(blk_range ` set (blk # Bs))" using sub pb by auto
  ultimately show ?thesis using t ft gr blocks_ok_dom [OF B dm] unfolding flex_inv_def by simp
qed

lemma prev_of_growable:
  assumes "flex_inv c S R f m ps As" and "src_supports_dealloc S"
  shows "map_option (\<lambda>p. (alloc_start p, alloc_len p)) (growable_pool f) = (case As of [] \<Rightarrow> None | b # _ \<Rightarrow> Some b)"
  using assms by (cases "growable_pool f") (auto simp: flex_inv_def use_growable_pool_def)

text \<open>The footer of a new block is written when the source can take blocks back.\<close>

lemma new_footer:
  assumes slot: "ftr_slot S ps' blk" and dm: "dom m2 = dom m1" and blk: "mapped_blk m1 blk"
    and prev: "src_supports_dealloc S \<Longrightarrow> \<forall>b. prev = Some b \<longrightarrow> 0 < fst b"
  obtains m3 where "(if src_supports_dealloc S then write_prev_alloc m2 (ftr_addr S blk) prev else Some m2) = Some m3"
    and "dom m3 = dom m2" and "\<forall>y. y < ftr_addr S blk \<or> ftr_addr S blk + 16 \<le> y \<longrightarrow> m3 y = m2 y"
    and "src_supports_dealloc S \<longrightarrow> read_prev_alloc m3 (ftr_addr S blk) = Some prev"
proof (cases "src_supports_dealloc S")
  case True
  let ?a = "ftr_addr S blk"
  have a: "8 dvd ?a" "fst blk \<le> ?a" "?a + 16 \<le> fst blk + snd blk" using slot by (simp_all add: ftr_slot_def Let_def)
  have mapped: "m2 y \<noteq> None" if "y \<in> blk_range blk" "8 dvd y" for y
    using mapped_dom [OF blk dm] that by (simp add: mapped_blk_def)
  have "\<exists>m3. (if src_supports_dealloc S then write_prev_alloc m2 ?a prev else Some m2) = Some m3 \<and> dom m3 = dom m2 \<and>
      (\<forall>y. y < ?a \<or> ?a + 16 \<le> y \<longrightarrow> m3 y = m2 y) \<and> (src_supports_dealloc S \<longrightarrow> read_prev_alloc m3 ?a = Some prev)"
    by (rule write_ftr [of ?a m2 prev]) (use True a prev [OF True] mapped [of ?a] mapped [of "?a + 8"] in \<open>auto simp: blk_range_def\<close>)
  then show thesis using that by blast
qed (use that in simp)

lemma new_pool_joined:
  fixes f :: "('x, 'f::len word, 's::len word) flex"
  assumes F: "flex_inv c S R f m ps As" and ag: "agree m m1 (set As)"
    and blk: "block_ok S blk" "mapped_blk m1 blk" "apart blk (set As)" "R x' m1 (insert blk (set As))"
    and t: "tlsf_inv c t' m2 ps'" and g: "grown m1 m2 ps ps' s (fst blk + k) {}" and k: "fst blk \<le> s" "64 \<le> k" "k \<le> snd blk"
      "snd blk < k + 64" "32 dvd fst blk + k"
  obtains m3 where "(if src_supports_dealloc S then write_prev_alloc m2 (get_for_alloc blk (src_min_align S))
      (map_option (\<lambda>p. (alloc_start p, alloc_len p)) (growable_pool f)) else Some m2) = Some m3"
    and "flex_inv c S R (f\<lparr>source := x', tlsf_of := t', growable_pool := if use_growable_pool S
      then Some \<lparr>alloc_start = fst blk, alloc_len = snd blk, pool_len = k\<rparr> else growable_pool f\<rparr>) m3 ps' (blk # As)"
    and "used_kept m2 m3 ps' ps'"
proof -
  let ?e = "fst blk + k" and ?prev = "map_option (\<lambda>p. (alloc_start p, alloc_len p)) (growable_pool f)"
  let ?f = "f\<lparr>source := x', tlsf_of := t', growable_pool := if use_growable_pool S
      then Some \<lparr>alloc_start = fst blk, alloc_len = snd blk, pool_len = k\<rparr> else growable_pool f\<rparr>"
  have B: "blocks_ok S m1 (blk # As)" using F k blk by (intro blocks_ok_insert [of m]) (auto simp: flex_inv_def ag)
  have sub: "pool_bytes ps \<subseteq> \<Union>(blk_range ` set As)" using F by (simp add: flex_inv_def)
  then have new: "y \<notin> pool_bytes ps" if "y \<in> blk_range blk" for y using blk(3) that by (auto simp: apart_def)
  have pb: "pool_bytes ps' = pool_bytes ps \<union> {s ..< ?e}" and ends: "?e \<in> pool_ends ps'" and ts: "tail_space ps - {} \<subseteq> tail_space ps'"
    and dm: "dom m2 = dom m1" and same: "\<And>y. y \<notin> pool_bytes ps' \<or> y \<in> tail_space ps \<Longrightarrow> m2 y = m1 y"
    using g unfolding grown_def by blast+
  have J: "{s ..< ?e} \<subseteq> blk_range blk" using k by (auto simp: blk_range_def)
  have slot: "ftr_slot S ps' blk"
  proof (rule slot_at_end [OF blk(1) _ k(3,5) ends])
    show "y \<notin> pool_bytes ps'" if "?e \<le> y" "y < fst blk + snd blk" for y
      using that new [of y] by (auto simp: pb blk_range_def)
  qed (use k in simp)
  let ?a = "ftr_addr S blk"
  have a: "fst blk \<le> ?a" "?a + 16 \<le> fst blk + snd blk" using slot by (simp_all add: ftr_slot_def Let_def)
  have prev: "\<forall>b. ?prev = Some b \<longrightarrow> 0 < fst b" if "src_supports_dealloc S"
  proof -
    have "\<forall>b \<in> set As. 0 < fst b" using F by (simp add: flex_inv_def blocks_ok_def block_ok_def)
    then show ?thesis unfolding prev_of_growable [OF F that] by (cases As) auto
  qed
  obtain m3 where m3: "(if src_supports_dealloc S then write_prev_alloc m2 ?a ?prev else Some m2) = Some m3" "dom m3 = dom m2"
      "\<forall>y. y < ?a \<or> ?a + 16 \<le> y \<longrightarrow> m3 y = m2 y" "src_supports_dealloc S \<longrightarrow> read_prev_alloc m3 ?a = Some ?prev"
    by (rule new_footer [OF slot dm blk(2) prev])
  note wi = write_ftr_inv [OF t slot m3(2,3)]
  have "flex_inv c S R ?f m3 ps' (blk # As)"
  proof (rule joined_inv [OF _ _ B ag _ _ _ pb J ts])
    show "tlsf_inv c (tlsf_of ?f) m3 ps'" using wi(1) by simp
    show "R (source ?f) m1 (insert blk (set As))" using blk(4) by simp
    show "dom m3 = dom m1" using m3(2) dm by simp
    show "m3 y = m1 y" if "y \<notin> blk_range blk" "y \<notin> pool_bytes ps \<or> y \<in> tail_space ps" for y
    proof -
      have "y < ?a \<or> ?a + 16 \<le> y" using a that(1) by (auto simp: blk_range_def)
      moreover have "m2 y = m1 y" using that J by (intro same) (auto simp: pb)
      ultimately show ?thesis using m3(3) by metis
    qed
    show "if use_growable_pool S then growable_ok ps' (blk # As) (growable_pool ?f) else growable_pool ?f = None"
    proof (cases "use_growable_pool S")
      case True
      have "{?e ..< fst blk + snd blk} \<inter> pool_bytes ps' = {}" using new by (auto simp: pb blk_range_def)
      then show ?thesis using k ends True by simp
    next
      case False
      then show ?thesis using F by (simp add: flex_inv_def)
    qed
    show "footers S m ps As \<and> ftr_slot S ps' blk \<and> read_prev_alloc m3 ?a = Some (case As of [] \<Rightarrow> None | b # _ \<Rightarrow> Some b)"
      if "src_supports_dealloc S"
      using F that slot m3(4) prev_of_growable [OF F that] unfolding flex_inv_def by simp
    show "pool_bytes ps \<subseteq> \<Union>(blk_range ` insert blk (set As))" using sub by blast
    show "{} \<subseteq> blk_range blk" by simp
  qed
  then show thesis using m3(1) [unfolded ftr_addr_def] wi(2) by (intro that [of m3])
qed

lemma new_pool_increases:
  fixes f :: "('x, 'f::len word, 's::len word) flex"
  assumes F: "flex_inv c S R f m ps As" and n: "32 dvd n" "64 \<le> n" "n < USIZE_LIM" "\<forall>mx. MAX_POOL_SIZE c = Some mx \<longrightarrow> n \<le> mx"
  shows "\<exists>b f' m'. new_pool c S f m n = Some (b, f', m') \<and> increased c S R n m ps b f' m'"
proof (cases "if src_min_align S < GRANULARITY then checked_add n GRANULARITY else Some n")
  case None
  then have "new_pool c S f m n = Some (False, f, m)" by (simp add: new_pool_def)
  moreover have "increased c S R n m ps False f m" using F by (auto simp: increased_def used_kept_def)
  ultimately show ?thesis by blast
next
  case (Some k)
  have I: "tlsf_inv c (tlsf_of f) m ps" and RA: "R (source f) m (set As)" and B: "blocks_ok S m As"
    and sub: "pool_bytes ps \<subseteq> \<Union>(blk_range ` set As)" using F by (simp_all add: flex_inv_def)
  have k: "32 dvd k" "0 < k" "k < USIZE_LIM" "(if src_min_align S < GRANULARITY then n + 32 else n) \<le> k"
    using Some n by (auto simp: checked_add_def split: if_splits)
  obtain r x' m1 where al: "src_alloc S (source f) m k = Some (r, x', m1)" "agree m m1 (set As)"
      "case r of None \<Rightarrow> R x' m1 (set As)
       | Some blk \<Rightarrow> k \<le> snd blk \<and> block_ok S blk \<and> mapped_blk m1 blk \<and> apart blk (set As) \<and> R x' m1 (insert blk (set As))"
    using alloc_law [OF RA k(2) _ k(3)] k(1) by auto
  note ag = inv_agree [OF I sub al(2)]
  show ?thesis
  proof (cases r)
    case None
    then have "new_pool c S f m n = Some (False, f\<lparr>source := x'\<rparr>, m1)" using Some al(1) by (simp add: new_pool_def)
    moreover have "increased c S R n m ps False (f\<lparr>source := x'\<rparr>) m1"
      using source_step [OF F al(2), of x'] al(3) None by (auto simp: increased_def)
    ultimately show ?thesis by blast
  next
    case r: (Some blk)
    then have blk: "k \<le> snd blk" "block_ok S blk" "mapped_blk m1 blk" "apart blk (set As)" "R x' m1 (insert blk (set As))"
      using al(3) by simp_all
    obtain p t' m2 ps' s where i: "(if GRANULARITY \<le> src_min_align S then insert_free_block_ptr_aligned c (tlsf_of f) m1 blk
          else insert_free_block_ptr c (tlsf_of f) m1 blk) = Some (Some p, t', m2)" "tlsf_inv c t' m2 ps'"
        "grown m1 m2 ps ps' s (fst blk + p) {}" "fst blk \<le> s" "64 \<le> p" "p \<le> snd blk" "snd blk < p + 64" "32 dvd fst blk + p"
        "\<exists>b z q. (b, z, Free, q) \<in> set (all_entries ps') \<and> n \<le> z + 32"
      by (rule insert_either [OF ag(1) blk(2) fresh_block [OF sub blk(4,3)] n(1,2,4)]) (use k(4) blk(1) in simp)
    obtain m3 where j: "(if src_supports_dealloc S then write_prev_alloc m2 (get_for_alloc blk (src_min_align S))
          (map_option (\<lambda>p. (alloc_start p, alloc_len p)) (growable_pool f)) else Some m2) = Some m3"
        "flex_inv c S R (f\<lparr>source := x', tlsf_of := t', growable_pool := if use_growable_pool S
          then Some \<lparr>alloc_start = fst blk, alloc_len = snd blk, pool_len = p\<rparr> else growable_pool f\<rparr>) m3 ps' (blk # As)"
        "used_kept m2 m3 ps' ps'"
      by (rule new_pool_joined [OF F al(2) blk(2-5) i(2-8)])
    have "new_pool c S f m n = Some (True, f\<lparr>source := x', tlsf_of := t', growable_pool := if use_growable_pool S
          then Some \<lparr>alloc_start = fst blk, alloc_len = snd blk, pool_len = p\<rparr> else growable_pool f\<rparr>, m3)"
      using Some al(1) r i(1) j(1)
      by (cases "GRANULARITY \<le> src_min_align S"; cases "src_supports_dealloc S"; simp add: new_pool_def Let_def)
    moreover have "used_kept m m3 ps ps'" using used_kept_trans [OF ag(2) used_kept_trans [OF _ j(3)]] i(3) by (simp add: grown_def)
    ultimately show ?thesis using j(2) i(3,9) unfolding increased_def grown_def by blast
  qed
qed

section \<open>Extending the growable pool\<close>

lemma move_ftr_ok:
  assumes r: "read_prev_alloc m a0 = Some prev" and a: "8 dvd a" "m a \<noteq> None" "m (a + 8) \<noteq> None"
  obtains m' where "move_ftr m a0 a = Some m'" and "dom m' = dom m" and "\<forall>y. y < a \<or> a + 16 \<le> y \<longrightarrow> m' y = m y"
    and "read_prev_alloc m' a = Some prev"
proof -
  obtain p n where pn: "load m a0 = Some p" "load m (a0 + 8) = Some n" "prev = map_option (\<lambda>p. (p, n)) (to_ptr p)"
    using r by (auto simp: read_prev_alloc_def bind_eq_Some_conv)
  have "a mod 8 = 0" "(a + 8) mod 8 = 0" using a(1) by (simp_all add: mod_eq_0_iff_dvd)
  then show thesis using a(2,3) pn by (intro that [of "m(a \<mapsto> p, a + 8 \<mapsto> n)"])
    (auto simp: move_ftr_def store_def load_def read_prev_alloc_def)
qed

lemma read_ftr_frame: "\<forall>y. a \<le> y \<and> y < a + 16 \<longrightarrow> m' y = m y \<Longrightarrow> read_prev_alloc m' a = read_prev_alloc m a"
  by (simp add: read_prev_alloc_def load_def)

lemma blocks_ok_tl: "blocks_ok S m (b # Bs) \<Longrightarrow> blocks_ok S m Bs"
  by (auto simp: blocks_ok_def apart_def)

lemma growable_facts:
  assumes F: "flex_inv c S R f m ps As" and g: "growable_pool f = Some g" and u: "use_growable_pool S"
  obtains Bs where "As = (alloc_start g, alloc_len g) # Bs" and "64 \<le> pool_len g" and "pool_len g \<le> alloc_len g"
    and "alloc_len g < pool_len g + 64" and "alloc_start g + pool_len g \<in> pool_ends ps"
    and "{alloc_start g + pool_len g ..< alloc_start g + alloc_len g} \<inter> pool_bytes ps = {}" and "alloc_start g + alloc_len g \<le> USIZE_LIM"
    and "0 < alloc_start g"
  using F g u by (auto simp: flex_inv_def blocks_ok_def block_ok_def)

text \<open>The footer moves to the end of the extended block, of which the pools will use the first \<open>u\<close> bytes.\<close>

lemma extended_ftr:
  assumes F: "flex_inv c S R f m ps ((s, L) # Bs)" and ag: "agree m m1 (insert (s, L) (set Bs))"
    and new: "block_ok S (s, k)" "mapped_blk m1 (s, k)" and u: "16 \<le> u" "u \<le> k" "32 dvd s + u"
  obtains m2 where "(if src_supports_dealloc S then move_ftr m1 (get_for_alloc (s, L) (src_min_align S)) (get_for_alloc (s, k) (src_min_align S))
      else Some m1) = Some m2"
    and "dom m2 = dom m1" and "\<forall>y. y < s + u - 16 \<or> s + k \<le> y \<longrightarrow> m2 y = m1 y"
    and "src_supports_dealloc S \<longrightarrow> read_prev_alloc m2 (ftr_addr S (s, k)) = Some (case Bs of [] \<Rightarrow> None | b # _ \<Rightarrow> Some b)"
proof (cases "src_supports_dealloc S")
  case True
  let ?old = "ftr_addr S (s, L)" and ?a = "ftr_addr S (s, k)"
  have a: "8 dvd ?a" "s + u - 16 \<le> ?a" "?a + 16 \<le> s + k" using ftr_addr_facts [OF new(1), of u] u by simp_all
  have ft: "ftr_slot S ps (s, L)" "read_prev_alloc m ?old = Some (case Bs of [] \<Rightarrow> None | b # _ \<Rightarrow> Some b)"
    using F True by (simp_all add: flex_inv_def)
  have "m1 y = m y" if "?old \<le> y" "y < ?old + 16" for y
    using ft(1) ag that by (auto simp: ftr_slot_def Let_def agree_def blk_range_def)
  then have r: "read_prev_alloc m1 ?old = Some (case Bs of [] \<Rightarrow> None | b # _ \<Rightarrow> Some b)" using read_ftr_frame ft(2) by metis
  have mp: "m1 y \<noteq> None" if "s \<le> y" "y < s + k" "8 dvd y" for y using new(2) that by (auto simp: mapped_blk_def blk_range_def)
  have y: "m1 ?a \<noteq> None" "m1 (?a + 8) \<noteq> None" using a u(1) by (intro mp; simp)+
  obtain m2 where "move_ftr m1 ?old ?a = Some m2" "dom m2 = dom m1" "\<forall>y. y < ?a \<or> ?a + 16 \<le> y \<longrightarrow> m2 y = m1 y"
      "read_prev_alloc m2 ?a = Some (case Bs of [] \<Rightarrow> None | b # _ \<Rightarrow> Some b)"
    by (rule move_ftr_ok [OF r a(1) y])
  then show thesis using True a by (intro that [of m2]) (auto simp: ftr_addr_def)
qed (use that in simp)

text \<open>The invariant after an extension: the block \<open>(s, L)\<close> has become \<open>(s, k)\<close>, its footer has moved, and the
  pool that ended after \<open>P\<close> bytes of the block now ends after \<open>u\<close> bytes.\<close>

lemma extended_inv:
  fixes f :: "('x, 'f::len word, 's::len word) flex"
  assumes F: "flex_inv c S R f m ps ((s, L) # Bs)" and ag: "agree m m1 (insert (s, L) (set Bs))"
    and le: "64 \<le> P" "P \<le> L" "L \<le> k" "P + 64 \<le> u" "u \<le> k" "k < u + 64" "32 dvd s + u"
    and out: "\<And>y. s + P \<le> y \<Longrightarrow> y < s + k \<Longrightarrow> y \<notin> pool_bytes ps"
    and new: "block_ok S (s, k)" "mapped_blk m1 (s, k)" "apart (s, k) (set Bs)" and R1: "R x' m1 (insert (s, k) (set Bs))"
    and use: "use_growable_pool S"
    and m2: "dom m2 = dom m1" "\<forall>y. y < s + u - 16 \<or> s + k \<le> y \<longrightarrow> m2 y = m1 y"
      "src_supports_dealloc S \<longrightarrow> read_prev_alloc m2 (ftr_addr S (s, k)) = Some (case Bs of [] \<Rightarrow> None | b # _ \<Rightarrow> Some b)"
    and t: "tlsf_inv c t' m3 ps'" and g: "grown m2 m3 ps ps' (s + P) (s + u) {s + P - 16 ..< s + P}"
  shows "flex_inv c S R (f\<lparr>source := x', tlsf_of := t', growable_pool := Some \<lparr>alloc_start = s, alloc_len = k, pool_len = u\<rparr>\<rparr>)
    m3 ps' ((s, k) # Bs)"
proof -
  let ?f = "f\<lparr>source := x', tlsf_of := t', growable_pool := Some \<lparr>alloc_start = s, alloc_len = k, pool_len = u\<rparr>\<rparr>"
  have B: "blocks_ok S m ((s, L) # Bs)" and sub: "pool_bytes ps \<subseteq> \<Union>(blk_range ` set ((s, L) # Bs))"
    using F by (simp_all add: flex_inv_def)
  have pb: "pool_bytes ps' = pool_bytes ps \<union> {s + P ..< s + u}" and ends: "s + u \<in> pool_ends ps'"
    and ts: "tail_space ps - {s + P - 16 ..< s + P} \<subseteq> tail_space ps'" and dm: "dom m3 = dom m2"
    and same3: "\<And>y. y \<notin> pool_bytes ps' \<or> y \<in> {s + u - 16 ..< s + u} \<union> (tail_space ps - {s + P - 16 ..< s + P}) \<Longrightarrow> m3 y = m2 y"
    using g unfolding grown_def by blast+
  have out': "y \<notin> pool_bytes ps'" if "s + u \<le> y" "y < s + k" for y using out [of y] that le by (auto simp: pb)
  have u16: "16 \<le> u" using le by simp
  show ?thesis
  proof (rule joined_inv [OF _ _ _ _ _ _ _ pb _ ts])
    show "tlsf_inv c (tlsf_of ?f) m3 ps'" "R (source ?f) m1 (insert (s, k) (set Bs))" using t R1 by simp_all
    show "agree m m1 (set Bs)" using ag by (simp add: agree_def)
    then show "blocks_ok S m1 ((s, k) # Bs)" using new le by (intro blocks_ok_insert [OF blocks_ok_tl [OF B]]) simp_all
    show "dom m3 = dom m1" using dm m2(1) by simp
    show "pool_bytes ps \<subseteq> \<Union>(blk_range ` insert (s, k) (set Bs))" using sub le(3) by (fastforce simp: blk_range_def)
    show "{s + P ..< s + u} \<subseteq> blk_range (s, k)" "{s + P - 16 ..< s + P} \<subseteq> blk_range (s, k)" using le by (auto simp: blk_range_def)
    show "m3 y = m1 y" if "y \<notin> blk_range (s, k)" "y \<notin> pool_bytes ps \<or> y \<in> tail_space ps" for y
    proof -
      have y: "y < s \<or> s + k \<le> y" using that(1) by (auto simp: blk_range_def)
      have "y < s + u - 16 \<or> s + k \<le> y" using y le by linarith
      then have "m2 y = m1 y" using m2(2) by blast
      moreover have "m3 y = m2 y" using that(2) y le by (intro same3) (auto simp: pb)
      ultimately show ?thesis by simp
    qed
    show "footers S m ps Bs \<and> ftr_slot S ps' (s, k) \<and> read_prev_alloc m3 (ftr_addr S (s, k)) = Some (case Bs of [] \<Rightarrow> None | b # _ \<Rightarrow> Some b)"
      if sd: "src_supports_dealloc S"
    proof (intro conjI)
      show "footers S m ps Bs" using F sd by (simp add: flex_inv_def)
      show "ftr_slot S ps' (s, k)" by (rule slot_at_end [OF new(1), of u]) (use le ends out' u16 in simp_all)
      have a: "s + u - 16 \<le> ftr_addr S (s, k)" "ftr_addr S (s, k) + 16 \<le> s + k"
        using ftr_addr_facts [OF new(1), of u] le u16 by simp_all
      have "m3 y = m2 y" if "ftr_addr S (s, k) \<le> y" "y < ftr_addr S (s, k) + 16" for y
        using out' [of y] that a by (intro same3) (cases "y < s + u"; auto)
      then have "read_prev_alloc m3 (ftr_addr S (s, k)) = read_prev_alloc m2 (ftr_addr S (s, k))" by (intro read_ftr_frame) simp
      then show "read_prev_alloc m3 (ftr_addr S (s, k)) = Some (case Bs of [] \<Rightarrow> None | b # _ \<Rightarrow> Some b)" using m2(3) sd by simp
    qed
    show "if use_growable_pool S then growable_ok ps' ((s, k) # Bs) (growable_pool ?f) else growable_pool ?f = None"
      using use ends le out' by auto
  qed
qed

text \<open>Memory behind the growable pool, which the pools do not use yet.\<close>

lemma behind_pool:
  assumes F: "flex_inv c S R f m ps ((s, L) # Bs)" and gap: "{s + P ..< s + L} \<inter> pool_bytes ps = {}" and ap: "apart (s, k) (set Bs)"
    and y: "s + P \<le> y" "y < s + k"
  shows "y \<notin> pool_bytes ps"
proof
  assume p: "y \<in> pool_bytes ps"
  then have "y \<in> \<Union>(blk_range ` set ((s, L) # Bs))" using F by (auto simp: flex_inv_def)
  moreover have "s + L \<le> y" using p gap y by (metis atLeastLessThan_iff disjoint_iff not_le)
  ultimately obtain b where "b \<in> set Bs" "y \<in> blk_range b" by (auto simp: blk_range_def)
  then show False using ap y by (auto simp: apart_def blk_range_def)
qed

lemma extended_pool:
  fixes f :: "('x, 'f::len word, 's::len word) flex"
  assumes F: "flex_inv c S R f m ps ((s, L) # Bs)" and ag: "agree m m1 (insert (s, L) (set Bs))"
    and P: "64 \<le> P" "P \<le> L" "L \<le> k" "P + n \<le> k" and n: "64 \<le> n" "32 dvd n" "\<forall>mx. MAX_POOL_SIZE c = Some mx \<longrightarrow> n \<le> mx"
    and new: "block_ok S (s, k)" "mapped_blk m1 (s, k)" "apart (s, k) (set Bs)" and R1: "R x' m1 (insert (s, k) (set Bs))"
    and e: "s + P \<in> pool_ends ps" and gap: "{s + P ..< s + L} \<inter> pool_bytes ps = {}" and use: "use_growable_pool S"
  defines "u \<equiv> P + appended c (k - P)"
  obtains m2 t' m3 where "(if src_supports_dealloc S then move_ftr m1 (get_for_alloc (s, L) (src_min_align S)) (get_for_alloc (s, k) (src_min_align S))
      else Some m1) = Some m2"
    and "append_free_block_ptr c (tlsf_of f) m2 (s + P, k - P) = Some (appended c (k - P), t', m3)"
    and "increased c S R n m ps True (f\<lparr>source := x', tlsf_of := t', growable_pool := Some \<lparr>alloc_start = s, alloc_len = k, pool_len = u\<rparr>\<rparr>) m3"
proof -
  have I: "tlsf_inv c (tlsf_of f) m ps" and sub: "pool_bytes ps \<subseteq> \<Union>(blk_range ` set ((s, L) # Bs))"
    using F by (simp_all add: flex_inv_def)
  note af = appended_facts [OF inv_cfg_ok [OF I], of "k - P"]
  have u: "P + 64 \<le> u" "u \<le> k" "k < u + 64" "32 dvd s + u"
    using af(2-4) P n(1) pool_ends_dvd [OF inv_pools_ok [OF I] e] af(1) dvd_add [of 32 "s + P" "appended c (k - P)"]
    by (simp_all add: u_def add.assoc)
  have u16: "16 \<le> u" using u by simp
  note out = behind_pool [OF F gap new(3)]
  obtain m2 where m2: "(if src_supports_dealloc S then move_ftr m1 (get_for_alloc (s, L) (src_min_align S)) (get_for_alloc (s, k) (src_min_align S))
        else Some m1) = Some m2" "dom m2 = dom m1" "\<forall>y. y < s + u - 16 \<or> s + k \<le> y \<longrightarrow> m2 y = m1 y"
      "src_supports_dealloc S \<longrightarrow> read_prev_alloc m2 (ftr_addr S (s, k)) = Some (case Bs of [] \<Rightarrow> None | b # _ \<Rightarrow> Some b)"
    by (rule extended_ftr [OF F ag new(1,2) u16 u(2,4)])
  have ag': "agree m m1 (set ((s, L) # Bs))" using ag by simp
  note i1 = inv_agree [OF I sub ag']
  have same2: "m2 y = m1 y" if "y \<in> pool_bytes ps" for y
  proof -
    have "y < s + P \<or> s + k \<le> y" using out [of y] that by (meson not_le)
    then have "y < s + u - 16 \<or> s + k \<le> y" using u(1) by linarith
    then show ?thesis using m2(3) by blast
  qed
  have I2: "tlsf_inv c (tlsf_of f) m2 ps" and k2: "used_kept m1 m2 ps ps"
    using same2 by (auto intro!: tlsf_inv_frame [OF i1(1)] agree_used_kept [OF i1(1)])
  have "m2 a \<noteq> None" if "s + P \<le> a" "a < s + k" "8 dvd a" for a
    using mapped_dom [OF new(2) m2(2)] that by (simp add: mapped_blk_def blk_range_def)
  moreover have "pool_range q \<inter> {s + P ..< s + P + (k - P)} = {}" if "q \<in> set ps" for q
    using out P that by (fastforce simp: pool_bytes_def)
  ultimately have fr: "fresh m2 ps (s + P) (k - P)" using P by (simp add: fresh_def)
  have kl: "s + P + (k - P) \<le> USIZE_LIM" "n \<le> k - P" using new(1) P by (simp_all add: block_ok_def)
  obtain t' m3 ps' where ap: "append_free_block_ptr c (tlsf_of f) m2 (s + P, k - P) = Some (appended c (k - P), t', m3)"
      "tlsf_inv c t' m3 ps'" "grown m2 m3 ps ps' (s + P) (s + P + appended c (k - P)) {s + P - 16 ..< s + P}"
      "\<exists>b z q. (b, z, Free, q) \<in> set (all_entries ps') \<and> n \<le> z + 32"
    by (rule append_either [OF I2, of "(s + P, k - P)", unfolded fst_conv snd_conv, OF e kl(1) fr n(1) kl(2) n(2,3)])
  let ?f = "f\<lparr>source := x', tlsf_of := t', growable_pool := Some \<lparr>alloc_start = s, alloc_len = k, pool_len = u\<rparr>\<rparr>"
  have g: "grown m2 m3 ps ps' (s + P) (s + u) {s + P - 16 ..< s + P}" using ap(3) by (simp add: u_def add.assoc)
  have "flex_inv c S R ?f m3 ps' ((s, k) # Bs)"
    by (rule extended_inv [OF F ag P(1-3) u out new R1 use m2(2-4) ap(2) g])
  moreover have "used_kept m m3 ps ps'" using used_kept_trans [OF i1(2) used_kept_trans [OF k2]] g by (simp add: grown_def)
  ultimately have "increased c S R n m ps True ?f m3" using ap(4) g unfolding increased_def grown_def by blast
  then show thesis by (rule that [OF m2(1) ap(1)])
qed

lemma grow_pool_extends:
  fixes f :: "('x, 'f::len word, 's::len word) flex"
  assumes F: "flex_inv c S R f m ps ((alloc_start g, alloc_len g) # Bs)" and g: "64 \<le> pool_len g" "pool_len g \<le> alloc_len g"
      "alloc_len g \<le> pool_len g + n" "0 < alloc_start g" "alloc_start g + pool_len g \<in> pool_ends ps"
      "{alloc_start g + pool_len g ..< alloc_start g + alloc_len g} \<inter> pool_bytes ps = {}" "use_growable_pool S"
    and n: "64 \<le> n" "32 dvd n" "\<forall>mx. MAX_POOL_SIZE c = Some mx \<longrightarrow> n \<le> mx" "pool_len g + n < USIZE_LIM"
    and gr: "src_realloc_inplace_grow S (source f) m (alloc_start g, alloc_len g) (pool_len g + n) = Some (Some k, x', m1)"
      "agree m m1 (insert (alloc_start g, alloc_len g) (set Bs))"
    and new: "pool_len g + n \<le> k" "block_ok S (alloc_start g, k)" "mapped_blk m1 (alloc_start g, k)"
      "apart (alloc_start g, k) (set Bs)" "R x' m1 (insert (alloc_start g, k) (set Bs))"
  shows "if appended c (k - pool_len g) = k - pool_len g
    then \<exists>f' m'. grow_pool c S f m g n = Some (Some True, f', m') \<and> increased c S R n m ps True f' m'
    else grow_pool c S f m g n = None"
proof -
  let ?s = "alloc_start g" and ?L = "alloc_len g" and ?P = "pool_len g"
  let ?a = "appended c (k - ?P)"
  have Lk: "?L \<le> k" using g(3) new(1) by simp
  have "tlsf_inv c (tlsf_of f) m ps" using F by (simp add: flex_inv_def)
  then have al: "?a \<le> k - ?P" using appended_facts(2) inv_cfg_ok by blast
  obtain m2 t' m3 where x: "(if src_supports_dealloc S then move_ftr m1 (get_for_alloc (?s, ?L) (src_min_align S))
        (get_for_alloc (?s, k) (src_min_align S)) else Some m1) = Some m2"
      "append_free_block_ptr c (tlsf_of f) m2 (?s + ?P, k - ?P) = Some (?a, t', m3)"
      "increased c S R n m ps True (f\<lparr>source := x', tlsf_of := t',
        growable_pool := Some \<lparr>alloc_start = ?s, alloc_len = k, pool_len = ?P + ?a\<rparr>\<rparr>) m3"
    by (rule extended_pool [OF F gr(2) g(1,2) Lk new(1) n(1-3) new(2-5) g(5-7)])
  have lim: "?s + ?P < USIZE_LIM" "k < USIZE_LIM" using new(1,2) n(1) g(4) by (simp_all add: block_ok_def)
  have w: "wrapping_add ?s ?P = ?s + ?P" "sub_usize k ?P = Some (k - ?P)" "add_usize ?P ?a = Some (?P + ?a)" "checked_add ?P n = Some (?P + n)"
    using lim new(1) n(4) al by (simp_all add: wrapping_add_exact sub_usize_def add_usize_def checked_add_def)
  have d: "sub_usize (?P + ?a) k = (if ?a = k - ?P then Some 0 else None)" using al new(1) by (auto simp: sub_usize_def)
  have "grow_pool c S f m g n = (if ?a = k - ?P then
      Some (Some True, f\<lparr>source := x', tlsf_of := t', growable_pool := Some \<lparr>alloc_start = ?s, alloc_len = k, pool_len = ?P + ?a\<rparr>\<rparr>, m3) else None)"
    using gr(1) x(1,2) w d g(3) by (cases "src_supports_dealloc S"; simp add: grow_pool_def Let_def)
  then show ?thesis using x(3) by auto
qed

lemma grow_pool_cases:
  fixes f :: "('x, 'f::len word, 's::len word) flex"
  assumes F: "flex_inv c S R f m ps As" and g: "growable_pool f = Some g" and u: "use_growable_pool S"
    and n: "32 dvd n" "64 \<le> n" "n < USIZE_LIM" "\<forall>mx. MAX_POOL_SIZE c = Some mx \<longrightarrow> n \<le> mx"
  obtains "grow_underflows c S (source f) m g n" and "grow_pool c S f m g n = None"
  | ret f' m' where "\<not> grow_underflows c S (source f) m g n" and "grow_pool c S f m g n = Some (ret, f', m')"
    and "increased c S R n m ps (ret = Some True) f' m'"
proof (cases "checked_add (pool_len g) n")
  case None
  then have "grow_pool c S f m g n = Some (Some False, f, m)" by (simp add: grow_pool_def)
  moreover have "increased c S R n m ps False f m" using F by (auto simp: increased_def used_kept_def)
  moreover have "\<not> grow_underflows c S (source f) m g n" using None by (simp add: grow_underflows_def checked_add_def split: if_splits)
  ultimately show thesis using that(2) [of "Some False" f m] by simp
next
  case (Some d)
  then have d: "d = pool_len g + n" "d < USIZE_LIM" by (auto simp: checked_add_def split: if_splits)
  obtain Bs where gf: "As = (alloc_start g, alloc_len g) # Bs" "64 \<le> pool_len g" "pool_len g \<le> alloc_len g"
      "alloc_len g < pool_len g + 64" "alloc_start g + pool_len g \<in> pool_ends ps"
      "{alloc_start g + pool_len g ..< alloc_start g + alloc_len g} \<inter> pool_bytes ps = {}" "alloc_start g + alloc_len g \<le> USIZE_LIM" "0 < alloc_start g"
    by (rule growable_facts [OF F g u])
  let ?blk = "(alloc_start g, alloc_len g)"
  have RA: "R (source f) m (set As)" and B: "blocks_ok S m As" using F by (simp_all add: flex_inv_def)
  have le: "snd ?blk \<le> d" using gf(4) n(2) d(1) by simp
  obtain r x' m1 where gr: "src_realloc_inplace_grow S (source f) m ?blk d = Some (r, x', m1)" "agree m m1 (set As)"
      "case r of None \<Rightarrow> R x' m1 (set As)
       | Some k \<Rightarrow> src_supports_realloc_inplace_grow S \<and> d \<le> k \<and> block_ok S (fst ?blk, k) \<and> mapped_blk m1 (fst ?blk, k) \<and>
           apart (fst ?blk, k) (set As - {?blk}) \<and> R x' m1 (insert (fst ?blk, k) (set As - {?blk}))"
    using grow_law [OF RA _ le d(2)] gf(1) by auto
  show thesis
  proof (cases r)
    case None
    let ?ret = "if src_is_contiguous_growable S then Some False else None"
    have "grow_pool c S f m g n = Some (?ret, f\<lparr>source := x'\<rparr>, m1)"
      using Some gr(1) le None by (simp add: grow_pool_def)
    moreover have "increased c S R n m ps (?ret = Some True) (f\<lparr>source := x'\<rparr>) m1"
      using source_step [OF F gr(2), of x'] gr(3) None by (auto simp: increased_def)
    moreover have "\<not> grow_underflows c S (source f) m g n" using gr(1) None by (simp add: grow_underflows_def d(1))
    ultimately show thesis by (intro that(2))
  next
    case r: (Some k)
    have rest: "set As - {?blk} = set Bs" using B gf(1) by (auto simp: blocks_ok_def)
    have le': "alloc_len g \<le> pool_len g + n" using le d(1) by simp
    have ex: "if appended c (k - pool_len g) = k - pool_len g
        then \<exists>f' m'. grow_pool c S f m g n = Some (Some True, f', m') \<and> increased c S R n m ps True f' m'
        else grow_pool c S f m g n = None"
      by (rule grow_pool_extends [OF F [unfolded gf(1)] gf(2,3) le' gf(8,5,6) u n(2,1,4) d(2) [unfolded d(1)] gr(1) [unfolded r d(1)]
            gr(2) [unfolded gf(1) list.set]]) (use gr(3) r rest d(1) in simp_all)
    have "grow_underflows c S (source f) m g n \<longleftrightarrow> appended c (k - pool_len g) \<noteq> k - pool_len g"
      using gr(1) d by (simp add: grow_underflows_def r)
    then show thesis using ex that(1) that(2) [of "Some True"] by (auto split: if_splits)
  qed
qed

lemma increased_trans:
  assumes "increased c S R n m ps False f1 m1"
    and "\<And>ps1 As1. flex_inv c S R f1 m1 ps1 As1 \<Longrightarrow> \<exists>b f' m'. P b f' m' \<and> increased c S R n m1 ps1 b f' m'"
  shows "\<exists>b f' m'. P b f' m' \<and> increased c S R n m ps b f' m'"
  using assms unfolding increased_def by (metis used_kept_trans)

lemma increase_pool_cases:
  fixes f :: "('x, 'f::len word, 's::len word) flex"
  assumes F: "flex_inv c S R f m ps As" and L: "layout_ok l"
  obtains "increase_underflows c S f m l" and "increase_pool_to_contain_allocation c S f m l = None"
  | n b f' m' where "\<not> increase_underflows c S f m l" and "increase_pool_to_contain_allocation c S f m l = Some (b, f', m')"
    and "increased c S R n m ps b f' m'" and "b \<longrightarrow> pool_size_to_contain_allocation c l = Some (Some n)"
proof -
  have cfg: "cfg_ok c" using F inv_cfg_ok by (auto simp: flex_inv_def)
  have refl: "increased c S R n m ps False f m" for n using F by (auto simp: increased_def used_kept_def)
  show thesis
  proof (rule pool_size_total [OF L cfg])
    assume "pool_size_to_contain_allocation c l = Some None"
    then show thesis using refl by (intro that(2) [of False f m]) (simp_all add: increase_pool_to_contain_allocation_def increase_underflows_def)
  next
    fix n assume n: "pool_size_to_contain_allocation c l = Some (Some n)" "32 dvd n" "64 \<le> n" "n < USIZE_LIM"
      "\<forall>mx. MAX_POOL_SIZE c = Some mx \<longrightarrow> n \<le> mx"
    note np = new_pool_increases [OF _ n(2-5)]
    let ?g = "if use_growable_pool S then growable_pool f else None"
    show thesis
    proof (cases ?g)
      case None
      then have "increase_pool_to_contain_allocation c S f m l = new_pool c S f m n" "\<not> increase_underflows c S f m l"
        using n by (simp_all add: increase_pool_to_contain_allocation_def increase_underflows_def)
      then show thesis using np [OF F] n(1) that(2) by metis
    next
      case (Some g)
      then have g: "growable_pool f = Some g" "use_growable_pool S" by (simp_all split: if_splits)
      have iu: "increase_underflows c S f m l \<longleftrightarrow> grow_underflows c S (source f) m g n" using n(1) g by (simp add: increase_underflows_def)
      show thesis
      proof (rule grow_pool_cases [OF F g n(2-5)])
        assume "grow_underflows c S (source f) m g n" "grow_pool c S f m g n = None"
        then show thesis using iu n g by (intro that(1)) (simp_all add: increase_pool_to_contain_allocation_def)
      next
        fix ret f1 m1 assume nu: "\<not> grow_underflows c S (source f) m g n" and gp: "grow_pool c S f m g n = Some (ret, f1, m1)"
          "increased c S R n m ps (ret = Some True) f1 m1"
        then have ev: "increase_pool_to_contain_allocation c S f m l = (case ret of Some b \<Rightarrow> Some (b, f1, m1) | None \<Rightarrow> new_pool c S f1 m1 n)"
          using n g by (simp add: increase_pool_to_contain_allocation_def)
        have "\<exists>b f' m'. increase_pool_to_contain_allocation c S f m l = Some (b, f', m') \<and> increased c S R n m ps b f' m'"
        proof (cases ret)
          case None
          have "increased c S R n m ps False f1 m1" using gp(2) None by simp
          then have "\<exists>b f' m'. new_pool c S f1 m1 n = Some (b, f', m') \<and> increased c S R n m ps b f' m'"
            by (rule increased_trans) (rule np)
          then show ?thesis using ev None by simp
        next
          case (Some b)
          then show ?thesis using ev gp(2) by simp
        qed
        then show thesis using that(2) nu iu n(1) by blast
      qed
    qed
  qed
qed

end

end
