(* ===== verification/Flex_Client.thy ===== *)
theory Flex_Client
  imports Flex_Spec
begin

text \<open>
  The operations of \<open>FlexTlsf\<close> as clients see them, for every source that keeps its contract:
  allocation, deallocation, reallocation and \<open>drop\<close>.
\<close>

section \<open>Effects on the live allocations\<close>

definition new_live :: "mem \<Rightarrow> pool list \<Rightarrow> layout \<Rightarrow> usize option \<Rightarrow> mem \<Rightarrow> pool list \<Rightarrow> bool" where
  "new_live m ps l r m' ps' \<longleftrightarrow> used_kept m m' ps ps' \<and> (case r of None \<Rightarrow> live ps' = live ps
     | Some p \<Rightarrow> live ps' = insert (p, lalign l, lsize l) (live ps) \<and> (p, lalign l, lsize l) \<notin> live ps)"

definition resized :: "mem \<Rightarrow> pool list \<Rightarrow> usize \<Rightarrow> usize \<Rightarrow> usize \<Rightarrow> layout \<Rightarrow> usize option \<Rightarrow> mem \<Rightarrow> pool list \<Rightarrow> bool" where
  "resized m ps ptr al sz l r m' ps' \<longleftrightarrow> (case r of
     None \<Rightarrow> live ps' = live ps \<and> contents_kept m m' (live ps)
   | Some p \<Rightarrow> live ps' = insert (p, lalign l, lsize l) (live ps - {(ptr, al, sz)}) \<and> (p, lalign l, lsize l) \<notin> live ps - {(ptr, al, sz)} \<and>
       contents_kept m m' (live ps - {(ptr, al, sz)}) \<and> (\<forall>i < min sz (lsize l). load_byte m' (p + i) = load_byte m (ptr + i)))"

section \<open>Failing allocations\<close>

text \<open>When more memory cannot be had for an allocation. No list of free blocks starts with a size that is large
  enough, so that no pool is certain to hold the allocation; or the length to ask for overflows; or the source was
  asked and refused.\<close>

definition too_large :: "cfg \<Rightarrow> layout \<Rightarrow> bool" where
  "too_large c l \<longleftrightarrow> (\<forall>y. list_start c y \<and> search_size l \<le> y \<longrightarrow> USIZE_LIM \<le> y + GRANULARITY)"

definition alloc_unserved :: "'x FlexSource \<Rightarrow> 'x \<Rightarrow> mem \<Rightarrow> usize \<Rightarrow> bool" where
  "alloc_unserved S x m n \<longleftrightarrow> (let k = if src_min_align S < GRANULARITY then n + GRANULARITY else n in
     USIZE_LIM \<le> k \<or> (\<exists>x' m'. src_alloc S x m k = Some (None, x', m')))"

definition grow_unserved :: "'x FlexSource \<Rightarrow> 'x \<Rightarrow> mem \<Rightarrow> flex_pool \<Rightarrow> usize \<Rightarrow> bool" where
  "grow_unserved S x m g n \<longleftrightarrow> USIZE_LIM \<le> pool_len g + n \<or>
     (\<exists>x' m'. src_realloc_inplace_grow S x m (alloc_start g, alloc_len g) (pool_len g + n) = Some (None, x', m') \<and>
        (src_is_contiguous_growable S \<or> alloc_unserved S x' m' n))"

definition unserved :: "cfg \<Rightarrow> 'x FlexSource \<Rightarrow> ('x, 'f::len word, 's::len word) flex \<Rightarrow> mem \<Rightarrow> layout \<Rightarrow> bool" where
  "unserved c S f m l \<longleftrightarrow> too_large c l \<or> (\<exists>n. pool_size_to_contain_allocation c l = Some (Some n) \<and>
     (case (if use_growable_pool S then growable_pool f else None) of
        None \<Rightarrow> alloc_unserved S (source f) m n
      | Some g \<Rightarrow> grow_unserved S (source f) m g n))"

text \<open>When the inner allocator has no room and the assertion after the extension of the pool fails.\<close>

definition alloc_panics :: "cfg \<Rightarrow> 'x FlexSource \<Rightarrow> ('x, 'f::len word, 's::len word) flex \<Rightarrow> mem \<Rightarrow> layout \<Rightarrow> bool" where
  "alloc_panics c S f m l \<longleftrightarrow> (case allocate c (tlsf_of f) m l of
     Some (None, _) \<Rightarrow> increase_underflows c S f m l
   | _ \<Rightarrow> False)"

definition realloc_panics :: "cfg \<Rightarrow> 'x FlexSource \<Rightarrow> ('x, 'f::len word, 's::len word) flex \<Rightarrow> mem \<Rightarrow> usize \<Rightarrow> layout \<Rightarrow> bool" where
  "realloc_panics c S f m ptr l \<longleftrightarrow> (case reallocate c (tlsf_of f) m ptr l of
     Some (None, _) \<Rightarrow> alloc_panics c S f m l
   | _ \<Rightarrow> False)"

lemma pool_size_too_large:
  assumes L: "layout_ok l" and c: "cfg_ok c"
  shows "if too_large c l then pool_size_to_contain_allocation c l = Some None
    else \<exists>n. pool_size_to_contain_allocation c l = Some (Some n) \<and> n < USIZE_LIM"
proof -
  have ev: "pool_size_to_contain_allocation c l =
      map_ceil_and_unmap c (search_size l) \<bind>
        (\<lambda>r. case r of None \<Rightarrow> Some None | Some y \<Rightarrow> Some (checked_add y GRANULARITY))"
    by (simp only: pool_size_to_contain_allocation_def layout_sizes(1-4) [OF L] run_simps)
  show ?thesis
  proof (rule map_ceil_and_unmap_start [OF c layout_sizes(5) [OF L]])
    assume "map_ceil_and_unmap c (search_size l) = Some None" "\<And>y. list_start c y \<Longrightarrow> search_size l \<le> y \<Longrightarrow> USIZE_LIM \<le> y"
    then show ?thesis using ev by (auto simp: too_large_def intro: trans_le_add1)
  next
    fix y assume m: "map_ceil_and_unmap c (search_size l) = Some (Some y)" and y: "list_start c y" "search_size l \<le> y"
      and least: "\<And>z. list_start c z \<Longrightarrow> search_size l \<le> z \<Longrightarrow> y \<le> z"
    have "too_large c l \<longleftrightarrow> USIZE_LIM \<le> y + GRANULARITY"
      unfolding too_large_def using y least by (meson add_le_mono1 order_trans)
    then show ?thesis using ev m by (simp add: checked_add_def)
  qed
qed

lemma new_pool_served:
  assumes p: "new_pool c S f m n = Some (b, f', m')" and "n < USIZE_LIM"
  shows "b \<longleftrightarrow> \<not> alloc_unserved S (source f) m n"
proof (cases "USIZE_LIM \<le> (if src_min_align S < GRANULARITY then n + GRANULARITY else n)")
  case True
  then have "(if src_min_align S < GRANULARITY then checked_add n GRANULARITY else Some n) = None"
    using assms(2) by (simp add: checked_add_def split: if_splits)
  then show ?thesis using p True by (simp add: new_pool_def alloc_unserved_def Let_def)
next
  case False
  let ?k = "if src_min_align S < GRANULARITY then n + GRANULARITY else n"
  have k: "(if src_min_align S < GRANULARITY then checked_add n GRANULARITY else Some n) = Some ?k"
    using False by (simp add: checked_add_def split: if_splits)
  obtain r x1 m1 where a: "src_alloc S (source f) m ?k = Some (r, x1, m1)"
    using p by (auto simp: new_pool_def k bind_eq_Some_conv simp del: GRANULARITY_32)
  have "b \<longleftrightarrow> r \<noteq> None" using p by (cases r) (auto simp: new_pool_def k a bind_eq_Some_conv Let_def simp del: GRANULARITY_32)
  then show ?thesis using a False by (simp add: alloc_unserved_def Let_def del: GRANULARITY_32)
qed

lemma grow_pool_served:
  assumes p: "grow_pool c S f m g n = Some (ret, f1, m1)" and n: "n < USIZE_LIM"
    and r: "case ret of None \<Rightarrow> new_pool c S f1 m1 n = Some (b, f', m') | Some b' \<Rightarrow> b = b'"
  shows "b \<longleftrightarrow> \<not> grow_unserved S (source f) m g n"
proof (cases "USIZE_LIM \<le> pool_len g + n")
  case True
  then have "ret = Some False" using p by (simp add: grow_pool_def checked_add_def)
  then show ?thesis using True r by (simp add: grow_unserved_def)
next
  case False
  then have ca: "checked_add (pool_len g) n = Some (pool_len g + n)" by (simp add: checked_add_def)
  obtain q x1 m2 where g: "src_realloc_inplace_grow S (source f) m (alloc_start g, alloc_len g) (pool_len g + n) = Some (q, x1, m2)"
    using p by (auto simp: grow_pool_def ca bind_eq_Some_conv)
  show ?thesis
  proof (cases q)
    case None
    then have "if src_is_contiguous_growable S then ret = Some False else ret = None \<and> f1 = f\<lparr>source := x1\<rparr> \<and> m1 = m2"
      using p by (auto simp: grow_pool_def ca g bind_eq_Some_conv split: if_splits)
    then show ?thesis using g None r False new_pool_served [OF _ n, of c S f1 m1 b f' m'] by (auto simp: grow_unserved_def split: if_splits)
  next
    case (Some k)
    then have "ret = Some True" using p by (auto simp: grow_pool_def ca g bind_eq_Some_conv Let_def split: if_splits)
    then show ?thesis using r g Some False by (simp add: grow_unserved_def)
  qed
qed

lemma increase_served:
  assumes i: "increase_pool_to_contain_allocation c S f m l = Some (b, f', m')" and L: "layout_ok l" and c: "cfg_ok c"
  shows "b \<longleftrightarrow> \<not> unserved c S f m l"
proof (cases "too_large c l")
  case True
  then have "pool_size_to_contain_allocation c l = Some None" using pool_size_too_large [OF L c] by simp
  then show ?thesis using i True by (simp add: increase_pool_to_contain_allocation_def unserved_def)
next
  case False
  then obtain n where n: "pool_size_to_contain_allocation c l = Some (Some n)" "n < USIZE_LIM" using pool_size_too_large [OF L c] by auto
  show ?thesis
  proof (cases "if use_growable_pool S then growable_pool f else None")
    case None
    then have "new_pool c S f m n = Some (b, f', m')"
      using i n(1) by (auto simp: increase_pool_to_contain_allocation_def bind_eq_Some_conv)
    from new_pool_served [OF this n(2)] show ?thesis using None n(1) False by (simp add: unserved_def)
  next
    case (Some g)
    obtain ret f1 m1 where p: "grow_pool c S f m g n = Some (ret, f1, m1)"
      "case ret of None \<Rightarrow> new_pool c S f1 m1 n = Some (b, f', m') | Some b' \<Rightarrow> b = b'"
      using i n(1) Some by (auto simp: increase_pool_to_contain_allocation_def bind_eq_Some_conv split: option.splits)
    from grow_pool_served [OF p(1) n(2) p(2)] show ?thesis using Some n(1) False by (simp add: unserved_def)
  qed
qed

lemma underflow_served: "increase_underflows c S f m l \<Longrightarrow> layout_ok l \<Longrightarrow> cfg_ok c \<Longrightarrow> \<not> unserved c S f m l"
  using pool_size_too_large [of l c]
  by (auto simp: increase_underflows_def unserved_def grow_underflows_def grow_unserved_def split: option.splits if_splits)

section \<open>Allocation\<close>

context flex_source
begin

lemma inner_allocate:
  fixes f :: "('x, 'f::len word, 's::len word) flex"
  assumes F: "flex_inv c S R f m ps As" and L: "layout_ok l"
  obtains "allocate c (tlsf_of f) m l = Some (None, tlsf_of f, m)"
  | p t' m' ps' where "allocate c (tlsf_of f) m l = Some (Some p, t', m')" and "flex_inv c S R (f\<lparr>tlsf_of := t'\<rparr>) m' ps' As"
    and "new_live m ps l (Some p) m' ps'"
proof -
  have I: "tlsf_inv c (tlsf_of f) m ps" using F by (simp add: flex_inv_def)
  show thesis
  proof (rule allocate_live [OF I L])
    fix p t' m' ps' assume a: "allocate c (tlsf_of f) m l = Some (Some p, t', m')" "tlsf_inv c t' m' ps'"
      "live ps' = insert (p, lalign l, lsize l) (live ps)" "(p, lalign l, lsize l) \<notin> live ps" "used_kept m m' ps ps'"
      "spans ps' = spans ps" "untouched m m' ps"
    show thesis by (rule that(2) [OF a(1) inner_step [OF F a(2,6,7)]]) (use a in \<open>simp add: new_live_def\<close>)
  qed (rule that(1))
qed

lemma flex_allocate_cases:
  fixes f :: "('x, 'f::len word, 's::len word) flex"
  assumes F: "flex_inv c S R f m ps As" and L: "layout_ok l"
  obtains "alloc_panics c S f m l" and "flex_allocate c S f m l = None" and "allocate c (tlsf_of f) m l = Some (None, tlsf_of f, m)"
  | r f' m' ps' As' where "\<not> alloc_panics c S f m l" and "flex_allocate c S f m l = Some (r, f', m')" and "flex_inv c S R f' m' ps' As'"
    and "new_live m ps l r m' ps'" and "r = None \<longleftrightarrow> allocate c (tlsf_of f) m l = Some (None, tlsf_of f, m) \<and> unserved c S f m l"
proof (rule inner_allocate [OF F L])
  fix p t' m' ps' assume "allocate c (tlsf_of f) m l = Some (Some p, t', m')" "flex_inv c S R (f\<lparr>tlsf_of := t'\<rparr>) m' ps' As"
    "new_live m ps l (Some p) m' ps'"
  then show thesis by (intro that(2) [of "Some p" "f\<lparr>tlsf_of := t'\<rparr>" m' ps' As]) (simp_all add: flex_allocate_def alloc_panics_def)
next
  assume none: "allocate c (tlsf_of f) m l = Some (None, tlsf_of f, m)"
  have f: "f\<lparr>tlsf_of := tlsf_of f\<rparr> = f" by simp
  have cfg: "cfg_ok c" using F inv_cfg_ok by (auto simp: flex_inv_def)
  show thesis
  proof (rule increase_pool_cases [OF F L])
    assume "increase_underflows c S f m l" "increase_pool_to_contain_allocation c S f m l = None"
    then show thesis using none by (intro that(1)) (simp_all add: flex_allocate_def alloc_panics_def)
  next
    fix n b f1 m1 assume nu: "\<not> increase_underflows c S f m l" and i: "increase_pool_to_contain_allocation c S f m l = Some (b, f1, m1)"
      "increased c S R n m ps b f1 m1" "b \<longrightarrow> pool_size_to_contain_allocation c l = Some (Some n)"
    note b = increase_served [OF i(1) L cfg]
    have np: "\<not> alloc_panics c S f m l" using nu none by (simp add: alloc_panics_def)
    obtain ps1 As1 where j: "flex_inv c S R f1 m1 ps1 As1" "live ps1 = live ps" "used_kept m m1 ps ps1"
        "b \<longrightarrow> (\<exists>b z q. (b, z, Free, q) \<in> set (all_entries ps1) \<and> n \<le> z + 32)" using i(2) unfolding increased_def by blast
    show thesis
    proof (cases b)
      case False
      then show thesis using none i(1) j np b by (intro that(2) [of None f1 m1 ps1 As1]) (simp_all add: flex_allocate_def f new_live_def)
    next
      case True
      then obtain d z q where e: "(d, z, Free, q) \<in> set (all_entries ps1)" "n \<le> z + 32" using j(4) by blast
      have I1: "tlsf_inv c (tlsf_of f1) m1 ps1" using j(1) by (simp add: flex_inv_def)
      obtain fl sl where S: "search_suitable_free_block_list_for_allocation c (tlsf_of f1) (search_size l) = Some (Some (fl, sl))"
        by (rule allocate_contained [OF I1 L _ e]) (use True i(3) in simp)
      show thesis
      proof (rule allocate_some [OF I1 L S])
        fix p t' m' ps' assume a: "allocate c (tlsf_of f1) m1 l = Some (Some p, t', m')" "tlsf_inv c t' m' ps'"
          "live ps' = insert (p, lalign l, lsize l) (live ps1)" "(p, lalign l, lsize l) \<notin> live ps1" "used_kept m1 m' ps1 ps'"
          "spans ps' = spans ps1" "untouched m1 m' ps1"
        have "new_live m ps l (Some p) m' ps'" using used_kept_trans [OF j(3) a(5)] a(3,4) j(2) by (simp add: new_live_def)
        then show thesis using none i(1) True a(1) inner_step [OF j(1) a(2,6,7)] np b
          by (intro that(2) [of "Some p" "f1\<lparr>tlsf_of := t'\<rparr>" m' ps' As1]) (simp_all add: flex_allocate_def f)
      qed
    qed
  qed
qed

section \<open>Deallocation and reallocation\<close>

lemma flex_deallocate_ok:
  fixes f :: "('x, 'f::len word, 's::len word) flex"
  assumes F: "flex_inv c S R f m ps As" and x: "(ptr, al, sz) \<in> live ps"
  obtains f' m' ps' where "flex_deallocate c f m ptr al = Some (f', m')" and "flex_deallocate_unknown_align c f m ptr = Some (f', m')"
    and "flex_inv c S R f' m' ps' As" and "live ps' = live ps - {(ptr, al, sz)}" and "contents_kept m m' (live ps - {(ptr, al, sz)})"
    and "cells_kept m m' (live ps - {(ptr, al, sz)})"
proof -
  have I: "tlsf_inv c (tlsf_of f) m ps" using F by (simp add: flex_inv_def)
  show thesis
  proof (rule deallocate_live [OF I x])
    fix t' m' ps' assume d: "deallocate c (tlsf_of f) m ptr al = Some (t', m')" "deallocate_unknown_align c (tlsf_of f) m ptr = Some (t', m')"
      "tlsf_inv c t' m' ps'" "live ps' = live ps - {(ptr, al, sz)}" "contents_kept m m' (live ps - {(ptr, al, sz)})"
      "spans ps' = spans ps" "untouched m m' ps" "cells_kept m m' (live ps - {(ptr, al, sz)})"
    then show thesis using inner_step [OF F d(3,6,7)]
      by (intro that) (simp_all add: flex_deallocate_def flex_deallocate_unknown_align_def)
  qed
qed

text \<open>Moving an allocation into a new one, which \<open>FlexTlsf::reallocate\<close> does when the inner allocator
  cannot help, and the global allocator with other alignments and lengths.\<close>

lemma flex_move:
  fixes f :: "('x, 'f::len word, 's::len word) flex"
  assumes F: "flex_inv c S R f m ps As" and e: "(b, z, Used ptr al sz, q) \<in> set (all_entries ps)"
    and F1: "flex_inv c S R f1 m1 ps1 As1" and nl: "new_live m ps l (Some p) m1 ps1" and n: "ptr + n \<le> b + z" "n \<le> lsize l"
  obtains m2 f' m' ps' where "copy_nonoverlapping m1 ptr p n = Some m2" and "flex_deallocate c f1 m2 ptr al = Some (f', m')"
    and "flex_deallocate_unknown_align c f1 m2 ptr = Some (f', m')" and "flex_inv c S R f' m' ps' As1"
    and "live ps' = insert (p, lalign l, lsize l) (live ps - {(ptr, al, sz)})" and "(p, lalign l, lsize l) \<notin> live ps"
    and "contents_kept m m' (live ps - {(ptr, al, sz)})" and "\<forall>i < n. load_byte m' (p + i) = load_byte m (ptr + i)"
proof -
  let ?x = "(ptr, al, sz)" and ?y = "(p, lalign l, lsize l)"
  have I: "tlsf_inv c (tlsf_of f) m ps" and I1: "tlsf_inv c (tlsf_of f1) m1 ps1" using F F1 by (simp_all add: flex_inv_def)
  have lv: "live ps1 = insert ?y (live ps)" "?y \<notin> live ps" and uk: "used_kept m m1 ps ps1" using nl by (simp_all add: new_live_def)
  obtain q1 where e1: "(b, z, Used ptr al sz, q1) \<in> set (all_entries ps1)" and same: "\<forall>x. ptr \<le> x \<and> x < b + z \<longrightarrow> m1 x = m x"
    using uk e unfolding used_kept_def by blast
  have x: "?x \<in> live ps" using e live_entry by blast
  then have ne: "?y \<noteq> ?x" using lv(2) by auto
  have y: "?y \<in> live ps1" using lv(1) by simp
  show thesis
  proof (rule move_payload [OF I1 e1 y ne n])
    fix m2 t' m' ps' assume mv: "copy_nonoverlapping m1 ptr p n = Some m2" "deallocate c (tlsf_of f1) m2 ptr al = Some (t', m')"
      "deallocate_unknown_align c (tlsf_of f1) m2 ptr = Some (t', m')" "tlsf_inv c t' m' ps'" "live ps' = live ps1 - {?x}"
      "spans ps' = spans ps1" "untouched m1 m' ps1" "contents_kept m1 m' (live ps1 - {?x, ?y})"
      "\<forall>i < n. load_byte m' (p + i) = load_byte m1 (ptr + i)"
    have k: "contents_kept m m' (live ps - {?x})"
      by (rule contents_kept_trans [OF used_kept_contents [OF I uk] mv(8)]) (use lv in auto)
    have "load_byte m1 (ptr + i) = load_byte m (ptr + i)" if "i < n" for i
      using that n(1) same by (intro bytes_kept [OF used_entry(9) [OF I e], of "b + z"]) simp_all
    then have "\<forall>i < n. load_byte m' (p + i) = load_byte m (ptr + i)" using mv(9) by simp
    moreover have "live ps' = insert ?y (live ps - {?x})" using mv(5) lv(1) ne by auto
    ultimately show thesis using mv(1-3) inner_step [OF F1 mv(4,6,7)] k lv(2)
      by (intro that [of m2 "f1\<lparr>tlsf_of := t'\<rparr>" m' ps']) (simp_all add: flex_deallocate_def flex_deallocate_unknown_align_def)
  qed
qed

lemma flex_reallocate_cases:
  fixes f :: "('x, 'f::len word, 's::len word) flex"
  assumes F: "flex_inv c S R f m ps As" and x: "(ptr, lalign l, sz) \<in> live ps" and L: "layout_ok l"
  obtains "realloc_panics c S f m ptr l" and "flex_reallocate c S f m ptr l = None"
  | r f' m' ps' As' where "\<not> realloc_panics c S f m ptr l" and "flex_reallocate c S f m ptr l = Some (r, f', m')"
    and "flex_inv c S R f' m' ps' As'" and "resized m ps ptr (lalign l) sz l r m' ps'"
proof -
  have I: "tlsf_inv c (tlsf_of f) m ps" using F by (simp add: flex_inv_def)
  obtain b z q where e: "(b, z, Used ptr (lalign l) sz, q) \<in> set (all_entries ps)" using x live_entry by metis
  note lk = lookup_known [OF I e]
  have so: "size_of_allocation m ptr (lalign l) = Some (b + z - ptr)"
    using payload_size_ok [OF I e] lk by (simp add: size_of_allocation_def)
  obtain n where n: "size_of_allocation m ptr (lalign l) = Some n" "sz \<le> n"
      "reallocate c (tlsf_of f) m ptr l = Some (None, tlsf_of f, m) \<and> n \<le> lsize l \<or>
       (\<exists>p t' m'. reallocate c (tlsf_of f) m ptr l = Some (Some p, t', m') \<and> reallocated c m ps ptr sz n l p t' m')"
    by (rule reallocate_live [OF I x L])
  have nz: "ptr + n \<le> b + z" using n(1) so used_entry(12) [OF I e] by simp
  from n(3) show thesis
  proof (elim disjE exE conjE)
    fix p t' m' assume r: "reallocate c (tlsf_of f) m ptr l = Some (Some p, t', m')" and R1: "reallocated c m ps ptr sz n l p t' m'"
    then obtain ps' where p: "spans ps' = spans ps" "tlsf_inv c t' m' ps'" "live ps' = insert (p, lalign l, lsize l) (live ps - {(ptr, lalign l, sz)})"
      and un: "untouched m m' ps" unfolding reallocated_def by blast
    have "resized m ps ptr (lalign l) sz l (Some p) m' ps'" using R1 n(2) p(3) unfolding reallocated_def resized_def by simp
    then show thesis using n(1) r inner_step [OF F p(2,1) un] by (intro that(2)) (simp_all add: flex_reallocate_def realloc_panics_def)
  next
    assume none: "reallocate c (tlsf_of f) m ptr l = Some (None, tlsf_of f, m)" and le: "n \<le> lsize l"
    then have rp: "realloc_panics c S f m ptr l \<longleftrightarrow> alloc_panics c S f m l" by (simp add: realloc_panics_def)
    have f: "f\<lparr>tlsf_of := tlsf_of f\<rparr> = f" by simp
    show thesis
    proof (rule flex_allocate_cases [OF F L])
      assume "alloc_panics c S f m l" "flex_allocate c S f m l = None"
      then show thesis using n(1) none rp by (intro that(1)) (simp_all add: flex_reallocate_def f)
    next
      fix r f1 m1 ps1 As1 assume np: "\<not> alloc_panics c S f m l" and a: "flex_allocate c S f m l = Some (r, f1, m1)"
        "flex_inv c S R f1 m1 ps1 As1" "new_live m ps l r m1 ps1"
      show thesis
      proof (cases r)
        case None
        then have "resized m ps ptr (lalign l) sz l r m1 ps1" using a(3) used_kept_contents [OF I, of m1 ps1] by (simp add: resized_def new_live_def)
        then show thesis using n(1) none None a(1,2) np rp by (intro that(2)) (simp_all add: flex_reallocate_def f)
      next
        case (Some p)
        show thesis
        proof (rule flex_move [OF F e a(2) a(3) [unfolded Some] nz le])
          fix m2 f' m' ps' assume v: "copy_nonoverlapping m1 ptr p n = Some m2" "flex_deallocate c f1 m2 ptr (lalign l) = Some (f', m')"
            "flex_inv c S R f' m' ps' As1" "live ps' = insert (p, lalign l, lsize l) (live ps - {(ptr, lalign l, sz)})"
            "(p, lalign l, lsize l) \<notin> live ps" "contents_kept m m' (live ps - {(ptr, lalign l, sz)})"
            "\<forall>i < n. load_byte m' (p + i) = load_byte m (ptr + i)"
          have "resized m ps ptr (lalign l) sz l (Some p) m' ps'" using v(4-7) n(2) by (simp add: resized_def)
          then show thesis using n(1) none Some a(1) v(1-3) le np rp by (intro that(2)) (simp_all add: flex_reallocate_def f)
        qed
      qed
    qed
  qed
qed

section \<open>Drop\<close>

lemma drop_loop_ok:
  assumes sup: "src_supports_dealloc S" and "R x m (set As)" and "blocks_ok S m As" and "footers S m ps As"
  obtains x' m' where "drop_loop S x m (case As of [] \<Rightarrow> None | b # _ \<Rightarrow> Some b) = Some (x', m')" and "R x' m' {}"
  using assms(2-4)
proof (induction As arbitrary: x m thesis)
  case Nil
  then show ?case by (simp add: drop_loop.simps)
next
  case (Cons b Bs)
  have ft: "read_prev_alloc m (get_for_alloc b (src_min_align S)) = Some (case Bs of [] \<Rightarrow> None | b # _ \<Rightarrow> Some b)" "footers S m ps Bs"
    using Cons.prems(4) by (simp_all add: ftr_addr_def)
  obtain x1 m1 where d: "src_dealloc S x m b = Some (x1, m1)" "agree m m1 (set (b # Bs) - {b})" "R x1 m1 (set (b # Bs) - {b})"
    using dealloc_law [OF sup Cons.prems(2), of b] by auto
  have rest: "set (b # Bs) - {b} = set Bs" using Cons.prems(3) by (auto simp: blocks_ok_def)
  have B1: "blocks_ok S m1 Bs"
    using blocks_ok_tl [OF Cons.prems(3)] d(2) unfolding rest by (auto simp: blocks_ok_def mapped_blk_def agree_def)
  have F1: "footers S m1 ps Bs" by (rule footers_frame [OF ft(2)]) (use d(2) [unfolded rest] in \<open>auto simp: agree_def\<close>)
  obtain x' m' where "drop_loop S x1 m1 (case Bs of [] \<Rightarrow> None | b # _ \<Rightarrow> Some b) = Some (x', m')" "R x' m' {}"
    by (rule Cons.IH [OF _ d(3) [unfolded rest] B1 F1])
  then show ?case using ft(1) d(1) by (intro Cons.prems(1) [of x' m']) (simp_all add: drop_loop.simps [of S x m])
qed

lemma flex_drop_ok:
  fixes f :: "('x, 'f::len word, 's::len word) flex"
  assumes F: "flex_inv c S R f m ps As"
  shows "if src_supports_dealloc S then \<exists>x' m'. flex_drop S f m = Some (x', m') \<and> R x' m' {} else flex_drop S f m = Some (source f, m)"
proof (cases "src_supports_dealloc S")
  case True
  have f: "R (source f) m (set As)" "blocks_ok S m As" "footers S m ps As" using F True by (simp_all add: flex_inv_def)
  obtain x' m' where "drop_loop S (source f) m (case As of [] \<Rightarrow> None | b # _ \<Rightarrow> Some b) = Some (x', m')" "R x' m' {}"
    by (rule drop_loop_ok [OF True f])
  then show ?thesis using True prev_of_growable [OF F True] by (simp add: flex_drop_def use_growable_pool_def)
qed (simp add: flex_drop_def)

end

section \<open>Sources that never make the assertion fail\<close>

text \<open>Beyond the contract of the trait: an extension that is asked to end at a granule ends at one, and pools have no
  maximum size where blocks are extended.\<close>

locale flex_allocator = flex_source S R for S :: "'x FlexSource" and R :: "'x \<Rightarrow> mem \<Rightarrow> (usize \<times> usize) set \<Rightarrow> bool" +
  fixes c :: cfg
  assumes exact_law: "R x m A \<Longrightarrow> blk \<in> A \<Longrightarrow> snd blk \<le> n \<Longrightarrow> n < USIZE_LIM \<Longrightarrow> GRANULARITY dvd fst blk + n \<Longrightarrow>
    src_realloc_inplace_grow S x m blk n = Some (Some k, x', m') \<Longrightarrow> MAX_POOL_SIZE c = None \<and> GRANULARITY dvd fst blk + k"
begin

lemma no_underflow:
  fixes f :: "('x, 'f::len word, 's::len word) flex"
  assumes F: "flex_inv c S R f m ps As" and L: "layout_ok l"
  shows "\<not> increase_underflows c S f m l"
proof
  assume u: "increase_underflows c S f m l"
  have I: "tlsf_inv c (tlsf_of f) m ps" and RA: "R (source f) m (set As)" using F by (simp_all add: flex_inv_def)
  note cfg = inv_cfg_ok [OF I]
  obtain n g where n: "pool_size_to_contain_allocation c l = Some (Some n)" and g: "growable_pool f = Some g" "use_growable_pool S"
    and gu: "grow_underflows c S (source f) m g n"
    using u by (auto simp: increase_underflows_def split: option.splits if_splits)
  have n32: "32 dvd n" "64 \<le> n" using pool_size_total [OF L cfg] n by force+
  obtain k x' m' where k: "pool_len g + n < USIZE_LIM" "appended c (k - pool_len g) \<noteq> k - pool_len g"
      "src_realloc_inplace_grow S (source f) m (alloc_start g, alloc_len g) (pool_len g + n) = Some (Some k, x', m')"
    using gu by (auto simp: grow_underflows_def split: option.splits)
  obtain Bs where gf: "As = (alloc_start g, alloc_len g) # Bs" "alloc_len g < pool_len g + 64" "alloc_start g + pool_len g \<in> pool_ends ps"
    using growable_facts [OF F g] by metis
  have blk: "(alloc_start g, alloc_len g) \<in> set As" "snd (alloc_start g, alloc_len g) \<le> pool_len g + n" using gf n32 by simp_all
  have P: "32 dvd alloc_start g + pool_len g" by (rule pool_ends_dvd [OF inv_pools_ok [OF I] gf(3)])
  then have "GRANULARITY dvd fst (alloc_start g, alloc_len g) + (pool_len g + n)" using n32(1) by (simp flip: add.assoc)
  note ex = exact_law [OF RA blk k(1) this k(3)]
  have le: "pool_len g + n \<le> k" using grow_law [OF RA blk k(1)] k(3) by auto
  have "32 dvd (alloc_start g + k) - (alloc_start g + pool_len g)" using ex P by (intro dvd_diff_nat) simp_all
  then have "32 dvd k - pool_len g" by simp
  moreover have "64 \<le> k - pool_len g" using le n32(2) by linarith
  ultimately show False using appended_facts(5) [OF cfg] ex k(2) by blast
qed

lemma no_panic:
  fixes f :: "('x, 'f::len word, 's::len word) flex"
  assumes "flex_inv c S R f m ps As" and "layout_ok l"
  shows "\<not> alloc_panics c S f m l" and "\<not> realloc_panics c S f m ptr l"
  using no_underflow [OF assms] by (auto simp: alloc_panics_def realloc_panics_def split: option.splits)

lemma flex_allocate_ok:
  fixes f :: "('x, 'f::len word, 's::len word) flex"
  assumes F: "flex_inv c S R f m ps As" and L: "layout_ok l"
  obtains r f' m' ps' As' where "flex_allocate c S f m l = Some (r, f', m')" and "flex_inv c S R f' m' ps' As'"
    and "new_live m ps l r m' ps'"
  by (rule flex_allocate_cases [OF F L]) (use no_panic(1) [OF F L] that in blast)+

lemma flex_allocate_served:
  fixes f :: "('x, 'f::len word, 's::len word) flex"
  assumes F: "flex_inv c S R f m ps As" and L: "layout_ok l" and served: "\<not> unserved c S f m l"
  obtains p f' m' ps' As' where "flex_allocate c S f m l = Some (Some p, f', m')" and "flex_inv c S R f' m' ps' As'"
    and "new_live m ps l (Some p) m' ps'"
  by (rule flex_allocate_cases [OF F L]) (use no_panic(1) [OF F L] served that in \<open>metis not_Some_eq\<close>)+

lemma flex_reallocate_ok:
  fixes f :: "('x, 'f::len word, 's::len word) flex"
  assumes F: "flex_inv c S R f m ps As" and x: "(ptr, lalign l, sz) \<in> live ps" and L: "layout_ok l"
  obtains r f' m' ps' As' where "flex_reallocate c S f m ptr l = Some (r, f', m')" and "flex_inv c S R f' m' ps' As'"
    and "resized m ps ptr (lalign l) sz l r m' ps'"
  by (rule flex_reallocate_cases [OF F x L]) (use no_panic(2) [OF F L] that in blast)+

end

text \<open>A source without extensions, or with blocks that are granular in address and length, is of this kind.\<close>

lemma granular_allocator:
  assumes S: "flex_source S R" and x: "src_supports_realloc_inplace_grow S \<Longrightarrow> MAX_POOL_SIZE c = None \<and> GRANULARITY \<le> src_min_align S"
  shows "flex_allocator S R c"
proof (rule flex_allocator.intro [OF S], unfold_locales)
  fix x m A blk n k x' m'
  assume a: "R x m A" "blk \<in> A" "snd blk \<le> n" "n < USIZE_LIM" "src_realloc_inplace_grow S x m blk n = Some (Some k, x', m')"
  have g: "src_supports_realloc_inplace_grow S" "block_ok S (fst blk, k)" using flex_source.grow_law [OF S a(1-4)] a(5) by auto
  then have "32 dvd fst blk" "32 dvd k" using flex_source.min_align_dvd(2) [OF S g(2)] assms(2) by (simp_all add: block_ok_def)
  then show "MAX_POOL_SIZE c = None \<and> GRANULARITY dvd fst blk + k" using assms(2) [OF g(1)] by simp
qed

section \<open>The operations for clients\<close>

lemma flex_new_inv:
  assumes "cfg_ok c" "FLLEN c \<le> LENGTH('f)" "SLLEN c \<le> LENGTH('s)" and "R src m {}"
  shows "flex_inv c S R (flex_new c src :: ('x, 'f::len word, 's::len word) flex) m [] []"
  using tlsf_new_inv [OF assms(1-3)] assms(4) by (simp add: flex_inv_def flex_new_def blocks_ok_def pool_bytes_def)

text \<open>C13: \<open>FlexTlsf::allocate\<close> over any source that keeps the contract of \<open>FlexSource\<close>, whether the inner allocator has
  room, the growable pool is extended or a new pool is acquired. It panics exactly when the pool was extended and not
  all of the extension became part of the pool, by the subtraction in a debug assertion. Otherwise it returns; in
  particular the second attempt never fails. A success is an aligned allocation inside the blocks acquired and apart
  from all live ones; in every case their contents are kept and the invariant holds again.\<close>

theorem flex_allocate_spec:
  fixes f :: "('x, 'f::len word, 's::len word) flex"
  assumes A: "flex_source S R" and F: "flex_inv c S R f m ps As" and L: "layout_ok l"
  shows "if alloc_panics c S f m l then flex_allocate c S f m l = None
    else \<exists>r f' m' ps' As'. flex_allocate c S f m l = Some (r, f', m') \<and> flex_inv c S R f' m' ps' As' \<and> contents_kept m m' (live ps) \<and>
    (case r of None \<Rightarrow> live ps' = live ps
     | Some p \<Rightarrow> live ps' = insert (p, lalign l, lsize l) (live ps) \<and> lalign l dvd p \<and>
         {p ..< p + lsize l} \<subseteq> \<Union>(blk_range ` set As') \<and> (\<forall>x. x \<in> live ps \<longrightarrow> separate (p, lalign l, lsize l) x))"
proof (rule flex_source.flex_allocate_cases [OF A F L])
  assume "alloc_panics c S f m l" "flex_allocate c S f m l = None"
  then show ?thesis by simp
next
  fix r f' m' ps' As' assume np: "\<not> alloc_panics c S f m l" and a: "flex_allocate c S f m l = Some (r, f', m')" "flex_inv c S R f' m' ps' As'"
    "new_live m ps l r m' ps'"
  have I: "tlsf_inv c (tlsf_of f) m ps" and I': "tlsf_inv c (tlsf_of f') m' ps'" and sub: "pool_bytes ps' \<subseteq> \<Union>(blk_range ` set As')"
    using F a(2) by (simp_all add: flex_inv_def)
  have k: "contents_kept m m' (live ps)" using a(3) used_kept_contents [OF I, of m' ps'] by (simp add: new_live_def)
  have "case r of None \<Rightarrow> live ps' = live ps
     | Some p \<Rightarrow> live ps' = insert (p, lalign l, lsize l) (live ps) \<and> lalign l dvd p \<and>
         {p ..< p + lsize l} \<subseteq> \<Union>(blk_range ` set As') \<and> (\<forall>x. x \<in> live ps \<longrightarrow> separate (p, lalign l, lsize l) x)"
  proof (cases r)
    case None
    then show ?thesis using a(3) by (simp add: new_live_def)
  next
    case (Some p)
    have lv: "live ps' = insert (p, lalign l, lsize l) (live ps)" "(p, lalign l, lsize l) \<notin> live ps"
      using a(3) Some by (simp_all add: new_live_def)
    have x: "(p, lalign l, lsize l) \<in> live ps'" using lv(1) by simp
    have "separate (p, lalign l, lsize l) y" if "y \<in> live ps" for y using lv that by (intro live_separate [OF I' x]) auto
    moreover have "{p ..< p + lsize l} \<subseteq> \<Union>(blk_range ` set As')" using live_in_pools(2) [OF I' x] sub by blast
    ultimately show ?thesis using lv(1) live_in_pools(1) [OF I' x] Some by simp
  qed
  then show ?thesis using np a(1,2) k by auto
qed

text \<open>C17: when \<open>FlexTlsf::allocate\<close> returns \<open>None\<close>. The inner allocator has no room; and no free list starts with a size as
  large as the search needs, or the new length of the growable pool or of a new block overflows, or the source, asked
  for the pool size computed, refuses to extend the pool and (unless it grows one contiguous region) to allocate a block.\<close>

theorem flex_allocate_None_iff:
  fixes f :: "('x, 'f::len word, 's::len word) flex"
  assumes A: "flex_source S R" and F: "flex_inv c S R f m ps As" and L: "layout_ok l"
  shows "(\<exists>f' m'. flex_allocate c S f m l = Some (None, f', m')) \<longleftrightarrow>
    (\<exists>t' m'. allocate c (tlsf_of f) m l = Some (None, t', m')) \<and> unserved c S f m l"
proof (rule flex_source.flex_allocate_cases [OF A F L])
  assume p: "alloc_panics c S f m l" "flex_allocate c S f m l = None" "allocate c (tlsf_of f) m l = Some (None, tlsf_of f, m)"
  have "cfg_ok c" using F inv_cfg_ok by (auto simp: flex_inv_def)
  then show ?thesis using p underflow_served [OF _ L] by (simp add: alloc_panics_def)
next
  fix r f' m' assume a: "flex_allocate c S f m l = Some (r, f', m')" "r = None \<longleftrightarrow> allocate c (tlsf_of f) m l = Some (None, tlsf_of f, m) \<and> unserved c S f m l"
  have "allocate c (tlsf_of f) m l = Some (None, t', m') \<Longrightarrow> t' = tlsf_of f \<and> m' = m" for t' m'
    by (rule flex_source.inner_allocate [OF A F L]) simp_all
  then show ?thesis using a by auto
qed

text \<open>C15: \<open>FlexTlsf::deallocate\<close> of a live allocation never faults, with the alignment or without it, and
  exactly that allocation disappears.\<close>

theorem flex_deallocate_spec:
  fixes f :: "('x, 'f::len word, 's::len word) flex"
  assumes A: "flex_source S R" and F: "flex_inv c S R f m ps As" and x: "(ptr, al, sz) \<in> live ps"
  shows "\<exists>f' m' ps'. flex_deallocate c f m ptr al = Some (f', m') \<and> flex_deallocate_unknown_align c f m ptr = Some (f', m') \<and>
    flex_inv c S R f' m' ps' As \<and> live ps' = live ps - {(ptr, al, sz)} \<and> contents_kept m m' (live ps - {(ptr, al, sz)})"
  by (rule flex_source.flex_deallocate_ok [OF A F x]) blast

text \<open>C14: \<open>FlexTlsf::reallocate\<close> of a live allocation, with the alignment it was made with, over any source that keeps
  the contract of \<open>FlexSource\<close>. It panics exactly when the inner allocator cannot reallocate and the allocation that
  replaces it panics (see \<open>flex_allocate_spec\<close>). Otherwise it returns: on failure the allocations and their contents are
  kept; on success the allocation is replaced by one of the new size, which holds the bytes of the old one as far as
  both reach.\<close>

theorem flex_reallocate_spec:
  fixes f :: "('x, 'f::len word, 's::len word) flex"
  assumes A: "flex_source S R" and F: "flex_inv c S R f m ps As" and x: "(ptr, lalign l, sz) \<in> live ps" and L: "layout_ok l"
  shows "if realloc_panics c S f m ptr l then flex_reallocate c S f m ptr l = None
    else \<exists>r f' m' ps' As'. flex_reallocate c S f m ptr l = Some (r, f', m') \<and> flex_inv c S R f' m' ps' As' \<and>
    (case r of None \<Rightarrow> live ps' = live ps \<and> contents_kept m m' (live ps)
     | Some p \<Rightarrow> live ps' = insert (p, lalign l, lsize l) (live ps - {(ptr, lalign l, sz)}) \<and>
         (p, lalign l, lsize l) \<notin> live ps - {(ptr, lalign l, sz)} \<and> contents_kept m m' (live ps - {(ptr, lalign l, sz)}) \<and>
         (\<forall>i < min sz (lsize l). load_byte m' (p + i) = load_byte m (ptr + i)))"
proof (rule flex_source.flex_reallocate_cases [OF A F x L, unfolded resized_def])
  assume "realloc_panics c S f m ptr l" "flex_reallocate c S f m ptr l = None"
  then show ?thesis by simp
next
  fix r f' m' ps' As' assume "\<not> realloc_panics c S f m ptr l" "flex_reallocate c S f m ptr l = Some (r, f', m')" "flex_inv c S R f' m' ps' As'"
    "case r of None \<Rightarrow> live ps' = live ps \<and> contents_kept m m' (live ps)
     | Some p \<Rightarrow> live ps' = insert (p, lalign l, lsize l) (live ps - {(ptr, lalign l, sz)}) \<and>
         (p, lalign l, lsize l) \<notin> live ps - {(ptr, lalign l, sz)} \<and> contents_kept m m' (live ps - {(ptr, lalign l, sz)}) \<and>
         (\<forall>i < min sz (lsize l). load_byte m' (p + i) = load_byte m (ptr + i))"
  then show ?thesis unfolding if_not_P [OF \<open>\<not> realloc_panics c S f m ptr l\<close>] by (intro exI conjI)
qed

text \<open>C16: dropping a \<open>FlexTlsf\<close> whose source supports deallocation terminates without a fault and returns every
  block to the source, each exactly once; otherwise nothing is done.\<close>

theorem flex_drop_spec:
  fixes f :: "('x, 'f::len word, 's::len word) flex"
  assumes A: "flex_source S R" and F: "flex_inv c S R f m ps As"
  shows "if src_supports_dealloc S then \<exists>x' m'. flex_drop S f m = Some (x', m') \<and> R x' m' {} else flex_drop S f m = Some (source f, m)"
  by (rule flex_source.flex_drop_ok [OF A F])

section \<open>A source that extends its last block\<close>

text \<open>One region that grows, without an alignment, as the source of the crate's tests; it keeps a list of its blocks and
  takes them back. An extension is longer than asked for by \<open>slack\<close>.\<close>

type_synonym arena_state = "usize \<times> (usize \<times> usize) list"

definition arena :: "bool \<Rightarrow> usize \<Rightarrow> arena_state FlexSource" where
  "arena dealloc slack = \<lparr>
     src_alloc = (\<lambda>(brk, bs) m n. if brk + n \<le> 2 ^ 40
       then Some (Some (brk, n), (brk + n, (brk, n) # bs), \<lambda>y. if brk \<le> y \<and> y < brk + n then Some 0 else m y)
       else Some (None, (brk, bs), m)),
     src_realloc_inplace_grow = (\<lambda>(brk, bs) m blk n. if fst blk + snd blk = brk \<and> fst blk + n + slack \<le> 2 ^ 40
       then Some (Some (n + slack), (fst blk + n + slack, (fst blk, n + slack) # removeAll blk bs),
         \<lambda>y. if brk \<le> y \<and> y < fst blk + n + slack then Some 0 else m y)
       else Some (None, (brk, bs), m)),
     src_dealloc = (\<lambda>(brk, bs) m blk. if blk \<in> set bs then Some ((brk, removeAll blk bs), m) else None),
     src_supports_dealloc = dealloc,
     src_supports_realloc_inplace_grow = True,
     src_is_contiguous_growable = False,
     src_min_align = 1\<rparr>"

definition arena_ok :: "arena_state \<Rightarrow> mem \<Rightarrow> (usize \<times> usize) set \<Rightarrow> bool" where
  "arena_ok x m A \<longleftrightarrow> A = set (snd x) \<and> 0 < fst x \<and>
     (\<forall>b \<in> A. 0 < fst b \<and> 0 < snd b \<and> fst b + snd b \<le> fst x \<and> mapped_blk m b \<and> apart b (A - {b}))"

lemma apart_insert: "apart a A \<Longrightarrow> (d \<in> A \<Longrightarrow> apart d (A - {d})) \<Longrightarrow> d \<in> insert a A \<Longrightarrow> apart d (insert a A - {d})"
  unfolding apart_def by blast

interpretation arena: flex_source "arena dealloc slack" arena_ok for dealloc slack
proof
  show "is_power_of_two (src_min_align (arena dealloc slack))" by (simp add: arena_def is_power_of_two_def)
next
  fix x :: arena_state and m A and n :: usize assume q: "arena_ok x m A" and n: "0 < n"
  obtain brk bs where x: "x = (brk, bs)" by (cases x)
  have A: "A = set bs" "0 < brk" and b: "\<And>b. b \<in> A \<Longrightarrow> 0 < fst b \<and> 0 < snd b \<and> fst b + snd b \<le> brk \<and> mapped_blk m b \<and> apart b (A - {b})"
    using q by (auto simp: arena_ok_def x)
  let ?m = "\<lambda>y. if brk \<le> y \<and> y < brk + n then Some 0 else m y"
  have ag: "agree m ?m A" using b by (fastforce simp: agree_def blk_range_def)
  have ap: "apart (brk, n) A" using b by (fastforce simp: apart_def blk_range_def)
  have mono: "mapped_blk m d \<Longrightarrow> mapped_blk ?m d" for d by (simp add: mapped_blk_def)
  have mp: "mapped_blk ?m (brk, n)" by (simp add: mapped_blk_def blk_range_def)
  have "arena_ok (brk + n, (brk, n) # bs) ?m (insert (brk, n) A)" unfolding arena_ok_def
  proof (intro conjI ballI)
    fix d assume d: "d \<in> insert (brk, n) A"
    show "mapped_blk ?m d" using d b [of d] mono [of d] mp by blast
    show "apart d (insert (brk, n) A - {d})" by (rule apart_insert [OF ap _ d]) (use b [of d] in blast)
    show "0 < fst d" "0 < snd d" "fst d + snd d \<le> fst (brk + n, (brk, n) # bs)" using d b [of d] A(2) n by auto
  qed (simp_all add: A)
  moreover note mp
  ultimately show "\<exists>r x' m'. src_alloc (arena dealloc slack) x m n = Some (r, x', m') \<and> agree m m' A \<and>
      (case r of None \<Rightarrow> arena_ok x' m' A
       | Some blk \<Rightarrow> n \<le> snd blk \<and> block_ok (arena dealloc slack) blk \<and> mapped_blk m' blk \<and> apart blk A \<and> arena_ok x' m' (insert blk A))"
    using ag ap q A(2) by (cases "brk + n \<le> 2 ^ 40") (auto simp: arena_def x block_ok_def USIZE_LIM_def agree_def)
next
  fix x :: arena_state and m A blk and n :: usize assume q: "arena_ok x m A" and blk: "blk \<in> A" "snd blk \<le> n"
  obtain brk bs where x: "x = (brk, bs)" by (cases x)
  have A: "A = set bs" "0 < brk" and b: "\<And>b. b \<in> A \<Longrightarrow> 0 < fst b \<and> 0 < snd b \<and> fst b + snd b \<le> brk \<and> mapped_blk m b \<and> apart b (A - {b})"
    using q by (auto simp: arena_ok_def x)
  let ?k = "n + slack"
  let ?m = "\<lambda>y. if brk \<le> y \<and> y < fst blk + n + slack then Some 0 else m y" and ?A = "insert (fst blk, ?k) (A - {blk})"
  have ag: "agree m ?m A" using b by (fastforce simp: agree_def blk_range_def)
  have ap: "apart (fst blk, ?k) (A - {blk})" if brk: "fst blk + snd blk = brk"
  proof -
    have "y \<notin> blk_range d" if "d \<in> A - {blk}" "y \<in> blk_range (fst blk, ?k)" for d y
    proof
      assume y: "y \<in> blk_range d"
      then have "y \<in> blk_range blk" using b [of d] that brk by (simp add: blk_range_def)
      moreover have "blk_range blk \<inter> blk_range d = {}" using b [OF blk(1)] that(1) by (simp add: apart_def)
      ultimately show False using y by blast
    qed
    then show ?thesis by (auto simp: apart_def)
  qed
  have mono: "mapped_blk m d \<Longrightarrow> mapped_blk ?m d" for d by (simp add: mapped_blk_def)
  have mp: "mapped_blk ?m (fst blk, ?k)" if "fst blk + snd blk = brk"
    using b [OF blk(1)] that by (auto simp: mapped_blk_def blk_range_def)
  have "arena_ok (fst blk + n + slack, (fst blk, ?k) # removeAll blk bs) ?m ?A" if brk: "fst blk + snd blk = brk"
    unfolding arena_ok_def
  proof (intro conjI ballI)
    fix d assume d: "d \<in> ?A"
    show "mapped_blk ?m d" using d b [of d] mono [of d] mp [OF brk] by blast
    show "apart d (?A - {d})" by (rule apart_insert [OF ap [OF brk] _ d]) (use b [of d] in \<open>auto simp: apart_def\<close>)
    show "0 < fst d" "0 < snd d" using d b [of d] b [OF blk(1)] blk(2) by auto
    show "fst d + snd d \<le> fst (fst blk + n + slack, (fst blk, ?k) # removeAll blk bs)" using d b [of d] brk blk(2) by auto
  qed (use b [OF blk(1)] A in auto)
  then show "\<exists>r x' m'. src_realloc_inplace_grow (arena dealloc slack) x m blk n = Some (r, x', m') \<and> agree m m' A \<and>
      (case r of None \<Rightarrow> arena_ok x' m' A
       | Some k \<Rightarrow> src_supports_realloc_inplace_grow (arena dealloc slack) \<and> n \<le> k \<and> block_ok (arena dealloc slack) (fst blk, k) \<and>
           mapped_blk m' (fst blk, k) \<and> apart (fst blk, k) (A - {blk}) \<and> arena_ok x' m' (insert (fst blk, k) (A - {blk})))"
    using ag ap mp q b [OF blk(1)] by (cases "fst blk + snd blk = brk \<and> fst blk + n + slack \<le> 2 ^ 40")
      (auto simp: arena_def x block_ok_def USIZE_LIM_def agree_def add.assoc)
next
  fix x :: arena_state and m A blk assume q: "arena_ok x m A" and blk: "blk \<in> A"
  then show "\<exists>x' m'. src_dealloc (arena dealloc slack) x m blk = Some (x', m') \<and> agree m m' (A - {blk}) \<and> arena_ok x' m' (A - {blk})"
    by (cases x) (auto simp: arena_def arena_ok_def agree_def apart_def)
next
  fix x :: arena_state and m m' :: mem and A assume "arena_ok x m A" "dom m' = dom m"
  then show "arena_ok x m' A" using mapped_dom unfolding arena_ok_def by blast
qed

section \<open>Examples\<close>

lemma demo_start: "list_start demo_cfg 16384"
  unfolding list_start_def by (intro exI [of _ 9] exI [of _ 0]) (simp add: demo_lens list_min_def)

definition big_layout :: layout where
  "big_layout = \<lparr>lsize = 8192, lalign = 64\<rparr>"

lemma big_layout_ok: "layout_ok big_layout"
  using is_power_of_two_pow2 [of 6] by (simp add: layout_ok_def ISIZE_MAX_def USIZE_LIM_def big_layout_def)

lemma big_not_too_large: "\<not> too_large demo_cfg big_layout"
proof -
  have "search_size big_layout \<le> 16384" by (simp add: search_size_def big_layout_def round_up_def)
  then show ?thesis using demo_start unfolding too_large_def USIZE_LIM_def by fastforce
qed

text \<open>A state whose pool is full of no more than 4096 bytes and can be extended.\<close>

definition arena_pool :: flex_pool where
  "arena_pool = \<lparr>alloc_start = 4096, alloc_len = 4096, pool_len = 4096\<rparr>"

lemma arena_used:
  obtains f :: "(arena_state, 16 word, 16 word) flex" and m ps ptr where
    "flex_inv demo_cfg (arena False slack) arena_ok f m ps [(4096, 4096)]" and "(ptr, 64, 100) \<in> live ps"
    and "growable_pool f = Some arena_pool" and "source f = (8192, [(4096, 4096)])"
proof -
  obtain t :: "(16 word, 16 word) tlsf" and m ps ptr where d: "tlsf_inv demo_cfg t m ps" "(ptr, 64, 100) \<in> live ps" "pool_bytes ps = {4096 ..< 8192}"
      "spans ps = [(4096, 4096)]"
    using demo_used by blast
  have "m a \<noteq> None" if "a \<in> pool_bytes ps" "8 dvd a" for a using d(1) that by (fastforce simp: tlsf_inv_def pools_mapped_def pool_bytes_def)
  then have "mapped_blk m (4096, 4096)" by (simp add: mapped_blk_def blk_range_def d(3))
  then have "flex_inv demo_cfg (arena False slack) arena_ok \<lparr>growable_pool = Some arena_pool, source = (8192, [(4096, 4096)]), tlsf_of = t\<rparr> m ps [(4096, 4096)]"
    using d by (simp add: flex_inv_def blocks_ok_def block_ok_def blk_range_def apart_def arena_def use_growable_pool_def USIZE_LIM_def
        arena_ok_def arena_pool_def pool_ends_def)
  then show thesis using d(2) by (rule that) (rule flex.select_convs)+
qed

lemma arena_full:
  fixes f :: "(arena_state, 16 word, 16 word) flex"
  assumes F: "flex_inv demo_cfg (arena False slack) arena_ok f m ps [(4096, 4096)]"
  shows "allocate demo_cfg (tlsf_of f) m big_layout = Some (None, tlsf_of f, m)"
proof (rule arena.inner_allocate [OF F big_layout_ok])
  fix p t' m' ps' assume a: "flex_inv demo_cfg (arena False slack) arena_ok (f\<lparr>tlsf_of := t'\<rparr>) m' ps' [(4096, 4096)]"
    "new_live m ps big_layout (Some p) m' ps'"
  have I: "tlsf_inv demo_cfg t' m' ps'" and sub: "pool_bytes ps' \<subseteq> {4096 ..< 8192}" using a(1) by (simp_all add: flex_inv_def blk_range_def)
  have "(p, lalign big_layout, lsize big_layout) \<in> live ps'" using a(2) by (simp add: new_live_def)
  then have "{p ..< p + lsize big_layout} \<subseteq> {4096 ..< 8192}" using live_in_pools(2) [OF I] sub by blast
  then have "p \<in> {4096 ..< 8192}" "p + 8191 \<in> {4096 ..< 8192}" by (auto simp: big_layout_def subset_iff)
  then show ?thesis by simp
qed simp

lemma arena_extends:
  fixes f :: "(arena_state, 16 word, 16 word) flex"
  assumes F: "flex_inv demo_cfg (arena False slack) arena_ok f m ps [(4096, 4096)]" and g: "growable_pool f = Some arena_pool"
    and s: "source f = (8192, [(4096, 4096)])" and sl: "slack < 32"
  shows "alloc_panics demo_cfg (arena False slack) f m big_layout \<longleftrightarrow> slack \<noteq> 0" and "\<not> unserved demo_cfg (arena False slack) f m big_layout"
proof -
  obtain n where n: "pool_size_to_contain_allocation demo_cfg big_layout = Some (Some n)" "32 dvd n" "64 \<le> n" "n < USIZE_LIM"
      "\<forall>mx. MAX_POOL_SIZE demo_cfg = Some mx \<longrightarrow> n \<le> mx"
  proof (rule pool_size_total [OF big_layout_ok demo_cfg_ok])
    assume "pool_size_to_contain_allocation demo_cfg big_layout = Some None"
    then show thesis using pool_size_too_large [OF big_layout_ok demo_cfg_ok] big_not_too_large by simp
  qed (rule that)
  have mx: "MAX_POOL_SIZE demo_cfg = Some (2 ^ 21)" using demo_lens by (simp add: MAX_POOL_SIZE_def demo_cfg_def USIZE_BITS_def)
  then have le: "n \<le> 2 ^ 21" using n(5) by simp
  have gr: "src_realloc_inplace_grow (arena False slack) (source f) m (4096, 4096) (4096 + n) =
      Some (Some (4096 + n + slack), (4096 + (4096 + n) + slack, [(4096, 4096 + n + slack)]), \<lambda>y. if 8192 \<le> y \<and> y < 4096 + (4096 + n) + slack then Some 0 else m y)"
    using le sl by (simp add: arena_def s)
  have lim: "4096 + n < USIZE_LIM" using le by (simp add: USIZE_LIM_def)
  have "appended demo_cfg (n + slack) = n"
  proof -
    have "(n + slack) div 32 * 32 = n" using n(2) sl by (auto elim!: dvdE)
    moreover have "left_over demo_cfg n = 0"
      using left_over_chunk [OF n(3), of demo_cfg] le mx by (simp add: chunk_size_def)
    ultimately show ?thesis by (simp add: appended_def)
  qed
  then show "alloc_panics demo_cfg (arena False slack) f m big_layout \<longleftrightarrow> slack \<noteq> 0"
    using arena_full [OF F] n(1) g lim gr
    by (simp add: alloc_panics_def increase_underflows_def grow_underflows_def use_growable_pool_def arena_pool_def arena_def)
  show "\<not> unserved demo_cfg (arena False slack) f m big_layout"
    using big_not_too_large n(1) g lim gr
    by (simp add: unserved_def grow_unserved_def use_growable_pool_def arena_pool_def arena_def)
qed

text \<open>The exact source is extended in place; the one that hands out more than asked for makes the assertion fail.\<close>

theorem flex_allocate_spec_witness:
  "(\<exists>(f :: (arena_state, 16 word, 16 word) flex) m ps. flex_inv demo_cfg (arena False 0) arena_ok f m ps [(4096, 4096)] \<and>
     (\<exists>r f' m'. flex_allocate demo_cfg (arena False 0) f m big_layout = Some (r, f', m') \<and> contents_kept m m' (live ps))) \<and>
   (\<exists>(f :: (arena_state, 16 word, 16 word) flex) m ps. flex_inv demo_cfg (arena False 8) arena_ok f m ps [(4096, 4096)] \<and>
     flex_allocate demo_cfg (arena False 8) f m big_layout = None)"
proof (rule conjI)
  obtain f :: "(arena_state, 16 word, 16 word) flex" and m ps ptr where F: "flex_inv demo_cfg (arena False 0) arena_ok f m ps [(4096, 4096)]"
      "growable_pool f = Some arena_pool" "source f = (8192, [(4096, 4096)])" by (rule arena_used)
  have "\<exists>r f' m'. flex_allocate demo_cfg (arena False 0) f m big_layout = Some (r, f', m') \<and> contents_kept m m' (live ps)"
    using flex_allocate_spec [OF arena.flex_source_axioms F(1) big_layout_ok] arena_extends(1) [OF F] by auto
  with F(1) show "\<exists>(f :: (arena_state, 16 word, 16 word) flex) m ps. flex_inv demo_cfg (arena False 0) arena_ok f m ps [(4096, 4096)] \<and>
     (\<exists>r f' m'. flex_allocate demo_cfg (arena False 0) f m big_layout = Some (r, f', m') \<and> contents_kept m m' (live ps))" by blast
next
  obtain f :: "(arena_state, 16 word, 16 word) flex" and m ps ptr where F: "flex_inv demo_cfg (arena False 8) arena_ok f m ps [(4096, 4096)]"
      "growable_pool f = Some arena_pool" "source f = (8192, [(4096, 4096)])" by (rule arena_used)
  have "flex_allocate demo_cfg (arena False 8) f m big_layout = None"
    using flex_allocate_spec [OF arena.flex_source_axioms F(1) big_layout_ok] arena_extends(1) [OF F] by simp
  with F(1) show "\<exists>(f :: (arena_state, 16 word, 16 word) flex) m ps. flex_inv demo_cfg (arena False 8) arena_ok f m ps [(4096, 4096)] \<and>
     flex_allocate demo_cfg (arena False 8) f m big_layout = None" by blast
qed

theorem flex_allocate_None_iff_witness:
  "\<exists>(f :: (arena_state, 16 word, 16 word) flex) m ps. flex_inv demo_cfg (arena False 0) arena_ok f m ps [(4096, 4096)] \<and>
     (\<exists>p f' m'. flex_allocate demo_cfg (arena False 0) f m big_layout = Some (Some p, f', m'))"
proof -
  obtain f :: "(arena_state, 16 word, 16 word) flex" and m ps ptr where F: "flex_inv demo_cfg (arena False 0) arena_ok f m ps [(4096, 4096)]"
      "growable_pool f = Some arena_pool" "source f = (8192, [(4096, 4096)])" by (rule arena_used)
  have "\<not> (\<exists>f' m'. flex_allocate demo_cfg (arena False 0) f m big_layout = Some (None, f', m'))"
    using flex_allocate_None_iff [OF arena.flex_source_axioms F(1) big_layout_ok] arena_extends(2) [OF F] by simp
  moreover have "flex_allocate demo_cfg (arena False 0) f m big_layout \<noteq> None"
    by (rule arena.flex_allocate_cases [OF F(1) big_layout_ok]) (use arena_extends(1) [OF F] in simp_all)
  ultimately show ?thesis using F(1) by (metis not_Some_eq surj_pair)
qed

theorem flex_deallocate_spec_witness:
  "\<exists>(f :: (arena_state, 16 word, 16 word) flex) m ps ptr f' m' ps'. flex_inv demo_cfg (arena False 0) arena_ok f m ps [(4096, 4096)] \<and>
    (ptr, 64, 100) \<in> live ps \<and> flex_deallocate demo_cfg f m ptr 64 = Some (f', m') \<and> live ps' = live ps - {(ptr, 64, 100)}"
proof -
  obtain f :: "(arena_state, 16 word, 16 word) flex" and m ps ptr where F: "flex_inv demo_cfg (arena False 0) arena_ok f m ps [(4096, 4096)]"
      "(ptr, 64, 100) \<in> live ps" by (rule arena_used)
  obtain f' m' ps' where "flex_deallocate demo_cfg f m ptr 64 = Some (f', m')" "live ps' = live ps - {(ptr, 64, 100)}"
    using flex_deallocate_spec [OF arena.flex_source_axioms F] by blast
  with F show ?thesis by blast
qed

theorem flex_reallocate_spec_witness:
  "\<exists>(f :: (arena_state, 16 word, 16 word) flex) m ps ptr r f' m'. flex_inv demo_cfg (arena False 0) arena_ok f m ps [(4096, 4096)] \<and>
    (ptr, 64, 100) \<in> live ps \<and> flex_reallocate demo_cfg (arena False 0) f m ptr big_layout = Some (r, f', m') \<and>
    (case r of None \<Rightarrow> True | Some p \<Rightarrow> \<forall>i < 100. load_byte m' (p + i) = load_byte m (ptr + i))"
proof -
  obtain f :: "(arena_state, 16 word, 16 word) flex" and m ps ptr where F: "flex_inv demo_cfg (arena False 0) arena_ok f m ps [(4096, 4096)]"
      "(ptr, 64, 100) \<in> live ps" "growable_pool f = Some arena_pool" "source f = (8192, [(4096, 4096)])" by (rule arena_used)
  have x: "(ptr, lalign big_layout, 100) \<in> live ps" using F(2) by (simp add: big_layout_def)
  have np: "\<not> realloc_panics demo_cfg (arena False 0) f m ptr big_layout"
    using arena_extends(1) [OF F(1,3,4)] by (simp add: realloc_panics_def split: option.splits)
  have "min 100 (lsize big_layout) = 100" by (simp add: big_layout_def)
  then obtain r f' m' where "flex_reallocate demo_cfg (arena False 0) f m ptr big_layout = Some (r, f', m')"
      "case r of None \<Rightarrow> True | Some p \<Rightarrow> \<forall>i < 100. load_byte m' (p + i) = load_byte m (ptr + i)"
    using flex_reallocate_spec [OF arena.flex_source_axioms F(1) x big_layout_ok] np by (auto split: option.splits)
  with F(1,2) show ?thesis by blast
qed

text \<open>A block acquired from the source is returned to it.\<close>

lemma arena_acquired:
  obtains f :: "(arena_state, 16 word, 16 word) flex" and m ps As where "flex_inv demo_cfg (arena True 0) arena_ok f m ps As" and "As \<noteq> []"
proof -
  let ?S = "arena True 0" and ?f = "flex_new demo_cfg (4100, []) :: (arena_state, 16 word, 16 word) flex"
  have F: "flex_inv demo_cfg ?S arena_ok ?f (\<lambda>_. None) [] []"
    by (rule flex_new_inv [OF demo_cfg_ok]) (simp_all add: demo_cfg_def arena_ok_def)
  have "\<not> too_large demo_cfg demo_layout" using pool_size_too_large [OF demo_layout_ok demo_cfg_ok] demo_pool_size by (auto split: if_splits)
  then have s: "\<not> unserved demo_cfg ?S ?f (\<lambda>_. None) demo_layout"
    by (simp add: unserved_def demo_pool_size flex_new_def alloc_unserved_def arena_def USIZE_LIM_def)
  show thesis
  proof (rule arena.flex_allocate_cases [OF F demo_layout_ok])
    assume "alloc_panics demo_cfg ?S ?f (\<lambda>_. None) demo_layout"
    then show thesis by (auto simp: alloc_panics_def increase_underflows_def flex_new_def use_growable_pool_def arena_def split: option.splits if_splits)
  next
    fix r m' ps' As' and f' :: "(arena_state, 16 word, 16 word) flex" assume a: "flex_inv demo_cfg ?S arena_ok f' m' ps' As'" "new_live (\<lambda>_. None) [] demo_layout r m' ps'"
      "r = None \<longleftrightarrow> allocate demo_cfg (tlsf_of ?f) (\<lambda>_. None) demo_layout = Some (None, tlsf_of ?f, \<lambda>_. None) \<and> unserved demo_cfg ?S ?f (\<lambda>_. None) demo_layout"
    then obtain p where "r = Some p" using s by auto
    then have p: "(p, lalign demo_layout, lsize demo_layout) \<in> live ps'" using a(2) by (simp add: new_live_def)
    have I: "tlsf_inv demo_cfg (tlsf_of f') m' ps'" and sub: "pool_bytes ps' \<subseteq> \<Union>(blk_range ` set As')" using a(1) by (simp_all add: flex_inv_def)
    have "p \<in> \<Union>(blk_range ` set As')" using live_in_pools(2) [OF I p] sub by (force simp: demo_layout_def)
    then have "As' \<noteq> []" by auto
    then show thesis by (rule that [OF a(1)])
  qed
qed

theorem flex_drop_spec_witness:
  "\<exists>(f :: (arena_state, 16 word, 16 word) flex) m ps As x' m'. flex_inv demo_cfg (arena True 0) arena_ok f m ps As \<and> snd (source f) \<noteq> [] \<and>
    flex_drop (arena True 0) f m = Some (x', m') \<and> snd x' = []"
proof -
  obtain f :: "(arena_state, 16 word, 16 word) flex" and m ps As where F: "flex_inv demo_cfg (arena True 0) arena_ok f m ps As" "As \<noteq> []"
    by (rule arena_acquired)
  have "arena_ok (source f) m (set As)" using F(1) by (simp add: flex_inv_def)
  then have "snd (source f) \<noteq> []" using F(2) by (auto simp: arena_ok_def)
  moreover obtain x' m' where "flex_drop (arena True 0) f m = Some (x', m')" "arena_ok x' m' {}"
    using flex_drop_spec [OF arena.flex_source_axioms F(1)] by (auto simp: arena_def)
  moreover have "snd x' = []" using \<open>arena_ok x' m' {}\<close> by (simp add: arena_ok_def)
  ultimately show ?thesis using F(1) by (intro exI conjI)
qed

text \<open>An allocator on the wrapped global allocator, for the examples of the global allocator.\<close>

definition demo_source :: "usize FlexSource" where
  "demo_source = ga_source bump 32"

definition demo_cells :: "usize set \<Rightarrow> usize \<Rightarrow> mem \<Rightarrow> (usize \<times> usize) set \<Rightarrow> bool" where
  "demo_cells D x m A = bump_ok D x m (bump_source.with_align ` A)"

abbreviation demo_blocks :: "usize \<Rightarrow> mem \<Rightarrow> (usize \<times> usize) set \<Rightarrow> bool" where
  "demo_blocks \<equiv> demo_cells {}"

interpretation demo_flex: flex_allocator demo_source "demo_cells D" c for D c
  unfolding demo_source_def demo_cells_def
  by (rule granular_allocator [OF bump_source.ga.flex_source_axioms]) (simp add: ga_source_def default_source_def)

lemma demo_bump: "n < 4096 \<Longrightarrow> 32 dvd n \<Longrightarrow> \<not> alloc_unserved demo_source 4096 m n"
  using is_power_of_two_pow2 [of 5]
  by (auto simp: alloc_unserved_def demo_source_def ga_source_def ga_source_alloc_def bump_def from_size_align_def Let_def pad_to_align_def
      layout_ok_def ISIZE_MAX_def USIZE_LIM_def to_ptr_def round_up_def default_source_def elim!: dvdE)

end
