(* ===== verification/Global.thy ===== *)
theory Global
  imports Flex_Client
begin

text \<open>
  The global allocator (crates/rlsf/src/global.rs): \<open>GlobalTlsf\<close>, a \<open>FlexTlsf\<close> behind a mutex,
  as an implementation of \<open>core::alloc::GlobalAlloc\<close> and of the C-like interface \<open>CAlloc\<close>.
  Every operation takes the lock first and releases it when it returns, so operations run one after
  the other and each is a function of the state it finds. Raw pointers are addresses, 0 for null.
\<close>

section \<open>State\<close>

definition global_cfg :: cfg where
  \<comment> \<open>\<open>TheTlsf\<close>: as many lists as bits in \<open>usize\<close>, on both levels\<close>
  "global_cfg = \<lparr>FLLEN = 64, SLLEN = 64\<rparr>"

type_synonym 'x TheTlsf = "('x, 64 word, 64 word) flex"

record GlobalTlsfOptions =
  ENABLE_REALLOCATION :: bool
  COALESCE_POOLS :: bool

definition default_options :: GlobalTlsfOptions where
  "default_options = \<lparr>ENABLE_REALLOCATION = True, COALESCE_POOLS = True\<rparr>"

definition small_options :: GlobalTlsfOptions where
  "small_options = \<lparr>ENABLE_REALLOCATION = False, COALESCE_POOLS = False\<rparr>"

definition GlobalTlsf_new :: "'x \<Rightarrow> 'x TheTlsf" where
  "GlobalTlsf_new src = flex_new global_cfg src"

section \<open>GlobalAlloc\<close>

definition GlobalTlsf_alloc :: "'x FlexSource \<Rightarrow> 'x TheTlsf \<Rightarrow> mem \<Rightarrow> layout \<Rightarrow> (usize \<times> 'x TheTlsf \<times> mem) option" where
  "GlobalTlsf_alloc S inner m layout = do {
     (r, inner, m) \<leftarrow> flex_allocate global_cfg S inner m layout;
     Some (of_ptr r, inner, m)
   }"

definition GlobalTlsf_dealloc :: "'x TheTlsf \<Rightarrow> mem \<Rightarrow> usize \<Rightarrow> layout \<Rightarrow> ('x TheTlsf \<times> mem) option" where
  "GlobalTlsf_dealloc inner m ptr layout = flex_deallocate global_cfg inner m ptr (lalign layout)"

definition GlobalTlsf_realloc ::
  "GlobalTlsfOptions \<Rightarrow> 'x FlexSource \<Rightarrow> 'x TheTlsf \<Rightarrow> mem \<Rightarrow> usize \<Rightarrow> layout \<Rightarrow> usize \<Rightarrow> (usize \<times> 'x TheTlsf \<times> mem) option" where
  "GlobalTlsf_realloc opts S inner m ptr layout new_size = (
     let new_layout = \<lparr>lsize = new_size, lalign = lalign layout\<rparr>
     in if ENABLE_REALLOCATION opts then do {
          (r, inner, m) \<leftarrow> flex_reallocate global_cfg S inner m ptr new_layout;
          Some (of_ptr r, inner, m)
        }
        else do {
          (r, inner, m) \<leftarrow> flex_allocate global_cfg S inner m new_layout;
          case r of
            Some new_ptr \<Rightarrow> do {
              m \<leftarrow> copy_nonoverlapping m ptr new_ptr (min (lsize layout) new_size);
              (inner, m) \<leftarrow> flex_deallocate global_cfg inner m ptr (lalign layout);
              Some (new_ptr, inner, m)
            }
          | None \<Rightarrow> Some (0, inner, m)
        })"

definition GlobalTlsf_global_alloc :: "'x FlexSource \<Rightarrow> 'x TheTlsf GlobalAlloc" where
  "GlobalTlsf_global_alloc S = \<lparr>ga_alloc = GlobalTlsf_alloc S, ga_dealloc = GlobalTlsf_dealloc\<rparr>"

section \<open>CAlloc\<close>

definition CAlloc_allocate :: "'x FlexSource \<Rightarrow> 'x TheTlsf \<Rightarrow> mem \<Rightarrow> layout \<Rightarrow> (usize option \<times> 'x TheTlsf \<times> mem) option" where
  "CAlloc_allocate S inner m layout = flex_allocate global_cfg S inner m layout"

definition CAlloc_deallocate :: "'x TheTlsf \<Rightarrow> mem \<Rightarrow> usize \<Rightarrow> ('x TheTlsf \<times> mem) option" where
  "CAlloc_deallocate inner m ptr = flex_deallocate_unknown_align global_cfg inner m ptr"

definition CAlloc_reallocate ::
  "'x FlexSource \<Rightarrow> 'x TheTlsf \<Rightarrow> mem \<Rightarrow> usize \<Rightarrow> layout \<Rightarrow> (usize option \<times> 'x TheTlsf \<times> mem) option" where
  "CAlloc_reallocate S inner m ptr new_layout = do {
     (r, inner, m) \<leftarrow> flex_allocate global_cfg S inner m new_layout;
     case r of
       Some new_ptr \<Rightarrow> do {
         old_size \<leftarrow> flex_size_of_allocation_unknown_align m ptr;
         m \<leftarrow> copy_nonoverlapping m ptr new_ptr (min (lsize new_layout) old_size);
         (inner, m) \<leftarrow> flex_deallocate_unknown_align global_cfg inner m ptr;
         Some (Some new_ptr, inner, m)
       }
     | None \<Rightarrow> Some (None, inner, m)
   }"

definition CAlloc_allocation_usable_size :: "mem \<Rightarrow> usize \<Rightarrow> usize option" where
  "CAlloc_allocation_usable_size m ptr = flex_size_of_allocation_unknown_align m ptr"

section \<open>The configuration\<close>

lemma global_cfg_ok: "cfg_ok global_cfg" "FLLEN global_cfg \<le> LENGTH(64)" "SLLEN global_cfg \<le> LENGTH(64)"
  using is_power_of_two_pow2 [of 6] by (simp_all add: cfg_ok_def global_cfg_def)

lemma global_unbounded: "MAX_POOL_SIZE global_cfg = None"
  by (simp add: MAX_POOL_SIZE_def global_cfg_def USIZE_BITS_def)

section \<open>Owners may write to their allocations\<close>

definition payloads :: "(usize \<times> usize \<times> usize) set \<Rightarrow> usize set" where
  "payloads A = (\<Union>(p, al, sz) \<in> A. {p ..< p + sz})"

lemma payload_entry:
  assumes "tlsf_inv c t m ps" and "y \<in> payloads (live ps)"
  obtains b z p al sz q where "(b, z, Used p al sz, q) \<in> set (all_entries ps)" and "p \<le> y" and "y < p + sz" and "b \<le> y" and "y < b + z"
proof -
  obtain p al sz where x: "(p, al, sz) \<in> live ps" "p \<le> y" "y < p + sz" using assms(2) by (auto simp: payloads_def)
  then obtain b z q where e: "(b, z, Used p al sz, q) \<in> set (all_entries ps)" using live_entry by metis
  show thesis by (rule that [OF e x(2,3)]) (use used_entry(11,12) [OF assms(1) e] x in linarith)+
qed

lemma payload_writes_inv:
  assumes I: "tlsf_inv c t m ps" and ch: "changes_only m m' (payloads (live ps))"
  shows "tlsf_inv c t m' ps"
proof -
  note ok = inv_pools_ok [OF I]
  have same: "m' y = m y" if "y \<notin> payloads (live ps)" for y using ch that by (simp add: changes_only_def)
  have "hdr m' (b, z, k, q)" if e: "(b, z, k, q) \<in> set (all_entries ps)" for b z k q
  proof -
    note f = entry_facts [OF ok e]
    have out: "m' y = m y" if y: "b \<le> y" "y < b + z" "\<And>p al sz. k = Used p al sz \<Longrightarrow> y < p" for y
    proof (rule same, rule notI)
      assume "y \<in> payloads (live ps)"
      then obtain b' z' p al sz q' where e': "(b', z', Used p al sz, q') \<in> set (all_entries ps)" "p \<le> y" "b' \<le> y" "y < b' + z'"
        by (rule payload_entry [OF I])
      then have "k = Used p al sz" using entries_disjoint [OF ok e e'(1)] y(1,2) by auto
      then show False using y(3) e'(2) by fastforce
    qed
    show ?thesis
    proof (cases k)
      case (Used p al sz)
      note u = used_entry [OF I e [unfolded Used]]
      have "ptr < p \<Longrightarrow> b \<le> ptr \<Longrightarrow> m' ptr = m ptr" for ptr using out [of ptr] u(11,12) Used by auto
      moreover have "b + 8 < p" "b < p" "p - 8 < p" "b \<le> p - 8" using u(11) by linarith+
      ultimately show ?thesis using inv_hdr [OF I e] Used by (auto simp: used_ok_def)
    qed (use inv_hdr [OF I e] out [of b] out [of "b + 8"] f in auto)
  qed
  moreover have "pools_mapped m' ps" using I ch by (auto simp: tlsf_inv_def pools_mapped_def changes_only_def domIff set_eq_iff)
  moreover have "fl_inv c t m' (all_frees c ps)"
  proof (rule fls.frame)
    show "fl_inv c t m (all_frees c ps)" using I by (simp add: tlsf_inv_def)
    fix y assume y: "y \<in> link_cells (dom (all_frees c ps))"
    have "y \<notin> payloads (live ps)"
    proof
      assume "y \<in> payloads (live ps)"
      then obtain b z p al sz q where e: "(b, z, Used p al sz, q) \<in> set (all_entries ps)" "b \<le> y" "y < b + z" by (rule payload_entry [OF I])
      then have "y \<in> protected (b, z, Used p al sz, q)" by simp
      then show False using links_not_protected [OF ok e(1)] y by blast
    qed
    then show "m' y = m y" by (rule same)
  qed
  ultimately show ?thesis using I by (auto simp: tlsf_inv_def list_all_iff)
qed

lemma payloads_untouched:
  assumes I: "tlsf_inv c t m ps" and ch: "changes_only m m' (payloads (live ps))"
  shows "untouched m m' ps"
proof (rule untouchedI [OF inv_pools_ok [OF I] changes_only_mono [OF ch]])
  fix y assume "y \<in> payloads (live ps)"
  then obtain b z p al sz q where e: "(b, z, Used p al sz, q) \<in> set (all_entries ps)" "b \<le> y" "y < b + z" by (rule payload_entry [OF I])
  show "y \<in> pool_bytes ps \<and> y \<notin> tail_space ps"
    using entry_pool_bytes [OF inv_pools_ok [OF I] e] entry_not_tail [OF inv_pools_ok [OF I] e] by simp
qed simp

section \<open>The contract of GlobalAlloc\<close>

definition triple :: "usize \<times> layout \<Rightarrow> usize \<times> usize \<times> usize" where
  "triple x = (fst x, lalign (snd x), lsize (snd x))"

definition GlobalTlsf_ok ::
  "'x FlexSource \<Rightarrow> ('x \<Rightarrow> mem \<Rightarrow> (usize \<times> usize) set \<Rightarrow> bool) \<Rightarrow> 'x TheTlsf \<Rightarrow> mem \<Rightarrow> (usize \<times> layout) set \<Rightarrow> bool" where
  "GlobalTlsf_ok S R inner m A \<longleftrightarrow> (\<exists>ps As. flex_inv global_cfg S R inner m ps As \<and> live ps = triple ` A)"

lemma triple_inj: "triple x = triple y \<longleftrightarrow> x = y"
  by (auto simp: triple_def prod_eq_iff)

lemma triple_simp [simp]: "triple (p, l) = (p, lalign l, lsize l)"
  by (simp add: triple_def)

lemma triple_diff: "triple ` A - {triple x} = triple ` (A - {x})"
  using inj_onI [of UNIV triple] triple_inj by (simp add: image_set_diff)

lemma payloads_region: "payloads (triple ` A) = \<Union>(blk_range ` region ` A)"
  by (auto simp: payloads_def triple_def region_def blk_range_def)

lemma cells_kept_agree: "cells_kept m m' (triple ` A) \<Longrightarrow> agree m m' (region ` A)"
  unfolding cells_kept_def agree_def region_def blk_range_def triple_def by force

lemma live_facts:
  assumes I: "tlsf_inv c t m ps" and x: "(p, al, sz) \<in> live ps"
  shows "0 < p" and "8 dvd p" and "p + sz \<le> USIZE_LIM" and "al dvd p" and "mapped_blk m (p, sz)"
proof -
  obtain b z q where e: "(b, z, Used p al sz, q) \<in> set (all_entries ps)" using x live_entry by metis
  note u = used_entry [OF I e]
  show "0 < p" "8 dvd p" "p + sz \<le> USIZE_LIM" using u by linarith+
  show "al dvd p" by (rule live_in_pools(1) [OF I x])
  have "m y \<noteq> None" if "p \<le> y" "y < p + sz" "8 dvd y" for y
    using payload_cell_mapped [OF I e, of "y - p"] that u(12) by (simp add: mod_eq_0_iff_dvd)
  then show "mapped_blk m (p, sz)" by (simp add: mapped_blk_def blk_range_def)
qed

lemma separate_apart:
  assumes "\<And>x. x \<in> A \<Longrightarrow> separate (p, al, sz) (triple x)"
  shows "apart (p, sz) (region ` A)"
  using assms unfolding separate_def apart_def region_def blk_range_def triple_def by auto

locale global_tlsf = flex_allocator S R global_cfg for S :: "'x FlexSource" and R :: "'x \<Rightarrow> mem \<Rightarrow> (usize \<times> usize) set \<Rightarrow> bool"
begin

lemma alloc_ok:
  assumes Q: "GlobalTlsf_ok S R f m A" and L: "layout_ok l"
  obtains r f' m' where "flex_allocate global_cfg S f m l = Some (r, f', m')" and "agree m m' (region ` A)"
    and "case r of None \<Rightarrow> GlobalTlsf_ok S R f' m' A
      | Some p \<Rightarrow> 0 < p \<and> lalign l dvd p \<and> p + lsize l \<le> USIZE_LIM \<and> mapped_blk m' (p, lsize l) \<and>
          apart (p, lsize l) (region ` A) \<and> (p, l) \<notin> A \<and> GlobalTlsf_ok S R f' m' (insert (p, l) A)"
proof -
  obtain ps As where F: "flex_inv global_cfg S R f m ps As" and lv: "live ps = triple ` A" using Q by (auto simp: GlobalTlsf_ok_def)
  have I: "tlsf_inv global_cfg (tlsf_of f) m ps" using F by (simp add: flex_inv_def)
  obtain r f' m' ps' As' where a: "flex_allocate global_cfg S f m l = Some (r, f', m')" "flex_inv global_cfg S R f' m' ps' As'"
      "new_live m ps l r m' ps'" by (rule flex_allocate_ok [OF F L])
  have ag: "agree m m' (region ` A)"
    using a(3) used_kept_cells [OF I, of m' ps'] cells_kept_agree [of m m' A] by (simp add: new_live_def lv)
  show thesis
  proof (cases r)
    case None
    then have "GlobalTlsf_ok S R f' m' A" using a lv by (auto simp: GlobalTlsf_ok_def new_live_def)
    then show thesis by (intro that [OF a(1) ag]) (simp add: None)
  next
    case (Some p)
    have lv': "live ps' = insert (triple (p, l)) (live ps)" "triple (p, l) \<notin> live ps" using a(3) Some by (simp_all add: new_live_def)
    have I': "tlsf_inv global_cfg (tlsf_of f') m' ps'" using a(2) by (simp add: flex_inv_def)
    have x: "(p, lalign l, lsize l) \<in> live ps'" using lv'(1) by simp
    have "separate (p, lalign l, lsize l) (triple y)" if "y \<in> A" for y
      using lv' that by (intro live_separate [OF I' x]) (auto simp: lv)
    then have ap: "apart (p, lsize l) (region ` A)" by (rule separate_apart)
    have "live ps' = triple ` insert (p, l) A" using lv'(1) by (simp add: lv)
    then have Q': "GlobalTlsf_ok S R f' m' (insert (p, l) A)" using a(2) unfolding GlobalTlsf_ok_def by blast
    have "(p, l) \<notin> A" using lv'(2) imageI [of "(p, l)" A triple] unfolding lv by blast
    then show thesis using ap Q' live_facts [OF I' x] by (intro that [OF a(1) ag]) (simp add: Some)
  qed
qed

lemma dealloc_ok:
  assumes Q: "GlobalTlsf_ok S R f m A" and x: "(p, l) \<in> A"
  obtains f' m' where "flex_deallocate global_cfg f m p (lalign l) = Some (f', m')"
    and "flex_deallocate_unknown_align global_cfg f m p = Some (f', m')"
    and "agree m m' (region ` (A - {(p, l)}))" and "GlobalTlsf_ok S R f' m' (A - {(p, l)})"
proof -
  obtain ps As where F: "flex_inv global_cfg S R f m ps As" and lv: "live ps = triple ` A" using Q by (auto simp: GlobalTlsf_ok_def)
  have lx: "(p, lalign l, lsize l) \<in> live ps" using x by (force simp: lv)
  obtain f' m' ps' where d: "flex_deallocate global_cfg f m p (lalign l) = Some (f', m')"
      "flex_deallocate_unknown_align global_cfg f m p = Some (f', m')" "flex_inv global_cfg S R f' m' ps' As"
      "live ps' = live ps - {triple (p, l)}" "cells_kept m m' (live ps - {triple (p, l)})"
    by (rule flex_deallocate_ok [OF F lx]) (simp add: that)
  have "GlobalTlsf_ok S R f' m' (A - {(p, l)})" using d(3,4) unfolding GlobalTlsf_ok_def lv triple_diff by blast
  moreover have "agree m m' (region ` (A - {(p, l)}))" using d(5) unfolding lv triple_diff by (rule cells_kept_agree)
  ultimately show thesis by (rule that [OF d(1,2), rotated])
qed

lemma write_ok:
  assumes Q: "GlobalTlsf_ok S R f m A" and dm: "dom m' = dom m" and out: "\<And>y. y \<notin> \<Union>(blk_range ` region ` A) \<Longrightarrow> m' y = m y"
  shows "GlobalTlsf_ok S R f m' A"
proof -
  obtain ps As where F: "flex_inv global_cfg S R f m ps As" and lv: "live ps = triple ` A" using Q by (auto simp: GlobalTlsf_ok_def)
  have I: "tlsf_inv global_cfg (tlsf_of f) m ps" using F by (simp add: flex_inv_def)
  have ch: "changes_only m m' (payloads (live ps))" unfolding changes_only_def lv payloads_region using dm out by blast
  have "flex_inv global_cfg S R (f\<lparr>tlsf_of := tlsf_of f\<rparr>) m' ps As"
    by (rule inner_step [OF F payload_writes_inv [OF I ch] refl payloads_untouched [OF I ch]])
  then show ?thesis using lv by (auto simp: GlobalTlsf_ok_def)
qed

end

sublocale global_tlsf \<subseteq> galloc: global_allocator "GlobalTlsf_global_alloc S" "GlobalTlsf_ok S R"
proof
  fix f m A l assume Q: "GlobalTlsf_ok S R f m A" and L: "layout_ok l"
  obtain r f' m' where a: "flex_allocate global_cfg S f m l = Some (r, f', m')" "agree m m' (region ` A)"
      "case r of None \<Rightarrow> GlobalTlsf_ok S R f' m' A
       | Some p \<Rightarrow> 0 < p \<and> lalign l dvd p \<and> p + lsize l \<le> USIZE_LIM \<and> mapped_blk m' (p, lsize l) \<and>
          apart (p, lsize l) (region ` A) \<and> (p, l) \<notin> A \<and> GlobalTlsf_ok S R f' m' (insert (p, l) A)"
    by (rule alloc_ok [OF Q L])
  then show "\<exists>p x' m'. ga_alloc (GlobalTlsf_global_alloc S) f m l = Some (p, x', m') \<and> agree m m' (region ` A) \<and>
      (if p = 0 then GlobalTlsf_ok S R x' m' A
       else lalign l dvd p \<and> p + lsize l \<le> USIZE_LIM \<and> mapped_blk m' (p, lsize l) \<and> apart (p, lsize l) (region ` A) \<and>
         GlobalTlsf_ok S R x' m' (insert (p, l) A))"
    by (cases r) (simp_all add: GlobalTlsf_global_alloc_def GlobalTlsf_alloc_def of_ptr_def)
next
  fix f m A p l assume "GlobalTlsf_ok S R f m A" "(p, l) \<in> A"
  then obtain f' m' where "flex_deallocate global_cfg f m p (lalign l) = Some (f', m')"
    "agree m m' (region ` (A - {(p, l)}))" "GlobalTlsf_ok S R f' m' (A - {(p, l)})" by (rule dealloc_ok)
  then show "\<exists>x' m'. ga_dealloc (GlobalTlsf_global_alloc S) f m p l = Some (x', m') \<and> agree m m' (region ` (A - {(p, l)})) \<and>
      GlobalTlsf_ok S R x' m' (A - {(p, l)})"
    by (simp add: GlobalTlsf_global_alloc_def GlobalTlsf_dealloc_def)
next
  fix f m A m' assume "GlobalTlsf_ok S R f m A" "dom m' = dom m" "\<And>y. y \<notin> \<Union>(blk_range ` region ` A) \<Longrightarrow> m' y = m y"
  then show "GlobalTlsf_ok S R f m' A" by (rule write_ok)
qed

section \<open>Reallocation\<close>

text \<open>What replacing the allocation \<open>x\<close> by one of layout \<open>l\<close> promises; \<open>n\<close> bytes are carried over.\<close>

definition replaced ::
  "'x FlexSource \<Rightarrow> ('x \<Rightarrow> mem \<Rightarrow> (usize \<times> usize) set \<Rightarrow> bool) \<Rightarrow> mem \<Rightarrow> (usize \<times> layout) set \<Rightarrow> usize \<times> layout \<Rightarrow> layout \<Rightarrow> nat \<Rightarrow>
   usize option \<Rightarrow> 'x TheTlsf \<Rightarrow> mem \<Rightarrow> bool" where
  "replaced S R m A x l n r f' m' \<longleftrightarrow> (case r of
     None \<Rightarrow> GlobalTlsf_ok S R f' m' A \<and> contents_kept m m' (triple ` A)
   | Some p \<Rightarrow> 0 < p \<and> lalign l dvd p \<and> apart (p, lsize l) (region ` (A - {x})) \<and> (p, l) \<notin> A - {x} \<and>
       GlobalTlsf_ok S R f' m' (insert (p, l) (A - {x})) \<and> contents_kept m m' (triple ` (A - {x})) \<and>
       (\<forall>i < n. load_byte m' (p + i) = load_byte m (fst x + i)))"

lemma replacedI:
  assumes F: "flex_inv global_cfg S R f' m' ps' As'" and lv: "live ps = triple ` A"
    and lv': "live ps' = insert (p, lalign l, lsize l) (live ps - {triple x})" "(p, lalign l, lsize l) \<notin> live ps - {triple x}"
    and k: "contents_kept m m' (live ps - {triple x})" and b: "\<forall>i < n. load_byte m' (p + i) = load_byte m (fst x + i)"
  shows "replaced S R m A x l n (Some p) f' m'"
proof -
  have I: "tlsf_inv global_cfg (tlsf_of f') m' ps'" using F by (simp add: flex_inv_def)
  have y: "(p, lalign l, lsize l) \<in> live ps'" using lv'(1) by simp
  have rest: "live ps - {triple x} = triple ` (A - {x})" unfolding lv by (rule triple_diff)
  have "separate (p, lalign l, lsize l) (triple a)" if "a \<in> A - {x}" for a
    using lv' that unfolding rest by (intro live_separate [OF I y]) auto
  then have "apart (p, lsize l) (region ` (A - {x}))" by (rule separate_apart)
  moreover have "GlobalTlsf_ok S R f' m' (insert (p, l) (A - {x}))"
    using F lv'(1) unfolding rest GlobalTlsf_ok_def by (intro exI [of _ ps'] exI [of _ As']) simp
  moreover have "(p, l) \<notin> A - {x}" using lv'(2) imageI [of "(p, l)" "A - {x}" triple] unfolding rest by auto
  ultimately show ?thesis using live_facts(1,4) [OF I y] k b unfolding rest replaced_def by simp
qed

context global_tlsf
begin

lemma contract: "global_allocator (GlobalTlsf_global_alloc S) (GlobalTlsf_ok S R)"
  by (rule galloc.global_allocator_axioms)

text \<open>The allocation is copied to a new one and freed.\<close>

lemma moved:
  assumes F: "flex_inv global_cfg S R f m ps As" and lv: "live ps = triple ` A" and L: "layout_ok l"
    and e: "(b, z, Used ptr (lalign l0) (lsize l0), q) \<in> set (all_entries ps)" and n: "ptr + n \<le> b + z" "n \<le> lsize l"
  obtains f' m' where "flex_allocate global_cfg S f m l = Some (None, f', m')" and "replaced S R m A (ptr, l0) l n None f' m'"
  | p f1 m1 m2 f' m' where "flex_allocate global_cfg S f m l = Some (Some p, f1, m1)"
      and "size_of_allocation_unknown_align m1 ptr = size_of_allocation_unknown_align m ptr"
      and "copy_nonoverlapping m1 ptr p n = Some m2" and "flex_deallocate global_cfg f1 m2 ptr (lalign l0) = Some (f', m')"
      and "flex_deallocate_unknown_align global_cfg f1 m2 ptr = Some (f', m')" and "replaced S R m A (ptr, l0) l n (Some p) f' m'"
proof -
  have I: "tlsf_inv global_cfg (tlsf_of f) m ps" using F by (simp add: flex_inv_def)
  obtain r f1 m1 ps1 As1 where a: "flex_allocate global_cfg S f m l = Some (r, f1, m1)" "flex_inv global_cfg S R f1 m1 ps1 As1"
      "new_live m ps l r m1 ps1" by (rule flex_allocate_ok [OF F L])
  have uk: "used_kept m m1 ps ps1" using a(3) by (simp add: new_live_def)
  show thesis
  proof (cases r)
    case None
    have "GlobalTlsf_ok S R f1 m1 A" using a(2,3) None lv unfolding GlobalTlsf_ok_def new_live_def by auto
    then show thesis using a(1) None used_kept_contents [OF I uk] by (intro that(1)) (simp_all add: replaced_def lv)
  next
    case (Some p)
    have I1: "tlsf_inv global_cfg (tlsf_of f1) m1 ps1" using a(2) by (simp add: flex_inv_def)
    obtain q1 where e1: "(b, z, Used ptr (lalign l0) (lsize l0), q1) \<in> set (all_entries ps1)" using uk e unfolding used_kept_def by blast
    have sz: "size_of_allocation_unknown_align m1 ptr = size_of_allocation_unknown_align m ptr"
      using payload_size_ok [OF I e] payload_size_ok [OF I1 e1] lookup_unknown [OF I e] lookup_unknown [OF I1 e1]
      by (simp add: size_of_allocation_unknown_align_def)
    show thesis
    proof (rule flex_move [OF F e a(2) a(3) [unfolded Some] n])
      fix m2 f' m' ps' assume v: "copy_nonoverlapping m1 ptr p n = Some m2" "flex_deallocate global_cfg f1 m2 ptr (lalign l0) = Some (f', m')"
        "flex_deallocate_unknown_align global_cfg f1 m2 ptr = Some (f', m')" "flex_inv global_cfg S R f' m' ps' As1"
        "live ps' = insert (p, lalign l, lsize l) (live ps - {(ptr, lalign l0, lsize l0)})" "(p, lalign l, lsize l) \<notin> live ps"
        "contents_kept m m' (live ps - {(ptr, lalign l0, lsize l0)})" "\<forall>i < n. load_byte m' (p + i) = load_byte m (ptr + i)"
      have "replaced S R m A (ptr, l0) l n (Some p) f' m'" by (rule replacedI [OF v(4) lv]) (use v in simp_all)
      then show thesis using a(1) Some sz v(1-3) by (intro that(2)) simp_all
    qed
  qed
qed

lemma realloc_ok:
  assumes Q: "GlobalTlsf_ok S R f m A" and x: "(ptr, l) \<in> A" and L: "layout_ok \<lparr>lsize = new_size, lalign = lalign l\<rparr>"
  shows "\<exists>r f' m'. GlobalTlsf_realloc opts S f m ptr l new_size = Some (of_ptr r, f', m') \<and>
    replaced S R m A (ptr, l) \<lparr>lsize = new_size, lalign = lalign l\<rparr> (min (lsize l) new_size) r f' m'"
proof -
  let ?l = "\<lparr>lsize = new_size, lalign = lalign l\<rparr>"
  obtain ps As where F: "flex_inv global_cfg S R f m ps As" and lv: "live ps = triple ` A" using Q by (auto simp: GlobalTlsf_ok_def)
  have I: "tlsf_inv global_cfg (tlsf_of f) m ps" using F by (simp add: flex_inv_def)
  have lx: "(ptr, lalign l, lsize l) \<in> live ps" using x by (force simp: lv)
  show ?thesis
  proof (cases "ENABLE_REALLOCATION opts")
    case True
    have lx': "(ptr, lalign ?l, lsize l) \<in> live ps" using lx by simp
    obtain r f' m' ps' As' where a: "flex_reallocate global_cfg S f m ptr ?l = Some (r, f', m')" "flex_inv global_cfg S R f' m' ps' As'"
        "resized m ps ptr (lalign ?l) (lsize l) ?l r m' ps'" by (rule flex_reallocate_ok [OF F lx' L])
    have "replaced S R m A (ptr, l) ?l (min (lsize l) new_size) r f' m'"
    proof (cases r)
      case None
      then show ?thesis using a lv by (auto simp: replaced_def resized_def GlobalTlsf_ok_def)
    next
      case (Some p)
      then show ?thesis using a(3) unfolding Some by (intro replacedI [OF a(2) lv]) (simp_all add: resized_def)
    qed
    then show ?thesis using True a(1) by (auto simp: GlobalTlsf_realloc_def)
  next
    case False
    obtain b z q where e: "(b, z, Used ptr (lalign l) (lsize l), q) \<in> set (all_entries ps)" using lx live_entry by metis
    have n: "ptr + min (lsize l) new_size \<le> b + z" "min (lsize l) new_size \<le> lsize ?l" using used_entry(12) [OF I e] by simp_all
    show ?thesis
      by (rule moved [OF F lv L e n])
        (use False in \<open>force simp: GlobalTlsf_realloc_def of_ptr_def intro: exI [of _ None]\<close>,
         rule exI [of _ "Some _"], use False in \<open>force simp: GlobalTlsf_realloc_def of_ptr_def\<close>)
  qed
qed

lemma usable_ok:
  assumes Q: "GlobalTlsf_ok S R f m A" and x: "(ptr, l) \<in> A"
  obtains ps As b z q where "flex_inv global_cfg S R f m ps As" and "live ps = triple ` A"
    and "(b, z, Used ptr (lalign l) (lsize l), q) \<in> set (all_entries ps)" and "b + 16 \<le> ptr" and "ptr + lsize l \<le> b + z"
    and "CAlloc_allocation_usable_size m ptr = Some (b + z - ptr)"
proof -
  obtain ps As where F: "flex_inv global_cfg S R f m ps As" "live ps = triple ` A" using Q by (auto simp: GlobalTlsf_ok_def)
  have I: "tlsf_inv global_cfg (tlsf_of f) m ps" using F by (simp add: flex_inv_def)
  have "(ptr, lalign l, lsize l) \<in> live ps" using x by (force simp: F(2))
  then obtain b z q where e: "(b, z, Used ptr (lalign l) (lsize l), q) \<in> set (all_entries ps)" using live_entry by metis
  have "CAlloc_allocation_usable_size m ptr = Some (b + z - ptr)" using payload_size_ok [OF I e] lookup_unknown [OF I e]
    by (simp add: CAlloc_allocation_usable_size_def flex_size_of_allocation_unknown_align_def size_of_allocation_unknown_align_def)
  then show thesis using that [OF F e] used_entry(11,12) [OF I e] by simp
qed

lemma c_reallocate_ok:
  assumes Q: "GlobalTlsf_ok S R f m A" and x: "(ptr, l0) \<in> A" and L: "layout_ok l"
  shows "\<exists>n r f' m'. CAlloc_allocation_usable_size m ptr = Some n \<and> lsize l0 \<le> n \<and>
    CAlloc_reallocate S f m ptr l = Some (r, f', m') \<and> replaced S R m A (ptr, l0) l (min (lsize l) n) r f' m'"
proof -
  obtain ps As b z q where F: "flex_inv global_cfg S R f m ps As" "live ps = triple ` A"
    and e: "(b, z, Used ptr (lalign l0) (lsize l0), q) \<in> set (all_entries ps)" and u: "b + 16 \<le> ptr" "ptr + lsize l0 \<le> b + z"
    and us: "CAlloc_allocation_usable_size m ptr = Some (b + z - ptr)" by (rule usable_ok [OF Q x])
  let ?n = "b + z - ptr"
  have sz: "size_of_allocation_unknown_align m ptr = Some ?n"
    using us by (simp add: CAlloc_allocation_usable_size_def flex_size_of_allocation_unknown_align_def)
  have n: "ptr + min (lsize l) ?n \<le> b + z" "min (lsize l) ?n \<le> lsize l" "lsize l0 \<le> ?n" using u by simp_all
  have "\<exists>r f' m'. CAlloc_reallocate S f m ptr l = Some (r, f', m') \<and> replaced S R m A (ptr, l0) l (min (lsize l) ?n) r f' m'"
    by (rule moved [OF F L e n(1,2)])
      (force simp: CAlloc_reallocate_def,
       force simp: CAlloc_reallocate_def sz flex_size_of_allocation_unknown_align_def)
  then show ?thesis using us n(3) by blast
qed

end

section \<open>The global allocator for clients\<close>

lemma live_Nil [simp]: "live [] = {}"
  by (simp add: live_def blocks_of_def)

lemma GlobalTlsf_new_ok: "R src m {} \<Longrightarrow> GlobalTlsf_ok S R (GlobalTlsf_new src) m {}"
  using flex_new_inv [OF global_cfg_ok, of R src m S] unfolding GlobalTlsf_ok_def GlobalTlsf_new_def
  by (intro exI [of _ "[]"]) simp

text \<open>An instance for the examples.\<close>

interpretation demo_global: global_tlsf demo_source "demo_cells D" for D
  by unfold_locales

lemma demo_global_new: "GlobalTlsf_ok demo_source demo_blocks (GlobalTlsf_new 4096) (\<lambda>_. None) {}"
  by (rule GlobalTlsf_new_ok) (simp add: demo_cells_def bump_ok_def)

lemma global_pool_size: "pool_size_to_contain_allocation global_cfg demo_layout = Some (Some 224)"
proof -
  have ss: "search_size demo_layout = 192" by (simp add: search_size_def demo_layout_def round_up_def)
  have bl: "bit_len 192 = 8" by (simp add: bit_len.simps)
  have fl: "FLLEN global_cfg = 64" by (simp add: global_cfg_def)
  have sl: "SLI global_cfg = 6" using trailing_zeros_pow2 [of 6] by (simp add: SLI_def global_cfg_def)
  have mx: "192 \<le> MAX_MAP_CEIL_AND_UNMAP_INPUT global_cfg"
    by (simp add: MAX_MAP_CEIL_AND_UNMAP_INPUT_def sl fl not_usize_def USIZE_LIM_def USIZE_BITS_def Let_def drop_bit_eq_div)
  then have "map_ceil_and_unmap global_cfg 192 = Some (Some 192)"
    using mx and_not_mask [of 193 1] by (simp add: map_ceil_and_unmap_def leading_zeros_def bl USIZE_BITS_def sub_usize_def sl shl1_def add_usize_def USIZE_LIM_def)
  moreover have "pool_size_to_contain_allocation global_cfg demo_layout =
      map_ceil_and_unmap global_cfg (search_size demo_layout) \<bind>
        (\<lambda>r. case r of None \<Rightarrow> Some None | Some y \<Rightarrow> Some (checked_add y GRANULARITY))"
    by (simp only: pool_size_to_contain_allocation_def layout_sizes(1-4) [OF demo_layout_ok] run_simps)
  ultimately show ?thesis by (simp add: ss checked_add_def USIZE_LIM_def)
qed

lemma demo_global_used: "\<exists>f m ptr. GlobalTlsf_ok demo_source demo_blocks f m {(ptr, demo_layout)}"
proof -
  have F: "flex_inv global_cfg demo_source demo_blocks (GlobalTlsf_new 4096) (\<lambda>_. None) [] []"
    unfolding GlobalTlsf_new_def by (rule flex_new_inv [OF global_cfg_ok]) (simp add: demo_cells_def bump_ok_def)
  have "\<not> too_large global_cfg demo_layout" using pool_size_too_large [OF demo_layout_ok global_cfg_ok(1)] global_pool_size by (auto split: if_splits)
  then have s: "\<not> unserved global_cfg demo_source (GlobalTlsf_new 4096) (\<lambda>_. None) demo_layout"
    using demo_bump [of 224] by (simp add: unserved_def global_pool_size flex_new_def GlobalTlsf_new_def)
  obtain p and f' :: "usize TheTlsf" and m' ps' As' where "flex_inv global_cfg demo_source demo_blocks f' m' ps' As'" "new_live (\<lambda>_. None) [] demo_layout (Some p) m' ps'"
    by (rule demo_flex.flex_allocate_served [OF F demo_layout_ok s])
  then have "GlobalTlsf_ok demo_source demo_blocks f' m' {(p, demo_layout)}"
    unfolding GlobalTlsf_ok_def new_live_def by (intro exI [of _ ps'] exI [of _ As']) simp
  then show ?thesis by blast
qed

text \<open>C18: \<open>alloc\<close> and \<open>dealloc\<close> of \<open>GlobalTlsf\<close> keep the contract of \<open>GlobalAlloc\<close>: \<open>alloc\<close> returns null or a pointer to
  new, aligned memory apart from all allocations, \<open>dealloc\<close> with the layout removes exactly that allocation, neither changes
  the memory of the other allocations or faults, and both hold whatever the owners write to their allocations. The source
  keeps the contract of \<open>FlexSource\<close> and, where it extends blocks in place, ends an extension at a granule when it is asked
  to, which is more than the trait documents and keeps the debug assertion of \<open>FlexTlsf\<close> from failing.\<close>

theorem GlobalTlsf_is_global_allocator:
  assumes "flex_allocator S R global_cfg"
  shows "global_allocator (GlobalTlsf_global_alloc S) (GlobalTlsf_ok S R) \<and> (\<forall>src m. R src m {} \<longrightarrow> GlobalTlsf_ok S R (GlobalTlsf_new src) m {})"
  by (intro conjI allI impI global_tlsf.contract [OF global_tlsf.intro [OF assms]] GlobalTlsf_new_ok)

theorem GlobalTlsf_is_global_allocator_witness:
  "global_allocator (GlobalTlsf_global_alloc demo_source) (GlobalTlsf_ok demo_source demo_blocks) \<and>
   GlobalTlsf_ok demo_source demo_blocks (GlobalTlsf_new 4096) (\<lambda>_. None) {}"
  using GlobalTlsf_is_global_allocator [OF demo_flex.flex_allocator_axioms] by (simp add: demo_cells_def bump_ok_def)

text \<open>C21: \<open>GlobalTlsf::realloc\<close>, with the specialised routine and without it, never faults. A null result leaves all
  allocations and their contents; otherwise the allocation is replaced by an aligned one of the new size, apart
  from the others, that starts with the bytes of the old one as far as both reach.\<close>

theorem GlobalTlsf_realloc_spec:
  assumes "flex_allocator S R global_cfg" and "GlobalTlsf_ok S R f m A" and "(ptr, l) \<in> A"
    and "layout_ok \<lparr>lsize = new_size, lalign = lalign l\<rparr>"
  shows "\<exists>r f' m'. GlobalTlsf_realloc opts S f m ptr l new_size = Some (of_ptr r, f', m') \<and>
    replaced S R m A (ptr, l) \<lparr>lsize = new_size, lalign = lalign l\<rparr> (min (lsize l) new_size) r f' m'"
  by (rule global_tlsf.realloc_ok [OF global_tlsf.intro [OF assms(1)] assms(2-4)])

theorem GlobalTlsf_realloc_spec_witness:
  "\<exists>f m ptr r f' m'. GlobalTlsf_ok demo_source demo_blocks f m {(ptr, demo_layout)} \<and>
    GlobalTlsf_realloc small_options demo_source f m ptr demo_layout 300 = Some (of_ptr r, f', m') \<and>
    replaced demo_source demo_blocks m {(ptr, demo_layout)} (ptr, demo_layout) \<lparr>lsize = 300, lalign = 64\<rparr> 100 r f' m'"
proof -
  obtain f m ptr where Q: "GlobalTlsf_ok demo_source demo_blocks f m {(ptr, demo_layout)}" using demo_global_used by blast
  have L: "layout_ok \<lparr>lsize = 300, lalign = lalign demo_layout\<rparr>"
    using is_power_of_two_pow2 [of 6] by (simp add: layout_ok_def demo_layout_def ISIZE_MAX_def USIZE_LIM_def)
  from GlobalTlsf_realloc_spec [OF demo_flex.flex_allocator_axioms Q _ L, of ptr small_options] Q show ?thesis
    by (force simp: demo_layout_def)
qed

text \<open>C22: \<open>CAlloc::reallocate\<close> accepts any alignment and never faults; it carries over as many bytes as the usable
  size of the old allocation and the new size allow.\<close>

theorem CAlloc_reallocate_spec:
  assumes "flex_allocator S R global_cfg" and "GlobalTlsf_ok S R f m A" and "(ptr, l0) \<in> A" and "layout_ok l"
  shows "\<exists>n r f' m'. CAlloc_allocation_usable_size m ptr = Some n \<and> lsize l0 \<le> n \<and>
    CAlloc_reallocate S f m ptr l = Some (r, f', m') \<and> replaced S R m A (ptr, l0) l (min (lsize l) n) r f' m'"
  by (rule global_tlsf.c_reallocate_ok [OF global_tlsf.intro [OF assms(1)] assms(2-4)])

theorem CAlloc_reallocate_spec_witness:
  "\<exists>f m ptr n r f' m'. GlobalTlsf_ok demo_source demo_blocks f m {(ptr, demo_layout)} \<and>
    CAlloc_allocation_usable_size m ptr = Some n \<and> 100 \<le> n \<and> CAlloc_reallocate demo_source f m ptr \<lparr>lsize = 8, lalign = 16\<rparr> = Some (r, f', m') \<and>
    replaced demo_source demo_blocks m {(ptr, demo_layout)} (ptr, demo_layout) \<lparr>lsize = 8, lalign = 16\<rparr> 8 r f' m'"
proof -
  obtain f m ptr where Q: "GlobalTlsf_ok demo_source demo_blocks f m {(ptr, demo_layout)}" using demo_global_used by blast
  have L: "layout_ok \<lparr>lsize = 8, lalign = 16\<rparr>"
    using is_power_of_two_pow2 [of 4] by (simp add: layout_ok_def ISIZE_MAX_def USIZE_LIM_def)
  obtain n r f' m' where r: "CAlloc_allocation_usable_size m ptr = Some n" "lsize demo_layout \<le> n" "CAlloc_reallocate demo_source f m ptr \<lparr>lsize = 8, lalign = 16\<rparr> = Some (r, f', m')"
    "replaced demo_source demo_blocks m {(ptr, demo_layout)} (ptr, demo_layout) \<lparr>lsize = 8, lalign = 16\<rparr> (min 8 n) r f' m'"
    using CAlloc_reallocate_spec [OF demo_flex.flex_allocator_axioms Q _ L] by auto
  then have "100 \<le> n" "min 8 n = 8" by (simp_all add: demo_layout_def)
  with Q r show ?thesis by (intro exI [of _ f] exI [of _ m] exI [of _ ptr] exI [of _ n] exI [of _ r] exI [of _ f'] exI [of _ m']) simp
qed

end
