(* ===== verification/Global_Lock.thy ===== *)
theory Global_Lock
  imports Global
begin

text \<open>
  Threads that share the global allocator (\<open>GlobalTlsf::lock_inner\<close> in crates/rlsf/src/global.rs and the mutex of
  crates/rlsf/src/global/unix.rs). A call acquires the mutex, works on the state behind the \<open>UnsafeCell\<close> through
  the guard and releases the mutex when the guard is dropped; between these steps other threads run. The mutex is
  modelled by what \<open>pthread_mutex_lock\<close> and \<open>pthread_mutex_unlock\<close> document.
\<close>

section \<open>Threads\<close>

text \<open>The calls of \<open>GlobalAlloc\<close> and of \<open>CAlloc\<close>. The latter do not pass the layout of the allocation they release: \<open>l\<close> in
  \<open>CDealloc ptr l\<close> and \<open>CRealloc ptr l l'\<close> only says which allocation of the thread is meant.\<close>

datatype gcall = GAlloc layout | GDealloc usize layout | GRealloc usize layout usize
| CAlloc layout | CDealloc usize layout | CRealloc usize layout layout

fun run_body ::
  "GlobalTlsfOptions \<Rightarrow> 'x FlexSource \<Rightarrow> 'x TheTlsf \<Rightarrow> mem \<Rightarrow> gcall \<Rightarrow> (usize \<times> 'x TheTlsf \<times> mem) option" where
  "run_body opts S f m (GAlloc l) = GlobalTlsf_alloc S f m l"
| "run_body opts S f m (GDealloc ptr l) = map_option (\<lambda>(f, m). (0, f, m)) (GlobalTlsf_dealloc f m ptr l)"
| "run_body opts S f m (GRealloc ptr l n) = GlobalTlsf_realloc opts S f m ptr l n"
| "run_body opts S f m (CAlloc l) = map_option (\<lambda>(r, f, m). (of_ptr r, f, m)) (CAlloc_allocate S f m l)"
| "run_body opts S f m (CDealloc ptr l) = map_option (\<lambda>(f, m). (0, f, m)) (CAlloc_deallocate f m ptr)"
| "run_body opts S f m (CRealloc ptr l l') = map_option (\<lambda>(r, f, m). (of_ptr r, f, m)) (CAlloc_reallocate S f m ptr l')"

text \<open>Where a thread is: outside, at the mutex, with the guard and the state read through it, or about to
  drop the guard.\<close>

datatype 'x phase = Idle | Waiting gcall | Inside gcall "'x TheTlsf" | Leaving usize

record 'x world =
  inner :: "'x TheTlsf"
  memory :: mem
  mutex :: bool
  phase_of :: "nat \<Rightarrow> 'x phase"
  held :: "nat \<Rightarrow> (usize \<times> layout) set"

definition lock :: "'x world \<Rightarrow> 'x world option" where
  "lock w = (if mutex w then None else Some (w\<lparr>mutex := True\<rparr>))"

definition unlock :: "'x world \<Rightarrow> 'x world" where
  "unlock w = w\<lparr>mutex := False\<rparr>"

text \<open>The allocations a call takes from its thread, and those it gives back with result \<open>r\<close>.\<close>

fun taken :: "gcall \<Rightarrow> (usize \<times> layout) set" where
  "taken (GAlloc l) = {}"
| "taken (GDealloc ptr l) = {(ptr, l)}"
| "taken (GRealloc ptr l n) = {(ptr, l)}"
| "taken (CAlloc l) = {}"
| "taken (CDealloc ptr l) = {(ptr, l)}"
| "taken (CRealloc ptr l l') = {(ptr, l)}"

fun given :: "gcall \<Rightarrow> usize \<Rightarrow> (usize \<times> layout) set" where
  "given (GAlloc l) r = (if r = 0 then {} else {(r, l)})"
| "given (GDealloc ptr l) r = {}"
| "given (GRealloc ptr l n) r = (if r = 0 then {(ptr, l)} else {(r, \<lparr>lsize = n, lalign = lalign l\<rparr>)})"
| "given (CAlloc l) r = (if r = 0 then {} else {(r, l)})"
| "given (CDealloc ptr l) r = {}"
| "given (CRealloc ptr l l') r = (if r = 0 then {(ptr, l)} else {(r, l')})"

fun call_ok :: "gcall \<Rightarrow> bool" where
  "call_ok (GAlloc l) = layout_ok l"
| "call_ok (GDealloc ptr l) = True"
| "call_ok (GRealloc ptr l n) = layout_ok \<lparr>lsize = n, lalign = lalign l\<rparr>"
| "call_ok (CAlloc l) = layout_ok l"
| "call_ok (CDealloc ptr l) = True"
| "call_ok (CRealloc ptr l l') = layout_ok l'"

definition set_phase :: "nat \<Rightarrow> 'x phase \<Rightarrow> 'x world \<Rightarrow> 'x world" where
  "set_phase t ph w = w\<lparr>phase_of := (phase_of w)(t := ph)\<rparr>"

inductive tstep :: "GlobalTlsfOptions \<Rightarrow> 'x FlexSource \<Rightarrow> 'x world \<Rightarrow> 'x world \<Rightarrow> bool" for opts S where
  enter: "phase_of w t = Idle \<Longrightarrow> call_ok c \<Longrightarrow> taken c \<subseteq> held w t \<Longrightarrow>
    tstep opts S w (set_phase t (Waiting c) (w\<lparr>held := (held w)(t := held w t - taken c)\<rparr>))"
| acquire: "phase_of w t = Waiting c \<Longrightarrow> lock w = Some w' \<Longrightarrow> tstep opts S w (set_phase t (Inside c (inner w)) w')"
| body: "phase_of w t = Inside c f \<Longrightarrow> run_body opts S f (memory w) c = Some (r, f', m') \<Longrightarrow>
    tstep opts S w (set_phase t (Leaving r) (w\<lparr>inner := f', memory := m', held := (held w)(t := held w t \<union> given c r)\<rparr>))"
| release: "phase_of w t = Leaving r \<Longrightarrow> tstep opts S w (set_phase t Idle (unlock w))"
| access: "phase_of w t = Idle \<Longrightarrow> (p, l) \<in> held w t \<Longrightarrow> p \<le> y \<Longrightarrow> y < p + lsize l \<Longrightarrow> memory w y \<noteq> None \<Longrightarrow>
    tstep opts S w (w\<lparr>memory := (memory w)(y \<mapsto> v)\<rparr>)"

definition world_new :: "'x \<Rightarrow> mem \<Rightarrow> 'x world" where
  "world_new src m = \<lparr>inner = GlobalTlsf_new src, memory = m, mutex = False, phase_of = (\<lambda>t. Idle), held = (\<lambda>t. {})\<rparr>"

inductive treach :: "GlobalTlsfOptions \<Rightarrow> 'x FlexSource \<Rightarrow> 'x world \<Rightarrow> 'x world \<Rightarrow> bool" for opts S w0 where
  start: "treach opts S w0 w0"
| steps: "treach opts S w0 w \<Longrightarrow> tstep opts S w w' \<Longrightarrow> treach opts S w0 w'"

section \<open>The invariant\<close>

fun pending :: "'x phase \<Rightarrow> (usize \<times> layout) set" where
  "pending (Waiting c) = taken c"
| "pending (Inside c f) = taken c"
| "pending _ = {}"

fun critical :: "'x phase \<Rightarrow> bool" where
  "critical (Inside c f) = True"
| "critical (Leaving r) = True"
| "critical _ = False"

fun phase_ok :: "'x world \<Rightarrow> 'x phase \<Rightarrow> bool" where
  "phase_ok w (Waiting c) = call_ok c"
| "phase_ok w (Inside c f) = (call_ok c \<and> f = inner w)"
| "phase_ok w _ = True"

definition owns :: "'x world \<Rightarrow> nat \<Rightarrow> (usize \<times> layout) set" where
  "owns w t = held w t \<union> pending (phase_of w t)"

definition crit :: "'x world \<Rightarrow> nat set" where
  "crit w = {t. critical (phase_of w t)}"

definition world_inv :: "'x FlexSource \<Rightarrow> ('x \<Rightarrow> mem \<Rightarrow> (usize \<times> usize) set \<Rightarrow> bool) \<Rightarrow> 'x world \<Rightarrow> bool" where
  "world_inv S R w \<longleftrightarrow> GlobalTlsf_ok S R (inner w) (memory w) (\<Union>(range (owns w))) \<and>
     (\<forall>t u. t \<noteq> u \<longrightarrow> owns w t \<inter> owns w u = {}) \<and>
     (\<forall>t. held w t \<inter> pending (phase_of w t) = {} \<and> phase_ok w (phase_of w t)) \<and>
     (if mutex w then \<exists>t. crit w = {t} else crit w = {})"

lemma phase_ok_inner: "inner w' = inner w \<Longrightarrow> phase_ok w' ph = phase_ok w ph"
  by (cases ph) simp_all

lemma phase_ok_outside: "\<not> critical ph \<Longrightarrow> phase_ok w' ph = phase_ok w ph"
  by (cases ph) simp_all

lemma set_phase_simps [simp]:
  "inner (set_phase t ph w) = inner w" "memory (set_phase t ph w) = memory w" "mutex (set_phase t ph w) = mutex w"
  "held (set_phase t ph w) = held w" "phase_of (set_phase t ph w) = (phase_of w)(t := ph)"
  by (simp_all add: set_phase_def)

lemma crit_set_phase: "crit (set_phase t ph w) = (if critical ph then insert t (crit w) else crit w - {t})"
  by (auto simp: crit_def)

lemma crit_phase_of: "phase_of w' = phase_of w \<Longrightarrow> crit w' = crit w"
  by (simp add: crit_def)

context global_tlsf
begin

text \<open>The body of a call on the allocations \<open>A\<close>.\<close>

lemma alloc_given:
  assumes Q: "GlobalTlsf_ok S R f m A" and L: "layout_ok l"
  obtains r f' m' where "flex_allocate global_cfg S f m l = Some (r, f', m')"
    and "GlobalTlsf_ok S R f' m' (A \<union> given (GAlloc l) (of_ptr r))" and "given (GAlloc l) (of_ptr r) \<inter> A = {}"
proof (rule alloc_ok [OF Q L])
  fix r f' m' assume "flex_allocate global_cfg S f m l = Some (r, f', m')" "case r of None \<Rightarrow> GlobalTlsf_ok S R f' m' A
      | Some p \<Rightarrow> 0 < p \<and> lalign l dvd p \<and> p + lsize l \<le> USIZE_LIM \<and> mapped_blk m' (p, lsize l) \<and>
          apart (p, lsize l) (region ` A) \<and> (p, l) \<notin> A \<and> GlobalTlsf_ok S R f' m' (insert (p, l) A)"
  then show thesis by (intro that [of r f' m']) (cases r; simp add: of_ptr_def)+
qed

lemma replaced_given:
  assumes x: "(ptr, l) \<in> A" and r: "replaced S R m A (ptr, l) l' n r f' m'"
  shows "GlobalTlsf_ok S R f' m' (A - {(ptr, l)} \<union> given (CRealloc ptr l l') (of_ptr r))"
    and "given (CRealloc ptr l l') (of_ptr r) \<inter> (A - {(ptr, l)}) = {}"
proof -
  have e: "insert (ptr, l) A = A" using x by blast
  show "GlobalTlsf_ok S R f' m' (A - {(ptr, l)} \<union> given (CRealloc ptr l l') (of_ptr r))"
    "given (CRealloc ptr l l') (of_ptr r) \<inter> (A - {(ptr, l)}) = {}"
    using r by (cases r; auto simp: replaced_def of_ptr_def e)+
qed

lemma run_body_ok:
  assumes Q: "GlobalTlsf_ok S R f m A" and c: "call_ok c" "taken c \<subseteq> A"
  obtains r f' m' where "run_body opts S f m c = Some (r, f', m')" and "GlobalTlsf_ok S R f' m' (A - taken c \<union> given c r)"
    and "given c r \<inter> (A - taken c) = {}"
proof (cases c)
  case (GAlloc l)
  obtain r f' m' where "flex_allocate global_cfg S f m l = Some (r, f', m')"
      "GlobalTlsf_ok S R f' m' (A \<union> given c (of_ptr r))" "given c (of_ptr r) \<inter> A = {}"
    by (rule alloc_given [OF Q, of l]) (use c(1) GAlloc in simp_all)
  then show thesis using GAlloc by (intro that [of "of_ptr r" f' m']) (simp_all add: GlobalTlsf_alloc_def)
next
  case (CAlloc l)
  obtain r f' m' where "flex_allocate global_cfg S f m l = Some (r, f', m')"
      "GlobalTlsf_ok S R f' m' (A \<union> given c (of_ptr r))" "given c (of_ptr r) \<inter> A = {}"
    by (rule alloc_given [OF Q, of l]) (use c(1) CAlloc in simp_all)
  then show thesis using CAlloc by (intro that [of "of_ptr r" f' m']) (simp_all add: CAlloc_allocate_def)
next
  case (GDealloc ptr l)
  then have x: "(ptr, l) \<in> A" using c(2) by simp
  obtain f' m' where "flex_deallocate global_cfg f m ptr (lalign l) = Some (f', m')" "GlobalTlsf_ok S R f' m' (A - {(ptr, l)})"
    by (rule dealloc_ok [OF Q x])
  then show thesis using GDealloc by (intro that [of 0 f' m']) (simp_all add: GlobalTlsf_dealloc_def)
next
  case (CDealloc ptr l)
  then have x: "(ptr, l) \<in> A" using c(2) by simp
  obtain f' m' where "flex_deallocate_unknown_align global_cfg f m ptr = Some (f', m')" "GlobalTlsf_ok S R f' m' (A - {(ptr, l)})"
    by (rule dealloc_ok [OF Q x])
  then show thesis using CDealloc by (intro that [of 0 f' m']) (simp_all add: CAlloc_deallocate_def)
next
  case (GRealloc ptr l n)
  then have x: "(ptr, l) \<in> A" and L: "layout_ok \<lparr>lsize = n, lalign = lalign l\<rparr>" using c by simp_all
  obtain r f' m' where r: "GlobalTlsf_realloc opts S f m ptr l n = Some (of_ptr r, f', m')"
      "replaced S R m A (ptr, l) \<lparr>lsize = n, lalign = lalign l\<rparr> (min (lsize l) n) r f' m'"
    using realloc_ok [OF Q x L] by blast
  then show thesis using GRealloc replaced_given [OF x r(2)] by (intro that [of "of_ptr r" f' m']) simp_all
next
  case (CRealloc ptr l l')
  then have x: "(ptr, l) \<in> A" and L: "layout_ok l'" using c by simp_all
  obtain n r f' m' where r: "CAlloc_reallocate S f m ptr l' = Some (r, f', m')" "replaced S R m A (ptr, l) l' n r f' m'"
    using c_reallocate_ok [OF Q x L] by blast
  then show thesis using CRealloc replaced_given [OF x r(2)] by (intro that [of "of_ptr r" f' m']) simp_all
qed

text \<open>Steps that keep who owns what, and the shared state.\<close>

lemma same_owners:
  assumes I: "world_inv S R w" and o: "owns w' = owns w" "inner w' = inner w" "memory w' = memory w"
    and l: "\<And>t. held w' t \<inter> pending (phase_of w' t) = {}" "\<And>t. phase_ok w (phase_of w' t)"
    and m: "if mutex w' then \<exists>t. crit w' = {t} else crit w' = {}"
  shows "world_inv S R w'"
  using I l m phase_ok_inner [OF o(2)] unfolding world_inv_def o by simp

lemma body_inv:
  assumes I: "world_inv S R w" and ph: "phase_of w t = Inside c f" and r: "run_body opts S f (memory w) c = Some (r, f', m')"
  shows "world_inv S R (set_phase t (Leaving r) (w\<lparr>inner := f', memory := m', held := (held w)(t := held w t \<union> given c r)\<rparr>))"
    (is "world_inv S R ?w")
proof -
  let ?A = "\<Union>(range (owns w))"
  have Q: "GlobalTlsf_ok S R (inner w) (memory w) ?A" and dj: "\<And>u v. u \<noteq> v \<Longrightarrow> owns w u \<inter> owns w v = {}"
    using I by (simp_all add: world_inv_def)
  have loc: "held w u \<inter> pending (phase_of w u) = {}" "phase_ok w (phase_of w u)" for u using I by (simp_all add: world_inv_def)
  have f: "f = inner w" "call_ok c" "held w t \<inter> taken c = {}" using loc [of t] ph by simp_all
  have ot: "owns w t = held w t \<union> taken c" using ph by (simp add: owns_def)
  have "taken c \<subseteq> ?A" using ot by blast
  then obtain r2 f2 m2 where "run_body opts S (inner w) (memory w) c = Some (r2, f2, m2)" "GlobalTlsf_ok S R f2 m2 (?A - taken c \<union> given c r2)"
      "given c r2 \<inter> (?A - taken c) = {}" by (rule run_body_ok [OF Q f(2)])
  then have g: "GlobalTlsf_ok S R f' m' (?A - taken c \<union> given c r)" "given c r \<inter> (?A - taken c) = {}" using r f(1) by simp_all
  have o: "owns ?w u = (if u = t then held w t \<union> given c r else owns w u)" for u by (simp add: owns_def)
  have other: "owns w u \<subseteq> ?A - taken c" if "u \<noteq> t" for u using dj [OF that] ot by blast
  have "held w t \<subseteq> ?A - taken c" using ot f(3) by blast
  have "\<Union>(range (owns ?w)) = ?A - taken c \<union> given c r"
  proof
    show "\<Union>(range (owns ?w)) \<subseteq> ?A - taken c \<union> given c r" using other \<open>held w t \<subseteq> ?A - taken c\<close> unfolding o by (auto split: if_splits)
    have "x \<in> \<Union>(range (owns ?w))" if "x \<in> owns w u" "x \<notin> taken c" for x u
      using that o [of u] ot by (intro UN_I [of u]) (auto split: if_splits)
    moreover have "given c r \<subseteq> owns ?w t" unfolding o by simp
    ultimately show "?A - taken c \<union> given c r \<subseteq> \<Union>(range (owns ?w))" by blast
  qed
  moreover have "owns ?w u \<inter> owns ?w v = {}" if "u \<noteq> v" for u v
  proof -
    have apart: "owns w x \<inter> (held w t \<union> given c r) = {}" if "x \<noteq> t" for x using dj [OF that] other [OF that] g(2) ot by blast
    show ?thesis using that dj [OF that] apart [of u] apart [of v] unfolding o by (auto split: if_splits)
  qed
  moreover have "t \<in> crit w" using ph by (simp add: crit_def)
  then have c: "crit w = {t}" "mutex w" using I by (auto simp: world_inv_def split: if_splits)
  moreover have "phase_ok ?w (phase_of ?w u)" for u
    using phase_ok_outside [of "phase_of w u" ?w w] loc(2) [of u] c(1) by (auto simp: crit_def)
  moreover have "crit ?w = {t}" using c(1) by (auto simp: crit_def)
  ultimately show ?thesis using g(1) loc(1) unfolding world_inv_def by simp
qed

lemma step_inv:
  assumes "tstep opts S w w'" and "world_inv S R w"
  shows "world_inv S R w'"
  using assms
proof (induction rule: tstep.induct)
  case (enter w t c)
  let ?w = "set_phase t (Waiting c) (w\<lparr>held := (held w)(t := held w t - taken c)\<rparr>)"
  have "owns ?w = owns w" using enter.hyps by (auto simp: owns_def fun_eq_iff)
  moreover have "crit ?w = crit w" using enter.hyps by (auto simp: crit_def)
  ultimately show ?case using enter by (intro same_owners [OF enter.prems]) (auto simp: world_inv_def)
next
  case (acquire w t c w')
  have w': "w' = w\<lparr>mutex := True\<rparr>" "\<not> mutex w" using acquire.hyps(2) by (auto simp: lock_def split: if_splits)
  let ?w = "set_phase t (Inside c (inner w)) w'"
  have ph: "phase_ok w (Waiting c)" "held w t \<inter> taken c = {}"
    using acquire.prems acquire.hyps(1) unfolding world_inv_def by (metis, metis pending.simps(1))
  have "owns ?w = owns w" using acquire.hyps(1) by (simp add: owns_def fun_eq_iff w'(1))
  moreover have "crit ?w = {t}" using acquire.prems w'(2) by (simp add: crit_set_phase w'(1) crit_phase_of [of "w\<lparr>mutex := True\<rparr>" w] world_inv_def)
  ultimately show ?case using acquire.prems w' ph by (intro same_owners [OF acquire.prems]) (auto simp: world_inv_def)
next
  case (body w t c f r f' m')
  show ?case by (rule body_inv [OF body.prems body.hyps])
next
  case (release w t r)
  let ?w = "set_phase t Idle (unlock w)"
  have t: "t \<in> crit w" using release.hyps by (simp add: crit_def)
  have "owns ?w = owns w" using release.hyps by (simp add: owns_def fun_eq_iff unlock_def)
  moreover have "crit ?w = {}"
    using release.prems t by (auto simp: crit_set_phase unlock_def crit_phase_of [of "w\<lparr>mutex := False\<rparr>" w] world_inv_def split: if_splits)
  ultimately show ?case using release.prems by (intro same_owners [OF release.prems]) (auto simp: world_inv_def unlock_def)
next
  case (access w t p l y v)
  let ?w = "w\<lparr>memory := (memory w)(y \<mapsto> v)\<rparr>"
  have o: "owns ?w = owns w" by (simp add: owns_def fun_eq_iff)
  have "(p, l) \<in> \<Union>(range (owns w))" using access.hyps(2) by (auto simp: owns_def)
  moreover have "y \<in> blk_range (region (p, l))" using access.hyps(3,4) by (simp add: region_def blk_range_def)
  ultimately have y: "y \<in> \<Union>(blk_range ` region ` \<Union>(range (owns w)))" by blast
  have Q: "GlobalTlsf_ok S R (inner w) (memory w) (\<Union>(range (owns w)))" using access.prems by (simp add: world_inv_def)
  have "dom ((memory w)(y \<mapsto> v)) = dom (memory w)" using access.hyps(5) by auto
  then have "GlobalTlsf_ok S R (inner w) ((memory w)(y \<mapsto> v)) (\<Union>(range (owns w)))"
    by (rule write_ok [OF Q]) (use y in \<open>metis fun_upd_other\<close>)
  moreover have "phase_ok ?w ph = phase_ok w ph" for ph by (rule phase_ok_inner) simp
  moreover have "crit ?w = crit w" by (rule crit_phase_of) simp
  ultimately show ?case using access.prems unfolding world_inv_def o by simp
qed

lemma reach_inv:
  assumes "treach opts S w0 w" and "world_inv S R w0"
  shows "world_inv S R w"
  using assms by (induction rule: treach.induct) (simp_all add: step_inv)

lemma body_runs:
  assumes I: "world_inv S R w" and ph: "phase_of w t = Inside c f"
  shows "f = inner w \<and> (\<exists>r f' m'. run_body opts S f (memory w) c = Some (r, f', m'))"
proof -
  have "phase_ok w (Inside c f)" using I ph unfolding world_inv_def by metis
  then have f: "f = inner w" "call_ok c" by simp_all
  have "taken c \<subseteq> owns w t" using ph by (simp add: owns_def)
  then have t: "taken c \<subseteq> \<Union>(range (owns w))" by blast
  have "GlobalTlsf_ok S R f (memory w) (\<Union>(range (owns w)))" using I f(1) by (simp add: world_inv_def)
  from run_body_ok [OF this f(2) t] f(1) show ?thesis by metis
qed

text \<open>A thread with the guard can always finish its call, and a thread that waits can go on when nobody is inside.\<close>

lemma progress:
  assumes I: "world_inv S R w" and b: "phase_of w t \<noteq> Idle"
  shows "\<exists>u w'. phase_of w u \<noteq> Idle \<and> tstep opts S w w' \<and> phase_of w' u \<noteq> phase_of w u"
proof (cases "mutex w")
  case False
  then have "crit w = {}" using I by (simp add: world_inv_def)
  then have "\<not> critical (phase_of w t)" by (auto simp: crit_def)
  then obtain c where c: "phase_of w t = Waiting c" using b by (cases "phase_of w t") simp_all
  have "lock w = Some (w\<lparr>mutex := True\<rparr>)" using False by (simp add: lock_def)
  from tstep.acquire [OF c this, of opts S] show ?thesis using c
    by (intro exI [of _ t] exI [of _ "set_phase t (Inside c (inner w)) (w\<lparr>mutex := True\<rparr>)"]) simp
next
  case True
  then obtain u where "crit w = {u}" using I by (auto simp: world_inv_def)
  then have u: "critical (phase_of w u)" unfolding crit_def by blast
  show ?thesis
  proof (cases "phase_of w u")
    case (Inside c f)
    obtain r f' m' where b: "run_body opts S f (memory w) c = Some (r, f', m')" using body_runs [OF I Inside] by metis
    let ?w = "set_phase u (Leaving r) (w\<lparr>inner := f', memory := m', held := (held w)(u := held w u \<union> given c r)\<rparr>)"
    from tstep.body [OF Inside b] show ?thesis using Inside by (intro exI [of _ u] exI [of _ ?w]) simp
  next
    case (Leaving r)
    from tstep.release [OF this, of opts S] show ?thesis using Leaving
      by (intro exI [of _ u] exI [of _ "set_phase u Idle (unlock w)"]) simp
  qed (use u in simp_all)
qed

lemma held_usable:
  assumes I: "world_inv S R w" and x: "(p, l) \<in> held w t"
  shows "\<exists>n. CAlloc_allocation_usable_size (memory w) p = Some n \<and> lsize l \<le> n"
proof -
  have Q: "GlobalTlsf_ok S R (inner w) (memory w) (\<Union>(range (owns w)))" using I by (simp add: world_inv_def)
  have "(p, l) \<in> \<Union>(range (owns w))" using x by (auto simp: owns_def)
  from usable_ok [OF Q this] show ?thesis by (metis add_le_imp_le_diff add.commute)
qed

lemma owned_apart:
  assumes I: "world_inv S R w" and "x \<in> held w t" "y \<in> held w u" "x \<noteq> y"
  shows "blk_range (region x) \<inter> blk_range (region y) = {}"
proof -
  have "x \<in> \<Union>(range (owns w))" "y \<in> \<Union>(range (owns w))" using assms(2,3) by (auto simp: owns_def)
  moreover obtain ps As where F: "flex_inv global_cfg S R (inner w) (memory w) ps As" "live ps = triple ` \<Union>(range (owns w))"
    using I unfolding world_inv_def GlobalTlsf_ok_def by blast
  ultimately have "triple x \<in> live ps" "triple y \<in> live ps" by simp_all
  then have "separate (triple x) (triple y)" using F(1) assms(4) triple_inj live_separate by (metis flex_inv_def)
  then show ?thesis by (simp add: separate_def triple_def region_def blk_range_def)
qed

end

section \<open>Thread safety\<close>

text \<open>C20: in every interleaving of threads that call the methods of \<open>GlobalAlloc\<close> and \<open>CAlloc\<close>, each freeing and writing to only what it holds: at most one
  thread is between acquiring and releasing the mutex, the state it reads is the state it writes back to, a call never
  faults, two allocations that threads hold never overlap, the usable size, which is
  read without the mutex, covers the size asked for, and when some thread is in a call, some thread in a call can go on
  (no deadlock).\<close>

theorem threads_safe:
  assumes "flex_allocator S R global_cfg" and "R src m {}" and "treach opts S (world_new src m) w"
  shows "(\<forall>t u. critical (phase_of w t) \<longrightarrow> critical (phase_of w u) \<longrightarrow> t = u) \<and>
    (\<forall>t c f. phase_of w t = Inside c f \<longrightarrow> f = inner w \<and> (\<exists>r f' m'. run_body opts S f (memory w) c = Some (r, f', m'))) \<and>
    (\<forall>t u x y. x \<in> held w t \<longrightarrow> y \<in> held w u \<longrightarrow> x \<noteq> y \<longrightarrow> blk_range (region x) \<inter> blk_range (region y) = {}) \<and>
    (\<forall>t p l. (p, l) \<in> held w t \<longrightarrow> (\<exists>n. CAlloc_allocation_usable_size (memory w) p = Some n \<and> lsize l \<le> n)) \<and>
    (\<forall>t. phase_of w t \<noteq> Idle \<longrightarrow> (\<exists>u w'. phase_of w u \<noteq> Idle \<and> tstep opts S w w' \<and> phase_of w' u \<noteq> phase_of w u))"
proof -
  note G = global_tlsf.intro [OF assms(1)]
  have "world_inv S R (world_new src m)"
    using GlobalTlsf_new_ok [of R src m S, OF assms(2)] by (simp add: world_inv_def world_new_def owns_def crit_def)
  then have I: "world_inv S R w" by (rule global_tlsf.reach_inv [OF G assms(3)])
  have "t = u" if "critical (phase_of w t)" "critical (phase_of w u)" for t u
  proof -
    have "t \<in> crit w" "u \<in> crit w" using that by (simp_all add: crit_def)
    then show ?thesis using I by (auto simp: world_inv_def split: if_splits)
  qed
  moreover have "f = inner w \<and> (\<exists>r f' m'. run_body opts S f (memory w) c = Some (r, f', m'))" if "phase_of w t = Inside c f" for t c f
    using global_tlsf.body_runs [OF G I that] by blast
  moreover have "\<exists>n. CAlloc_allocation_usable_size (memory w) p = Some n \<and> lsize l \<le> n" if "(p, l) \<in> held w t" for t p l
    by (rule global_tlsf.held_usable [OF G I that])
  moreover note global_tlsf.owned_apart [OF G I] global_tlsf.progress [OF G I]
  ultimately show ?thesis by (intro conjI allI impI) (assumption | metis)+
qed

definition demo_world :: "usize world" where
  "demo_world = world_new 4096 (\<lambda>_. None)"

lemma demo_alloc_step: "treach default_options demo_source demo_world (set_phase 1 (Waiting (GAlloc demo_layout)) demo_world)"
proof -
  have "demo_world\<lparr>held := (held demo_world)(1 := held demo_world 1 - {})\<rparr> = demo_world" by (simp add: demo_world_def world_new_def fun_eq_iff)
  moreover have "phase_of demo_world 1 = Idle" by (simp add: demo_world_def world_new_def)
  ultimately have "tstep default_options demo_source demo_world (set_phase 1 (Waiting (GAlloc demo_layout)) demo_world)"
    using tstep.enter [of demo_world 1 "GAlloc demo_layout"] demo_layout_ok by simp
  with treach.start show ?thesis by (rule treach.steps)
qed

theorem threads_safe_witness:
  "\<exists>w u w'. treach default_options demo_source demo_world w \<and> phase_of w 1 = Waiting (GAlloc demo_layout) \<and>
    tstep default_options demo_source w w' \<and> phase_of w' u \<noteq> phase_of w u"
proof -
  let ?w = "set_phase 1 (Waiting (GAlloc demo_layout)) demo_world"
  have b: "demo_blocks 4096 (\<lambda>_. None) {}" by (simp add: demo_cells_def bump_ok_def)
  have ph: "phase_of ?w 1 = Waiting (GAlloc demo_layout)" by simp
  have "\<forall>t. phase_of ?w t \<noteq> Idle \<longrightarrow> (\<exists>u w'. phase_of ?w u \<noteq> Idle \<and> tstep default_options demo_source ?w w' \<and> phase_of w' u \<noteq> phase_of ?w u)"
    using threads_safe [OF demo_flex.flex_allocator_axioms b demo_alloc_step [unfolded demo_world_def]] unfolding demo_world_def by (elim conjE)
  then obtain u w' where "tstep default_options demo_source ?w w'" "phase_of w' u \<noteq> phase_of ?w u" using ph by (metis phase.distinct(1))
  with demo_alloc_step ph show ?thesis by (intro exI conjI)
qed

end
