(* ===== verification/Unix_Source.thy ===== *)
theory Unix_Source
  imports Global
begin

text \<open>
  The source of memory of the global allocator on Unix (crates/rlsf/src/global/unix.rs): pools are
  anonymous private mappings, rounded up to a multiple of an allocation unit of at least 64 KiB; on Linux
  a pool is extended by mapping the pages right after it with \<open>MAP_FIXED_NOREPLACE\<close>. The kernel is a
  parameter: a record of the three calls the code makes, with their documented behaviour as the locale
  \<open>unix_kernel\<close>. The result \<open>None\<close> of a function is \<open>abort\<close> or a panic.
\<close>

unbundle bit_operations_syntax

section \<open>The kernel\<close>

record 'k kernel =
  sysconf_pagesize :: usize
  mmap :: "'k \<Rightarrow> mem \<Rightarrow> usize \<Rightarrow> usize \<Rightarrow> bool \<Rightarrow> usize \<times> 'k \<times> mem"
  munmap :: "'k \<Rightarrow> mem \<Rightarrow> usize \<Rightarrow> usize \<Rightarrow> 'k \<times> mem"

definition MAP_FAILED :: usize where
  "MAP_FAILED = USIZE_LIM - 1"

section \<open>The page size\<close>

definition MIN_ALIGN :: usize where
  "MIN_ALIGN = GRANULARITY"

definition ALLOC_UNIT :: usize where
  "ALLOC_UNIT = 2 ^ 16"

text \<open>The state: the static \<open>PAGE_SIZE_M1\<close> and the state of the kernel. \<open>Source\<close> itself is a phantom.\<close>

record 'k unix_state =
  PAGE_SIZE_M1 :: usize
  kernel_of :: 'k

definition init_page_size :: "'k kernel \<Rightarrow> 'k unix_state \<Rightarrow> (usize \<times> 'k unix_state) option" where
  "init_page_size K x = (
     let page_size = max (sysconf_pagesize K) ALLOC_UNIT
     in if \<not> is_power_of_two page_size then None
        else let x = x\<lparr>PAGE_SIZE_M1 := page_size - 1\<rparr>
             in if page_size < MIN_ALIGN then None
                else Some (PAGE_SIZE_M1 x, x))"

definition ensure_page_size_m1 :: "'k kernel \<Rightarrow> 'k unix_state \<Rightarrow> (usize \<times> 'k unix_state) option" where
  "ensure_page_size_m1 K x = (
     let page_size_m1 = PAGE_SIZE_M1 x
     in if page_size_m1 = 0 then init_page_size K x else Some (page_size_m1, x))"

section \<open>Source\<close>

definition unix_alloc :: "'k kernel \<Rightarrow> 'k unix_state \<Rightarrow> mem \<Rightarrow> usize \<Rightarrow> ((usize \<times> usize) option \<times> 'k unix_state \<times> mem) option" where
  "unix_alloc K x m min_size = do {
     (page_size_m1, x) \<leftarrow> ensure_page_size_m1 K x;
     case checked_add min_size page_size_m1 of
       None \<Rightarrow> Some (None, x, m)
     | Some s \<Rightarrow>
         let num_bytes = s AND not_usize page_size_m1;
             (ptr, k, m) = mmap K (kernel_of x) m 0 num_bytes False;
             x = x\<lparr>kernel_of := k\<rparr>
         in if ptr = MAP_FAILED then Some (None, x, m)
            else Some (map_option (\<lambda>p. (p, num_bytes)) (to_ptr ptr), x, m)
   }"

definition unix_realloc_inplace_grow ::
  "'k kernel \<Rightarrow> GlobalTlsfOptions \<Rightarrow> 'k unix_state \<Rightarrow> mem \<Rightarrow> usize \<times> usize \<Rightarrow> usize \<Rightarrow> (usize option \<times> 'k unix_state \<times> mem) option" where
  "unix_realloc_inplace_grow K opts x m ptr min_new_len = (
     if \<not> COALESCE_POOLS opts then Some (None, x, m)
     else do {
       (page_size_m1, x) \<leftarrow> ensure_page_size_m1 K x;
       case checked_add min_new_len page_size_m1 of
         None \<Rightarrow> Some (None, x, m)
       | Some s \<Rightarrow> do {
           let num_bytes = s AND not_usize page_size_m1;
           num_growth_bytes \<leftarrow> sub_usize num_bytes (nonnull_slice_len ptr);
           let ptr_end = wrapping_add (nonnull_slice_start ptr) (nonnull_slice_len ptr);
           let (ptr_growth_start, k, m) = mmap K (kernel_of x) m ptr_end num_growth_bytes True;
           let x = x\<lparr>kernel_of := k\<rparr>;
           if ptr_growth_start \<noteq> ptr_end then
             let (k, m) = munmap K (kernel_of x) m ptr_growth_start num_growth_bytes
             in Some (None, x\<lparr>kernel_of := k\<rparr>, m)
           else if ptr_growth_start = MAP_FAILED then Some (None, x, m)
           else Some (Some num_bytes, x, m)
         }
     })"

definition unix_source :: "'k kernel \<Rightarrow> bool \<Rightarrow> GlobalTlsfOptions \<Rightarrow> 'k unix_state FlexSource" where
  \<comment> \<open>\<open>linux\<close> is \<open>cfg(target_os = "linux")\<close>; elsewhere the provided methods of the trait are used\<close>
  "unix_source K linux opts = (
     let S = default_source\<lparr>src_alloc := unix_alloc K, src_min_align := MIN_ALIGN\<rparr>
     in if linux then S\<lparr>src_realloc_inplace_grow := unix_realloc_inplace_grow K opts,
          src_supports_realloc_inplace_grow := COALESCE_POOLS opts\<rparr>
        else S)"

definition unix_new :: "'k \<Rightarrow> 'k unix_state" where
  "unix_new k = \<lparr>PAGE_SIZE_M1 = 0, kernel_of = k\<rparr>"

section \<open>What the kernel promises\<close>

text \<open>\<open>owned k m B\<close>: the bytes \<open>B\<close> are mapped for the source. A mapping starts at a page, does not overlap
  what is mapped already (without \<open>MAP_FIXED\<close>, or with \<open>MAP_FIXED_NOREPLACE\<close> on a kernel that knows it, or on an older
  one that takes the address as a hint) and is never at address 0; a length of 0 is an error. \<open>munmap\<close> fails, without an
  effect, at an address that is not a page. A page is a power of two not smaller than a granule.\<close>

locale unix_kernel =
  fixes K :: "'k kernel" and owned :: "'k \<Rightarrow> mem \<Rightarrow> usize set \<Rightarrow> bool"
  assumes page_law: "is_power_of_two (sysconf_pagesize K) \<and> GRANULARITY \<le> sysconf_pagesize K \<and> sysconf_pagesize K < USIZE_LIM"
    and mmap_law: "owned k m B \<Longrightarrow> mmap K k m addr len noreplace = (p, k', m') \<Longrightarrow>
      (\<forall>y \<in> B. m' y = m y) \<and>
      (if p = MAP_FAILED then owned k' m' B
       else 0 < len \<and> 0 < p \<and> sysconf_pagesize K dvd p \<and> p + len \<le> USIZE_LIM \<and> mapped_blk m' (p, len) \<and>
         {p ..< p + len} \<inter> B = {} \<and> owned k' m' (B \<union> {p ..< p + len}))"
    and munmap_law: "owned k m B \<Longrightarrow> sysconf_pagesize K dvd p \<Longrightarrow> sysconf_pagesize K dvd len \<Longrightarrow> {p ..< p + len} \<subseteq> B \<Longrightarrow>
      munmap K k m p len = (k', m') \<Longrightarrow>
      (\<forall>y \<in> B - {p ..< p + len}. m' y = m y) \<and> owned k' m' (B - {p ..< p + len})"
    and munmap_error_law: "owned k m B \<Longrightarrow> \<not> sysconf_pagesize K dvd p \<Longrightarrow> munmap K k m p len = (k', m') \<Longrightarrow>
      (\<forall>y \<in> B. m' y = m y) \<and> owned k' m' B"
    and owner_law: "owned k m B \<Longrightarrow> dom m' = dom m \<Longrightarrow> (\<And>y. y \<notin> B \<Longrightarrow> m' y = m y) \<Longrightarrow> owned k m' B"

definition unit_of :: "'k kernel \<Rightarrow> usize" where
  "unit_of K = max (sysconf_pagesize K) ALLOC_UNIT"

definition unix_blocks :: "'k kernel \<Rightarrow> ('k \<Rightarrow> mem \<Rightarrow> usize set \<Rightarrow> bool) \<Rightarrow> 'k unix_state \<Rightarrow> mem \<Rightarrow> (usize \<times> usize) set \<Rightarrow> bool" where
  "unix_blocks K owned x m A \<longleftrightarrow> (PAGE_SIZE_M1 x = 0 \<or> PAGE_SIZE_M1 x = unit_of K - 1) \<and>
     owned (kernel_of x) m (\<Union>(blk_range ` A)) \<and>
     (\<forall>blk \<in> A. 0 < fst blk \<and> sysconf_pagesize K dvd fst blk \<and> unit_of K dvd snd blk \<and> fst blk + snd blk \<le> USIZE_LIM \<and>
        mapped_blk m blk \<and> apart blk (A - {blk}))"

context unix_kernel
begin

lemma page_pow: obtains k where "sysconf_pagesize K = 2 ^ k" and "5 \<le> k" and "k < 64"
proof -
  obtain k where k: "sysconf_pagesize K = 2 ^ k" using page_law by (metis is_power_of_two_obtain)
  have "(2::nat) ^ 5 \<le> 2 ^ k" "(2::nat) ^ k < 2 ^ 64" using page_law by (simp_all add: k USIZE_LIM_def)
  then show thesis using power_le_imp_le_exp [of 2 5 k] power_less_imp_less_exp [of 2 k 64] by (intro that [OF k]) simp_all
qed

lemma unit_pow: obtains k where "unit_of K = 2 ^ k" and "16 \<le> k" and "k < 64" and "sysconf_pagesize K dvd 2 ^ k"
proof -
  obtain j where j: "sysconf_pagesize K = 2 ^ j" "5 \<le> j" "j < 64" by (rule page_pow)
  have "unit_of K = 2 ^ max j 16" by (cases "j \<le> 16") (simp_all add: unit_of_def j ALLOC_UNIT_def max_def power_increasing_iff [of "2::nat" j 16, simplified])
  then show thesis using j by (intro that [of "max j 16"]) (simp_all add: le_imp_power_dvd)
qed

lemma unit_facts: "0 < unit_of K" "is_power_of_two (unit_of K)" "32 dvd unit_of K" "8 dvd unit_of K" "sysconf_pagesize K dvd unit_of K"
    "32 dvd sysconf_pagesize K" "unit_of K - 1 < USIZE_LIM" "1 < sysconf_pagesize K"
proof -
  obtain k where k: "unit_of K = 2 ^ k" "16 \<le> k" "k < 64" "sysconf_pagesize K dvd 2 ^ k" by (rule unit_pow)
  obtain j where j: "sysconf_pagesize K = 2 ^ j" "5 \<le> j" "j < 64" by (rule page_pow)
  have d: "(2::nat) ^ 5 dvd 2 ^ k" "(2::nat) ^ 3 dvd 2 ^ k" "(2::nat) ^ 5 dvd 2 ^ j" 
    using k(2) j(2) by (intro le_imp_power_dvd, simp)+
  have lt: "(2::nat) ^ k < 2 ^ 64" using k(3) by (rule power_strict_increasing) simp
  show "0 < unit_of K" "is_power_of_two (unit_of K)" "sysconf_pagesize K dvd unit_of K" using k is_power_of_two_pow2 by simp_all
  show "32 dvd unit_of K" "8 dvd unit_of K" "32 dvd sysconf_pagesize K" using d by (simp_all add: k j)
  show "unit_of K - 1 < USIZE_LIM" using lt by (simp add: k USIZE_LIM_def)
  show "1 < sysconf_pagesize K" using page_law by simp
qed

text \<open>The allocation unit is set once and for all.\<close>

lemma ensure_ok:
  assumes "PAGE_SIZE_M1 x = 0 \<or> PAGE_SIZE_M1 x = unit_of K - 1"
  obtains x' where "ensure_page_size_m1 K x = Some (unit_of K - 1, x')" and "PAGE_SIZE_M1 x' = unit_of K - 1" and "kernel_of x' = kernel_of x"
proof (cases "PAGE_SIZE_M1 x = 0")
  case True
  have "\<not> unit_of K < MIN_ALIGN" by (simp add: unit_of_def MIN_ALIGN_def ALLOC_UNIT_def)
  then show thesis using True unit_facts(2) [unfolded unit_of_def] that [of "x\<lparr>PAGE_SIZE_M1 := unit_of K - 1\<rparr>"]
    by (simp add: ensure_page_size_m1_def init_page_size_def unit_of_def Let_def)
next
  case False
  then show thesis using assms that [of x] by (simp add: ensure_page_size_m1_def Let_def)
qed

lemma num_bytes_round_up:
  assumes "n + (unit_of K - 1) < USIZE_LIM"
  shows "(n + (unit_of K - 1)) AND not_usize (unit_of K - 1) = round_up (unit_of K) n"
proof -
  obtain k where k: "unit_of K = 2 ^ k" "k < 64" by (metis unit_pow)
  then show ?thesis using assms and_not_round_up [of n k] by simp
qed

lemma mapping_joins:
  assumes R: "unix_blocks K owned x m A" and ag: "agree m m' A" and P: "PAGE_SIZE_M1 x1 = unit_of K - 1"
    and q: "0 < p" "sysconf_pagesize K dvd p" "p + n \<le> USIZE_LIM" "mapped_blk m' (p, n)" "{p ..< p + n} \<inter> \<Union>(blk_range ` A) = {}"
      "owned k' m' (\<Union>(blk_range ` A) \<union> {p ..< p + n})" and n: "unit_of K dvd n"
  shows "block_ok (unix_source K linux opts) (p, n)" and "apart (p, n) A"
    and "unix_blocks K owned (x1\<lparr>kernel_of := k'\<rparr>) m' (insert (p, n) A)"
proof -
  have B: "\<And>blk. blk \<in> A \<Longrightarrow> 0 < fst blk \<and> sysconf_pagesize K dvd fst blk \<and> unit_of K dvd snd blk \<and> fst blk + snd blk \<le> USIZE_LIM \<and>
      mapped_blk m blk \<and> apart blk (A - {blk})" using R by (simp add: unix_blocks_def)
  have kept: "mapped_blk m' blk" if "blk \<in> A" for blk using B that ag by (auto simp: mapped_blk_def agree_def)
  have "blk_range (p, n) = {p ..< p + n}" by (simp add: blk_range_def)
  then show ap: "apart (p, n) A" using q(5) unfolding apart_def by blast
  have "32 dvd p" "32 dvd n" "8 dvd n" using unit_facts(3,4,6) q(2) n by (auto intro: dvd_trans)
  then show "block_ok (unix_source K linux opts) (p, n)"
    using q(1,3) by (simp add: block_ok_def unix_source_def MIN_ALIGN_def default_source_def Let_def)
  have "\<Union>(blk_range ` insert (p, n) A) = \<Union>(blk_range ` A) \<union> {p ..< p + n}" by (auto simp: blk_range_def)
  moreover have "apart blk (insert (p, n) A - {blk})" if "blk \<in> A" for blk
    using B [OF that] ap that by (auto simp: apart_def)
  moreover have "apart (p, n) (insert (p, n) A - {(p, n)})" using ap by (simp add: apart_def)
  ultimately show "unix_blocks K owned (x1\<lparr>kernel_of := k'\<rparr>) m' (insert (p, n) A)" using q n B kept P by (simp add: unix_blocks_def)
qed

lemma alloc_served:
  assumes R: "unix_blocks K owned x m A" and n: "0 < n"
  shows "\<exists>r x' m'. unix_alloc K x m n = Some (r, x', m') \<and> agree m m' A \<and>
    (case r of None \<Rightarrow> unix_blocks K owned x' m' A
     | Some blk \<Rightarrow> n \<le> snd blk \<and> block_ok (unix_source K linux opts) blk \<and> mapped_blk m' blk \<and> apart blk A \<and>
         unix_blocks K owned x' m' (insert blk A))"
proof -
  have P: "PAGE_SIZE_M1 x = 0 \<or> PAGE_SIZE_M1 x = unit_of K - 1" and O: "owned (kernel_of x) m (\<Union>(blk_range ` A))"
    and B: "\<And>blk. blk \<in> A \<Longrightarrow> 0 < fst blk \<and> sysconf_pagesize K dvd fst blk \<and> unit_of K dvd snd blk \<and> fst blk + snd blk \<le> USIZE_LIM \<and>
        mapped_blk m blk \<and> apart blk (A - {blk})" using R by (simp_all add: unix_blocks_def)
  obtain x1 where x1: "ensure_page_size_m1 K x = Some (unit_of K - 1, x1)" "PAGE_SIZE_M1 x1 = unit_of K - 1" "kernel_of x1 = kernel_of x"
    by (rule ensure_ok [OF P])
  show ?thesis
  proof (cases "n + (unit_of K - 1) < USIZE_LIM")
    case False
    then have "unix_alloc K x m n = Some (None, x1, m)" by (simp add: unix_alloc_def x1 checked_add_def)
    moreover have "unix_blocks K owned x1 m A" using R x1 by (simp add: unix_blocks_def)
    ultimately show ?thesis by (simp add: agree_def)
  next
    case True
    let ?n = "round_up (unit_of K) n"
    obtain p k' m' where mm: "mmap K (kernel_of x) m 0 ?n False = (p, k', m')" by (metis surj_pair)
    note law = mmap_law [OF O mm]
    have ag: "agree m m' A" using law by (auto simp: agree_def)
    have kept: "mapped_blk m' blk" if "blk \<in> A" for blk using B that ag by (auto simp: mapped_blk_def agree_def)
    have ev: "unix_alloc K x m n = (if p = MAP_FAILED then Some (None, x1\<lparr>kernel_of := k'\<rparr>, m')
        else Some (map_option (\<lambda>p. (p, ?n)) (to_ptr p), x1\<lparr>kernel_of := k'\<rparr>, m'))"
      using True by (simp add: unix_alloc_def x1 checked_add_def num_bytes_round_up [OF True, unfolded One_nat_def] mm Let_def)
    show ?thesis
    proof (cases "p = MAP_FAILED")
      case True
      then have "unix_blocks K owned (x1\<lparr>kernel_of := k'\<rparr>) m' A" using law B kept x1 by (simp add: unix_blocks_def)
      then show ?thesis using ev True ag by simp
    next
      case False
      let ?b = "(p, ?n)"
      have q: "0 < p" "sysconf_pagesize K dvd p" "p + ?n \<le> USIZE_LIM" "mapped_blk m' ?b" "{p ..< p + ?n} \<inter> \<Union>(blk_range ` A) = {}"
        "owned k' m' (\<Union>(blk_range ` A) \<union> {p ..< p + ?n})" using law False by simp_all
      have "unit_of K dvd ?n" by simp
      note j = mapping_joins [OF R ag x1(2) q this]
      have "n \<le> ?n" using unit_facts(1) by (rule round_up_ge)
      then show ?thesis using ev False ag j q(1,4) by (simp add: to_ptr_def)
    qed
  qed
qed

lemma MAP_FAILED_no_page: "\<not> sysconf_pagesize K dvd MAP_FAILED"
proof
  assume d: "sysconf_pagesize K dvd MAP_FAILED"
  obtain j where j: "sysconf_pagesize K = 2 ^ j" "5 \<le> j" "j < 64" by (rule page_pow)
  have "2 ^ j dvd (2::nat) ^ 64" using j(3) by (intro le_imp_power_dvd) simp
  moreover have "(2::nat) ^ 64 = MAP_FAILED + 1" by (simp add: MAP_FAILED_def USIZE_LIM_def)
  ultimately have "2 ^ j dvd (1::nat)" using d unfolding j(1) by (metis dvd_add_right_iff)
  then show False using j(2) by simp
qed

text \<open>A mapping at another address than the one asked for is undone; after a failed one, \<open>munmap\<close> is called on
  \<open>MAP_FAILED\<close>, which is an error without an effect.\<close>

lemma refused_mapping:
  assumes O: "owned k m B" and mm: "mmap K k m addr len True = (p, k', m')" and len: "sysconf_pagesize K dvd len"
    and un: "munmap K k' m' p len = (k2, m2)"
  shows "(\<forall>y \<in> B. m2 y = m y) \<and> owned k2 m2 B"
proof (cases "p = MAP_FAILED")
  case True
  then have "owned k' m' B" "\<forall>y \<in> B. m' y = m y" using mmap_law [OF O mm] by simp_all
  then show ?thesis using munmap_error_law [OF _ _ un] MAP_FAILED_no_page True by simp
next
  case False
  let ?I = "{p ..< p + len}"
  have l: "\<forall>y \<in> B. m' y = m y" "sysconf_pagesize K dvd p" "?I \<inter> B = {}" "owned k' m' (B \<union> ?I)"
    using mmap_law [OF O mm] False by simp_all
  have "B \<union> ?I - ?I = B" using l(3) by blast
  then show ?thesis using munmap_law [OF l(4,2) len _ un] l(1) by simp
qed

definition extended_law :: "usize \<times> usize \<Rightarrow> usize \<Rightarrow> 'k unix_state \<Rightarrow> 'k \<Rightarrow> mem \<Rightarrow> (usize \<times> usize) set \<Rightarrow> bool" where
  "extended_law blk k x1 k' m' A \<longleftrightarrow> fst blk + k \<le> USIZE_LIM \<and> mapped_blk m' (fst blk, k) \<and> apart (fst blk, k) (A - {blk}) \<and>
     unix_blocks K owned (x1\<lparr>kernel_of := k'\<rparr>) m' (insert (fst blk, k) (A - {blk}))"

lemma extended:
  assumes R: "unix_blocks K owned x m A" and b: "(s, L) \<in> A" and x1: "PAGE_SIZE_M1 x1 = unit_of K - 1" and ag: "agree m m' A"
    and k: "L \<le> k" "unit_of K dvd k"
    and p: "s + L + (k - L) \<le> USIZE_LIM" "mapped_blk m' (s + L, k - L)" "{s + L ..< s + L + (k - L)} \<inter> \<Union>(blk_range ` A) = {}"
      "owned k' m' (\<Union>(blk_range ` A) \<union> {s + L ..< s + L + (k - L)})"
  shows "extended_law (s, L) k x1 k' m' A"
proof -
  let ?I = "{s + L ..< s + L + (k - L)}" and ?A = "insert (s, k) (A - {(s, L)})"
  have B: "\<And>a. a \<in> A \<Longrightarrow> 0 < fst a \<and> sysconf_pagesize K dvd fst a \<and> unit_of K dvd snd a \<and> fst a + snd a \<le> USIZE_LIM \<and>
      mapped_blk m a \<and> apart a (A - {a})" using R by (simp add: unix_blocks_def)
  note sL = B [OF b, unfolded fst_conv snd_conv]
  have split: "blk_range (s, k) = blk_range (s, L) \<union> ?I" using k(1) by (auto simp: blk_range_def)
  have ap: "apart (s, k) (A - {(s, L)})" using sL p(3) unfolding apart_def split by blast
  have kept: "mapped_blk m' a" if "a \<in> A" for a using B [OF that] ag that by (auto simp: mapped_blk_def agree_def)
  have "blk_range (s + L, k - L) = ?I" by (simp add: blk_range_def)
  then have mp: "mapped_blk m' (s, k)" using kept [OF b] p(2) unfolding mapped_blk_def split by auto
  have le: "s + k \<le> USIZE_LIM" using p(1) k(1) by simp
  have "\<Union>(blk_range ` ?A) = \<Union>(blk_range ` A) \<union> ?I" using b unfolding image_insert Union_insert split by blast
  moreover have "apart a (?A - {a})" if "a \<in> A - {(s, L)}" for a using B [of a] that ap unfolding apart_def by blast
  moreover have "apart (s, k) (?A - {(s, k)})" using ap unfolding apart_def by blast
  ultimately have "unix_blocks K owned (x1\<lparr>kernel_of := k'\<rparr>) m' ?A" using p(4) B kept x1 mp le k(2) sL by (simp add: unix_blocks_def)
  then show ?thesis using ap mp le by (simp add: extended_law_def)
qed

lemma grow_served:
  assumes R: "unix_blocks K owned x m A" and b: "blk \<in> A" and n: "snd blk \<le> n" and opt: "COALESCE_POOLS opts"
  shows "\<exists>r x' m'. unix_realloc_inplace_grow K opts x m blk n = Some (r, x', m') \<and> agree m m' A \<and>
    (case r of None \<Rightarrow> unix_blocks K owned x' m' A
     | Some k \<Rightarrow> n \<le> k \<and> unit_of K dvd k \<and> fst blk + k \<le> USIZE_LIM \<and> mapped_blk m' (fst blk, k) \<and>
         apart (fst blk, k) (A - {blk}) \<and> unix_blocks K owned x' m' (insert (fst blk, k) (A - {blk})))"
proof -
  obtain s L where blk: "blk = (s, L)" by (metis surj_pair)
  have P: "PAGE_SIZE_M1 x = 0 \<or> PAGE_SIZE_M1 x = unit_of K - 1" and O: "owned (kernel_of x) m (\<Union>(blk_range ` A))"
    and B: "\<And>a. a \<in> A \<Longrightarrow> 0 < fst a \<and> sysconf_pagesize K dvd fst a \<and> unit_of K dvd snd a \<and> fst a + snd a \<le> USIZE_LIM \<and>
        mapped_blk m a \<and> apart a (A - {a})" using R by (simp_all add: unix_blocks_def)
  have sL: "0 < s" "sysconf_pagesize K dvd s" "unit_of K dvd L" "s + L \<le> USIZE_LIM" "mapped_blk m (s, L)" "apart (s, L) (A - {(s, L)})"
    using B [OF b] by (simp_all add: blk)
  obtain x1 where x1: "ensure_page_size_m1 K x = Some (unit_of K - 1, x1)" "PAGE_SIZE_M1 x1 = unit_of K - 1" "kernel_of x1 = kernel_of x"
    by (rule ensure_ok [OF P])
  have same: "unix_blocks K owned (x1\<lparr>kernel_of := k'\<rparr>) m' A" if "owned k' m' (\<Union>(blk_range ` A))" "agree m m' A" for k' m'
    using that B x1 by (auto simp: unix_blocks_def mapped_blk_def agree_def)
  show ?thesis
  proof (cases "n + (unit_of K - 1) < USIZE_LIM")
    case False
    then have "unix_realloc_inplace_grow K opts x m blk n = Some (None, x1, m)" using opt by (simp add: unix_realloc_inplace_grow_def x1 checked_add_def)
    moreover have "unix_blocks K owned x1 m A" using R x1 by (simp add: unix_blocks_def)
    ultimately show ?thesis by (simp add: agree_def)
  next
    case True
    let ?k = "round_up (unit_of K) n" and ?e = "wrapping_add s L"
    have k: "L \<le> ?k" "n \<le> ?k" "unit_of K dvd ?k" using round_up_ge [OF unit_facts(1), of n] n by (simp_all add: blk)
    obtain p k' m' where mm: "mmap K (kernel_of x) m ?e (?k - L) True = (p, k', m')" by (metis surj_pair)
    note law = mmap_law [OF O mm]
    have ag: "agree m m' A" using law by (auto simp: agree_def)
    obtain k2 m2 where un: "munmap K k' m' p (?k - L) = (k2, m2)" by (metis surj_pair)
    have ev: "unix_realloc_inplace_grow K opts x m blk n = (if p \<noteq> ?e then Some (None, x1\<lparr>kernel_of := k2\<rparr>, m2)
        else if p = MAP_FAILED then Some (None, x1\<lparr>kernel_of := k'\<rparr>, m') else Some (Some ?k, x1\<lparr>kernel_of := k'\<rparr>, m'))"
      using True opt k(1) mm un
      by (simp add: unix_realloc_inplace_grow_def x1 checked_add_def num_bytes_round_up [OF True, unfolded One_nat_def] blk sub_usize_def Let_def)
    show ?thesis
    proof (cases "p = ?e \<and> p \<noteq> MAP_FAILED")
      case False
      have "\<exists>k3 m3. unix_realloc_inplace_grow K opts x m blk n = Some (None, x1\<lparr>kernel_of := k3\<rparr>, m3) \<and> agree m m3 A \<and>
          owned k3 m3 (\<Union>(blk_range ` A))"
      proof (cases "p = ?e")
        case True
        then show ?thesis using ev False ag law by auto
      next
        case ne: False
        have "sysconf_pagesize K dvd ?k - L" using k(3) sL(3) unit_facts(5) by (meson dvd_diff_nat dvd_trans)
        then have "agree m m2 A \<and> owned k2 m2 (\<Union>(blk_range ` A))" using refused_mapping [OF O mm _ un] by (simp add: agree_def)
        then show ?thesis using ev ne by (intro exI [of _ k2] exI [of _ m2]) simp
      qed
      then show ?thesis using same by force
    next
      case True
      have e: "p = s + L" using law True sL(4) by (cases "s + L = USIZE_LIM") (simp_all add: wrapping_add_def)
      have p: "p + (?k - L) \<le> USIZE_LIM" "mapped_blk m' (p, ?k - L)" "{p ..< p + (?k - L)} \<inter> \<Union>(blk_range ` A) = {}"
        "owned k' m' (\<Union>(blk_range ` A) \<union> {p ..< p + (?k - L)})" using law [unfolded if_not_P [OF conjunct2 [OF True]]] by blast+
      have "extended_law (s, L) ?k x1 k' m' A" by (rule extended [OF R b [unfolded blk] x1(2) ag k(1,3) p [unfolded e]])
      then show ?thesis using ev True ag k(2,3) by (simp add: blk extended_law_def)
    qed
  qed
qed

end

sublocale unix_kernel \<subseteq> unix: flex_source "unix_source K linux opts" "unix_blocks K owned"
proof
  show "is_power_of_two (src_min_align (unix_source K linux opts))"
    using is_power_of_two_pow2 [of 5] by (simp add: unix_source_def MIN_ALIGN_def Let_def)
next
  fix x m A n assume R: "unix_blocks K owned x m A" and n: "0 < (n::usize)"
  show "\<exists>r x' m'. src_alloc (unix_source K linux opts) x m n = Some (r, x', m') \<and> agree m m' A \<and>
      (case r of None \<Rightarrow> unix_blocks K owned x' m' A
       | Some blk \<Rightarrow> n \<le> snd blk \<and> block_ok (unix_source K linux opts) blk \<and> mapped_blk m' blk \<and> apart blk A \<and>
           unix_blocks K owned x' m' (insert blk A))"
    using alloc_served [OF R n, of linux opts] by (simp add: unix_source_def Let_def)
next
  fix x m A blk n assume R: "unix_blocks K owned x m A" and b: "blk \<in> A" and n: "snd blk \<le> n"
  show "\<exists>r x' m'. src_realloc_inplace_grow (unix_source K linux opts) x m blk n = Some (r, x', m') \<and> agree m m' A \<and>
      (case r of None \<Rightarrow> unix_blocks K owned x' m' A
       | Some k \<Rightarrow> src_supports_realloc_inplace_grow (unix_source K linux opts) \<and> n \<le> k \<and> block_ok (unix_source K linux opts) (fst blk, k) \<and>
           mapped_blk m' (fst blk, k) \<and> apart (fst blk, k) (A - {blk}) \<and> unix_blocks K owned x' m' (insert (fst blk, k) (A - {blk})))"
  proof (cases "linux \<and> COALESCE_POOLS opts")
    case True
    have s: "0 < fst blk" "sysconf_pagesize K dvd fst blk" using R b by (simp_all add: unix_blocks_def)
    then have "32 dvd fst blk" using unit_facts(6) by (blast intro: dvd_trans)
    then have "block_ok (unix_source K linux opts) (fst blk, k)" if "unit_of K dvd k" "fst blk + k \<le> USIZE_LIM" for k
      using that s(1) unit_facts(3,4) dvd_trans [OF _ that(1)] by (simp add: block_ok_def unix_source_def MIN_ALIGN_def Let_def)
    then show ?thesis using grow_served [OF R b n, of opts] True by (fastforce simp: unix_source_def Let_def split: option.splits)
  next
    case False
    then have "src_realloc_inplace_grow (unix_source K linux opts) x m blk n = Some (None, x, m)"
      by (auto simp: unix_source_def Let_def default_source_def unix_realloc_inplace_grow_def)
    then show ?thesis using R by (simp add: agree_def)
  qed
next
  fix x m A m' assume R: "unix_blocks K owned x m A" and dm: "dom m' = dom m" and out: "\<And>y. y \<notin> \<Union>(blk_range ` A) \<Longrightarrow> m' y = m y"
  have "owned (kernel_of x) m' (\<Union>(blk_range ` A))" by (rule owner_law [OF _ dm out]) (use R in \<open>simp add: unix_blocks_def\<close>)
  then show "unix_blocks K owned x m' A" using R mapped_dom [OF _ dm] unfolding unix_blocks_def by blast
qed (simp add: unix_source_def Let_def default_source_def split: if_splits)

section \<open>The global allocator on Unix\<close>

text \<open>With \<open>usize::BITS\<close> lists a pool has no maximum size, so the source serves \<open>GlobalTlsf\<close>.\<close>

sublocale unix_kernel \<subseteq> unix_global: global_tlsf "unix_source K linux opts" "unix_blocks K owned"
  by (rule global_tlsf.intro, rule granular_allocator [OF unix.flex_source_axioms]) (simp add: global_unbounded unix_source_def MIN_ALIGN_def Let_def)

context unix_kernel
begin

lemma unix_allocator: "flex_allocator (unix_source K linux opts) (unix_blocks K owned) global_cfg"
  by (rule unix_global.flex_allocator_axioms)

lemma unix_contract:
  "global_allocator (GlobalTlsf_global_alloc (unix_source K linux opts)) (GlobalTlsf_ok (unix_source K linux opts) (unix_blocks K owned))"
  by (rule unix_global.contract)

lemma unix_new_blocks: "owned k m {} \<Longrightarrow> unix_blocks K owned (unix_new k) m {}"
  by (simp add: unix_blocks_def unix_new_def)

end

text \<open>A kernel that maps increasing addresses, for the examples.\<close>

definition bump_kernel :: "usize kernel" where
  "bump_kernel = \<lparr>
     sysconf_pagesize = 4096,
     mmap = (\<lambda>k m addr len noreplace.
       if len = 0 \<or> 2 ^ 40 \<le> k + len \<or> noreplace \<and> addr \<noteq> k then (MAP_FAILED, k, m)
       else (k, round_up 4096 (k + len), \<lambda>y. if k \<le> y \<and> y < k + len then Some 0 else m y)),
     munmap = (\<lambda>k m p len. (k, \<lambda>y. if 4096 dvd p \<and> p \<le> y \<and> y < p + len then None else m y))\<rparr>"

definition bump_owned :: "usize \<Rightarrow> mem \<Rightarrow> usize set \<Rightarrow> bool" where
  "bump_owned k m B \<longleftrightarrow> 0 < k \<and> 4096 dvd k \<and> (\<forall>y \<in> B. y < k)"

interpretation bump_unix: unix_kernel bump_kernel bump_owned
proof
  show "is_power_of_two (sysconf_pagesize bump_kernel) \<and> GRANULARITY \<le> sysconf_pagesize bump_kernel \<and> sysconf_pagesize bump_kernel < USIZE_LIM"
    using is_power_of_two_pow2 [of 12] by (simp add: bump_kernel_def USIZE_LIM_def)
next
  fix k m B addr len noreplace p k' m' assume O: "bump_owned k m B" and mm: "mmap bump_kernel k m addr len noreplace = (p, k', m')"
  show "(\<forall>y \<in> B. m' y = m y) \<and> (if p = MAP_FAILED then bump_owned k' m' B
       else 0 < len \<and> 0 < p \<and> sysconf_pagesize bump_kernel dvd p \<and> p + len \<le> USIZE_LIM \<and> mapped_blk m' (p, len) \<and>
         {p ..< p + len} \<inter> B = {} \<and> bump_owned k' m' (B \<union> {p ..< p + len}))"
  proof (cases "len = 0 \<or> 2 ^ 40 \<le> k + len \<or> noreplace \<and> addr \<noteq> k")
    case True
    then show ?thesis using O mm by (auto simp: bump_kernel_def)
  next
    case False
    then have v: "p = k" "k' = round_up 4096 (k + len)" "m' = (\<lambda>y. if k \<le> y \<and> y < k + len then Some 0 else m y)"
      using mm by (auto simp: bump_kernel_def)
    have "k + len \<le> k'" unfolding v(2) by (rule round_up_ge) simp
    moreover have "4096 dvd k'" unfolding v(2) by (rule round_up_dvd)
    moreover have "p \<noteq> MAP_FAILED" using False v(1) by (auto simp: MAP_FAILED_def USIZE_LIM_def)
    ultimately show ?thesis using O False by (fastforce simp: v(1,3) bump_owned_def mapped_blk_def blk_range_def bump_kernel_def USIZE_LIM_def)
  qed
next
  fix k m B p len k' m' assume O: "bump_owned k m B" and mm: "munmap bump_kernel k m p len = (k', m')"
  then show "(\<forall>y \<in> B - {p ..< p + len}. m' y = m y) \<and> bump_owned k' m' (B - {p ..< p + len})"
    by (auto simp: bump_kernel_def bump_owned_def)
  show "(\<forall>y \<in> B. m' y = m y) \<and> bump_owned k' m' B" if "\<not> sysconf_pagesize bump_kernel dvd p"
    using O mm that by (auto simp: bump_kernel_def bump_owned_def)
next
  fix k m B m' assume "bump_owned k m B"
  then show "bump_owned k m' B" by (simp add: bump_owned_def)
qed

text \<open>C23: on every kernel that keeps its promises, Linux or not and with every option, the mappings are a correct
  source for \<open>FlexTlsf\<close> and \<open>GlobalTlsf\<close> on top of it is a correct \<open>GlobalAlloc\<close>, starting from the initial statics.\<close>

theorem unix_global_allocator:
  assumes "unix_kernel K owned"
  shows "flex_source (unix_source K linux opts) (unix_blocks K owned) \<and>
    global_allocator (GlobalTlsf_global_alloc (unix_source K linux opts)) (GlobalTlsf_ok (unix_source K linux opts) (unix_blocks K owned)) \<and>
    (owned k m {} \<longrightarrow> GlobalTlsf_ok (unix_source K linux opts) (unix_blocks K owned) (GlobalTlsf_new (unix_new k)) m {})"
  by (intro conjI impI unix_kernel.unix_contract [OF assms] GlobalTlsf_new_ok unix_kernel.unix_new_blocks [OF assms]
      flex_allocator.axioms(1) [OF unix_kernel.unix_allocator [OF assms]])

theorem unix_global_allocator_witness:
  "GlobalTlsf_ok (unix_source bump_kernel True default_options) (unix_blocks bump_kernel bump_owned) (GlobalTlsf_new (unix_new 65536)) (\<lambda>_. None) {}"
  using unix_global_allocator [OF bump_unix.unix_kernel_axioms, of True default_options 65536 "\<lambda>_. None"] by (simp add: bump_owned_def)

end
