(* ===== verification/Override.thy ===== *)
theory Override
  imports Unix_Source
begin

text \<open>
  The C and C++ allocation functions that \<open>rlsf_override\<close> exports (crates/rlsf_override/src/lib.rs), over
  the static global allocator \<open>ALLOC\<close> with its default options. A function takes the state of \<open>ALLOC\<close> and the
  memory; null pointers are 0 and a result \<open>None\<close> is a panic.
\<close>

unbundle bit_operations_syntax

section \<open>Constants\<close>

text \<open>The \<open>target_arch\<close> of the build.\<close>

datatype target_arch =
  x86 | arm | mips | powerpc | powerpc64 | sparc | asmjs | wasm32 | hexagon | riscv32
| x86_64 | aarch64 | mips64 | s390x | sparc64 | riscv64

definition malloc_MIN_ALIGN :: "target_arch \<Rightarrow> usize" where
  "malloc_MIN_ALIGN arch = (if arch \<in> {x86, arm, mips, powerpc, powerpc64, sparc, asmjs, wasm32, hexagon, riscv32} then 8 else 16)"

definition ENOMEM :: int where
  "ENOMEM = 12"

text \<open>\<open>ptr::write_bytes\<close>.\<close>

definition write_bytes :: "mem \<Rightarrow> usize \<Rightarrow> usize \<Rightarrow> usize \<Rightarrow> mem option" where
  "write_bytes m p v n = store_bytes m p (replicate n v)"

section \<open>C\<close>

definition aligned_alloc :: "'x FlexSource \<Rightarrow> 'x TheTlsf \<Rightarrow> mem \<Rightarrow> usize \<Rightarrow> usize \<Rightarrow> (usize \<times> 'x TheTlsf \<times> mem) option" where
  "aligned_alloc S f m alignment sz = (case from_size_align sz alignment of
     None \<Rightarrow> Some (0, f, m)
   | Some layout \<Rightarrow> do {
       (r, f, m) \<leftarrow> CAlloc_allocate S f m layout;
       case r of
         Some ptr \<Rightarrow> Some (ptr, f, m)
       | None \<Rightarrow> Some (0, f, m)
     })"

definition malloc :: "target_arch \<Rightarrow> 'x FlexSource \<Rightarrow> 'x TheTlsf \<Rightarrow> mem \<Rightarrow> usize \<Rightarrow> (usize \<times> 'x TheTlsf \<times> mem) option" where
  "malloc arch S f m sz = aligned_alloc S f m (malloc_MIN_ALIGN arch) sz"

definition malloc_usable_size :: "mem \<Rightarrow> usize \<Rightarrow> usize option" where
  "malloc_usable_size m p = (case to_ptr p of
     Some p \<Rightarrow> CAlloc_allocation_usable_size m p
   | None \<Rightarrow> Some 0)"

definition page_size :: "'k kernel \<Rightarrow> usize" where
  "page_size K = sysconf_pagesize K"

definition valloc :: "'k kernel \<Rightarrow> 'x FlexSource \<Rightarrow> 'x TheTlsf \<Rightarrow> mem \<Rightarrow> usize \<Rightarrow> (usize \<times> 'x TheTlsf \<times> mem) option" where
  "valloc K S f m sz = aligned_alloc S f m (page_size K) sz"

definition pvalloc :: "'k kernel \<Rightarrow> 'x FlexSource \<Rightarrow> 'x TheTlsf \<Rightarrow> mem \<Rightarrow> usize \<Rightarrow> (usize \<times> 'x TheTlsf \<times> mem) option" where
  "pvalloc K S f m sz = do {
     let page_size = page_size K;
     d \<leftarrow> sub_usize page_size 1;
     case map_option (\<lambda>x. x AND not_usize d) (checked_add sz d) of
       Some sz \<Rightarrow> aligned_alloc S f m page_size sz
     | None \<Rightarrow> Some (0, f, m)
   }"

definition calloc :: "target_arch \<Rightarrow> 'x FlexSource \<Rightarrow> 'x TheTlsf \<Rightarrow> mem \<Rightarrow> usize \<Rightarrow> usize \<Rightarrow> (usize \<times> 'x TheTlsf \<times> mem) option" where
  "calloc arch S f m number sz = (
     case checked_mul sz number \<bind> (\<lambda>len. from_size_align len (malloc_MIN_ALIGN arch)) of
       None \<Rightarrow> Some (0, f, m)
     | Some layout \<Rightarrow> do {
         (r, f, m) \<leftarrow> CAlloc_allocate S f m layout;
         case r of
           Some ptr \<Rightarrow> do {
             m \<leftarrow> write_bytes m ptr 0 (lsize layout);
             Some (ptr, f, m)
           }
         | None \<Rightarrow> Some (0, f, m)
       })"

definition posix_memalign ::
  "'x FlexSource \<Rightarrow> 'x TheTlsf \<Rightarrow> mem \<Rightarrow> usize \<Rightarrow> usize \<Rightarrow> usize \<Rightarrow> (int \<times> 'x TheTlsf \<times> mem) option" where
  "posix_memalign S f m out_ptr alignment sz = do {
     (ptr, f, m) \<leftarrow> aligned_alloc S f m alignment sz;
     m \<leftarrow> store m out_ptr ptr;
     Some (if ptr = 0 then ENOMEM else 0, f, m)
   }"

definition memalign :: "'x FlexSource \<Rightarrow> 'x TheTlsf \<Rightarrow> mem \<Rightarrow> usize \<Rightarrow> usize \<Rightarrow> (usize \<times> 'x TheTlsf \<times> mem) option" where
  "memalign S f m alignment sz = aligned_alloc S f m alignment sz"

definition realloc :: "target_arch \<Rightarrow> 'x FlexSource \<Rightarrow> 'x TheTlsf \<Rightarrow> mem \<Rightarrow> usize \<Rightarrow> usize \<Rightarrow> (usize \<times> 'x TheTlsf \<times> mem) option" where
  "realloc arch S f m ptr sz = (case to_ptr ptr of
     Some ptr \<Rightarrow> (case from_size_align sz (malloc_MIN_ALIGN arch) of
         None \<Rightarrow> Some (0, f, m)
       | Some layout \<Rightarrow> do {
           (r, f, m) \<leftarrow> CAlloc_reallocate S f m ptr layout;
           Some (of_ptr r, f, m)
         })
   | None \<Rightarrow> malloc arch S f m sz)"

definition free :: "'x TheTlsf \<Rightarrow> mem \<Rightarrow> usize \<Rightarrow> ('x TheTlsf \<times> mem) option" where
  "free f m ptr = (case to_ptr ptr of
     Some ptr \<Rightarrow> CAlloc_deallocate f m ptr
   | None \<Rightarrow> Some (f, m))"

section \<open>C++\<close>

definition cpp_new_impl ::
  "target_arch \<Rightarrow> 'x FlexSource \<Rightarrow> 'x TheTlsf \<Rightarrow> mem \<Rightarrow> usize \<Rightarrow> usize \<Rightarrow> bool \<Rightarrow> (usize \<times> 'x TheTlsf \<times> mem) option" where
  "cpp_new_impl arch S f m sz align is_noexcept = do {
     (ptr, f, m) \<leftarrow> (if align = 0 then malloc arch S f m sz else aligned_alloc S f m align sz);
     if \<not> is_noexcept \<and> ptr = 0 then None else Some (ptr, f, m)
   }"

text \<open>The exported operators, by their mangled names without the leading underscore and with the arguments
  that are not ignored.\<close>

datatype cxx_delete =
  ZdaPvmSt11align_val_t usize | ZdaPvSt11align_val_tRKSt9nothrow_t usize | ZdaPvSt11align_val_t usize
| ZdlPvmSt11align_val_t usize | ZdlPvSt11align_val_tRKSt9nothrow_t usize | ZdlPvSt11align_val_t usize
| ZdaPvm usize | ZdlPvm usize | ZdaPvRKSt9nothrow_t usize | ZdlPvRKSt9nothrow_t usize | ZdaPv usize | ZdlPv usize

datatype cxx_new =
  ZnamSt11align_val_tRKSt9nothrow_t usize usize | ZnamSt11align_val_t usize usize
| ZnwmSt11align_val_tRKSt9nothrow_t usize usize | ZnwmSt11align_val_t usize usize
| ZnamRKSt9nothrow_t usize | ZnwmRKSt9nothrow_t usize | Znam usize | Znwm usize

fun operator_delete :: "'x TheTlsf \<Rightarrow> mem \<Rightarrow> cxx_delete \<Rightarrow> ('x TheTlsf \<times> mem) option" where
  "operator_delete f m (ZdaPvmSt11align_val_t p) = free f m p"
| "operator_delete f m (ZdaPvSt11align_val_tRKSt9nothrow_t p) = free f m p"
| "operator_delete f m (ZdaPvSt11align_val_t p) = free f m p"
| "operator_delete f m (ZdlPvmSt11align_val_t p) = free f m p"
| "operator_delete f m (ZdlPvSt11align_val_tRKSt9nothrow_t p) = free f m p"
| "operator_delete f m (ZdlPvSt11align_val_t p) = free f m p"
| "operator_delete f m (ZdaPvm p) = free f m p"
| "operator_delete f m (ZdlPvm p) = free f m p"
| "operator_delete f m (ZdaPvRKSt9nothrow_t p) = free f m p"
| "operator_delete f m (ZdlPvRKSt9nothrow_t p) = free f m p"
| "operator_delete f m (ZdaPv p) = free f m p"
| "operator_delete f m (ZdlPv p) = free f m p"

fun operator_new :: "target_arch \<Rightarrow> 'x FlexSource \<Rightarrow> 'x TheTlsf \<Rightarrow> mem \<Rightarrow> cxx_new \<Rightarrow> (usize \<times> 'x TheTlsf \<times> mem) option" where
  "operator_new arch S f m (ZnamSt11align_val_tRKSt9nothrow_t sz align) = cpp_new_impl arch S f m sz align True"
| "operator_new arch S f m (ZnamSt11align_val_t sz align) = cpp_new_impl arch S f m sz align False"
| "operator_new arch S f m (ZnwmSt11align_val_tRKSt9nothrow_t sz align) = cpp_new_impl arch S f m sz align True"
| "operator_new arch S f m (ZnwmSt11align_val_t sz align) = cpp_new_impl arch S f m sz align False"
| "operator_new arch S f m (ZnamRKSt9nothrow_t sz) = cpp_new_impl arch S f m sz 0 True"
| "operator_new arch S f m (ZnwmRKSt9nothrow_t sz) = cpp_new_impl arch S f m sz 0 True"
| "operator_new arch S f m (Znam sz) = cpp_new_impl arch S f m sz 0 False"
| "operator_new arch S f m (Znwm sz) = cpp_new_impl arch S f m sz 0 False"

section \<open>Memory of the caller\<close>

text \<open>A cell the program owns: it is mapped and in no block of the source, in every state of the source, which does not
  depend on what it holds; or it lies in a live allocation.\<close>

definition foreign_cell :: "('x \<Rightarrow> mem \<Rightarrow> (usize \<times> usize) set \<Rightarrow> bool) \<Rightarrow> usize \<Rightarrow> bool" where
  "foreign_cell R a \<longleftrightarrow> (\<forall>x m A. R x m A \<longrightarrow> m a \<noteq> None \<and> a \<notin> \<Union>(blk_range ` A) \<and> (\<forall>v. R x (m(a \<mapsto> v)) A))"

definition caller_cell :: "('x \<Rightarrow> mem \<Rightarrow> (usize \<times> usize) set \<Rightarrow> bool) \<Rightarrow> (usize \<times> layout) set \<Rightarrow> usize \<Rightarrow> bool" where
  "caller_cell R A a \<longleftrightarrow> 8 dvd a \<and> (foreign_cell R a \<or> (\<exists>(p, l) \<in> A. p \<le> a \<and> a < p + lsize l))"

text \<open>On Unix, a cell the kernel keeps for the program and does not map again.\<close>

lemma unix_foreign_cell:
  assumes "\<And>k m B. owned k m B \<Longrightarrow> m a \<noteq> None \<and> a \<notin> B \<and> (\<forall>v. owned k (m(a \<mapsto> v)) B)"
  shows "foreign_cell (unix_blocks K owned) a"
  unfolding foreign_cell_def unix_blocks_def using assms by (fastforce simp: mapped_blk_def)

section \<open>Allocating functions\<close>

text \<open>What an allocating function promises for the layout it asks for (none if there is no such layout).\<close>

definition allocated ::
  "'x FlexSource \<Rightarrow> ('x \<Rightarrow> mem \<Rightarrow> (usize \<times> usize) set \<Rightarrow> bool) \<Rightarrow> mem \<Rightarrow> (usize \<times> layout) set \<Rightarrow> usize \<Rightarrow> usize \<Rightarrow> usize \<Rightarrow>
   'x TheTlsf \<Rightarrow> mem \<Rightarrow> bool" where
  "allocated S R m A alignment sz p f' m' \<longleftrightarrow> agree m m' (region ` A) \<and>
     (if p = 0 then GlobalTlsf_ok S R f' m' A
      else alignment dvd p \<and> p + sz \<le> USIZE_LIM \<and> mapped_blk m' (p, sz) \<and> apart (p, sz) (region ` A) \<and>
        layout_ok \<lparr>lsize = sz, lalign = alignment\<rparr> \<and> (p, \<lparr>lsize = sz, lalign = alignment\<rparr>) \<notin> A \<and>
        GlobalTlsf_ok S R f' m' (insert (p, \<lparr>lsize = sz, lalign = alignment\<rparr>) A))"

lemma from_size_align_layout: "from_size_align n al = Some l \<Longrightarrow> layout_ok l \<and> l = \<lparr>lsize = n, lalign = al\<rparr>"
  by (auto simp: from_size_align_def Let_def split: if_splits)

lemma MIN_ALIGN_pow [simp]: "is_power_of_two (malloc_MIN_ALIGN arch)" "8 dvd malloc_MIN_ALIGN arch"
  using is_power_of_two_pow2 [of 3] is_power_of_two_pow2 [of 4] by (simp_all add: malloc_MIN_ALIGN_def)

context global_tlsf
begin

lemma c_allocate_ok:
  assumes Q: "GlobalTlsf_ok S R f m A" and fs: "from_size_align sz alignment = Some l"
  obtains r f' m' where "CAlloc_allocate S f m l = Some (r, f', m')" and "r = None \<longleftrightarrow> of_ptr r = 0"
    and "allocated S R m A alignment sz (of_ptr r) f' m'" and "lsize l = sz"
proof -
  have L: "layout_ok l" "l = \<lparr>lsize = sz, lalign = alignment\<rparr>" using from_size_align_layout [OF fs] by blast+
  obtain r f' m' where a: "flex_allocate global_cfg S f m l = Some (r, f', m')" "agree m m' (region ` A)"
      "case r of None \<Rightarrow> GlobalTlsf_ok S R f' m' A
       | Some p \<Rightarrow> 0 < p \<and> lalign l dvd p \<and> p + lsize l \<le> USIZE_LIM \<and> mapped_blk m' (p, lsize l) \<and>
          apart (p, lsize l) (region ` A) \<and> (p, l) \<notin> A \<and> GlobalTlsf_ok S R f' m' (insert (p, l) A)"
    by (rule alloc_ok [OF Q L(1)])
  have "allocated S R m A alignment sz (of_ptr r) f' m'" "r = None \<longleftrightarrow> of_ptr r = 0"
    using a(2,3) L by (cases r; simp add: allocated_def of_ptr_def)+
  then show thesis using a(1) L(2) by (intro that) (simp_all add: CAlloc_allocate_def)
qed

lemma aligned_alloc_ok:
  assumes Q: "GlobalTlsf_ok S R f m A"
  obtains p f' m' where "aligned_alloc S f m alignment sz = Some (p, f', m')" and "allocated S R m A alignment sz p f' m'"
proof (cases "from_size_align sz alignment")
  case None
  then show thesis using Q by (intro that [of 0 f m]) (simp_all add: aligned_alloc_def allocated_def agree_def)
next
  case (Some l)
  obtain r f' m' where "CAlloc_allocate S f m l = Some (r, f', m')" "allocated S R m A alignment sz (of_ptr r) f' m'"
    by (rule c_allocate_ok [OF Q Some])
  then show thesis using Some by (intro that [of "of_ptr r" f' m']) (cases r; simp add: aligned_alloc_def of_ptr_def)+
qed

text \<open>Zeroing a new allocation.\<close>

lemma write_zeroes:
  assumes "8 dvd p" and "mapped_blk m (p, n)"
  obtains m' where "write_bytes m p 0 n = Some m'" and "changes_only m m' {p ..< p + n}" and "\<forall>i < n. load_byte m' (p + i) = Some 0"
proof -
  have "m (p + i - (p + i) mod 8) \<noteq> None" if "i < length (replicate n (0::usize))" for i
  proof -
    have "p \<le> p + i - (p + i) mod 8" "p + i - (p + i) mod 8 \<le> p + i" using cell_of_byte [OF assms(1), of "p + i"] by simp_all
    then show ?thesis using assms(2) that by (auto simp: mapped_blk_def blk_range_def minus_mod_eq_mult_div)
  qed
  then obtain m' where m': "store_bytes m p (replicate n 0) = Some m'" "changes_only m m' (cells p n)"
      "\<And>b. load_byte m' b = (if p \<le> b \<and> b < p + n then Some (replicate n (0::usize) ! (b - p) mod 256) else load_byte m b)"
    using store_bytes_obtain [of "replicate n 0" m p] unfolding length_replicate by blast
  show thesis
    by (rule that [of m']) (use m' changes_only_mono [OF m'(2) cells_aligned [OF assms(1)]] in \<open>simp_all add: write_bytes_def\<close>)
qed

lemma calloc_ok:
  assumes Q: "GlobalTlsf_ok S R f m A"
  obtains p f' m' where "calloc arch S f m number sz = Some (p, f', m')" and "allocated S R m A (malloc_MIN_ALIGN arch) (sz * number) p f' m'"
    and "p \<noteq> 0 \<longrightarrow> sz * number < USIZE_LIM \<and> (\<forall>i < sz * number. load_byte m' (p + i) = Some 0)"
proof -
  let ?n = "sz * number" and ?al = "malloc_MIN_ALIGN arch"
  let ?l = "\<lparr>lsize = ?n, lalign = ?al\<rparr>"
  show thesis
  proof (cases "?n < USIZE_LIM \<and> from_size_align ?n ?al \<noteq> None")
    case False
    then have "checked_mul sz number \<bind> (\<lambda>len. from_size_align len ?al) = None" by (auto simp: checked_mul_def)
    then show thesis using Q by (intro that [of 0 f m]) (simp_all add: calloc_def allocated_def agree_def)
  next
    case True
    then have fs: "from_size_align ?n ?al = Some ?l" using from_size_align_layout by fastforce
    have lay: "checked_mul sz number \<bind> (\<lambda>len. from_size_align len ?al) = Some ?l" using True fs by (simp add: checked_mul_def)
    obtain r f' m1 where a: "CAlloc_allocate S f m ?l = Some (r, f', m1)" "r = None \<longleftrightarrow> of_ptr r = 0" "allocated S R m A ?al ?n (of_ptr r) f' m1"
      by (rule c_allocate_ok [OF Q fs])
    show thesis
    proof (cases r)
      case None
      then show thesis using a by (intro that [of 0 f' m1]) (simp_all add: calloc_def lay)
    next
      case (Some p)
      have nz: "p \<noteq> 0" using a(2) Some by simp
      have al: "allocated S R m A ?al ?n p f' m1" using a(3) Some by simp
      have q: "agree m m1 (region ` A)" "?al dvd p" "mapped_blk m1 (p, ?n)" "apart (p, ?n) (region ` A)" "GlobalTlsf_ok S R f' m1 (insert (p, ?l) A)"
        using al nz by (simp_all add: allocated_def)
      have "8 dvd p" using MIN_ALIGN_pow(2) q(2) by (rule dvd_trans)
      then obtain m' where m': "write_bytes m1 p 0 ?n = Some m'" "changes_only m1 m' {p ..< p + ?n}" "\<forall>i < ?n. load_byte m' (p + i) = Some 0"
        using write_zeroes [OF _ q(3)] by blast
      have "calloc arch S f m number sz = Some (p, f', m')"
        using a(1) Some m'(1) by (simp add: calloc_def lay)
      moreover have "allocated S R m A ?al ?n p f' m'"
      proof -
        have "GlobalTlsf_ok S R f' m' (insert (p, ?l) A)"
          by (rule write_ok [OF q(5)]) (use m'(2) in \<open>auto simp: changes_only_def region_def blk_range_def\<close>)
        moreover have "agree m m' (region ` A)"
          using q(1,4) m'(2) unfolding agree_def apart_def changes_only_def blk_range_def by fastforce
        moreover have "mapped_blk m' (p, ?n)" using mapped_dom [OF q(3)] m'(2) by (simp add: changes_only_def)
        ultimately show ?thesis using al nz by (simp add: allocated_def)
      qed
      ultimately show thesis using m'(3) True by (intro that [of p f' m']) simp_all
    qed
  qed
qed

lemma c_realloc_ok:
  assumes Q: "GlobalTlsf_ok S R f m A" and x: "(ptr, l) \<in> A" and nz: "0 < ptr"
  shows "\<exists>n r f' m'. malloc_usable_size m ptr = Some n \<and> lsize l \<le> n \<and> realloc arch S f m ptr sz = Some (of_ptr r, f', m') \<and>
    replaced S R m A (ptr, l) \<lparr>lsize = sz, lalign = malloc_MIN_ALIGN arch\<rparr> (min sz n) r f' m'"
proof -
  let ?l = "\<lparr>lsize = sz, lalign = malloc_MIN_ALIGN arch\<rparr>"
  have tp: "to_ptr ptr = Some ptr" using nz by (simp add: to_ptr_def)
  show ?thesis
  proof (cases "from_size_align sz (malloc_MIN_ALIGN arch)")
    case (Some l')
    then have l': "l' = ?l" "layout_ok ?l" using from_size_align_layout [OF Some] by auto
    show ?thesis using c_reallocate_ok [OF Q x l'(2)] Some tp unfolding l'(1) by (auto simp: realloc_def malloc_usable_size_def)
  next
    case None
    obtain n where "CAlloc_allocation_usable_size m ptr = Some n" "lsize l \<le> n" by (rule usable_ok [OF Q x]) force
    moreover have "replaced S R m A (ptr, l) ?l (min sz n) None f m" for n using Q by (simp add: replaced_def contents_kept_def)
    ultimately show ?thesis using None tp
      by (intro exI [of _ n] exI [of _ None] exI [of _ f] exI [of _ m]) (simp add: realloc_def malloc_usable_size_def of_ptr_def)
  qed
qed

lemma c_free_ok:
  assumes Q: "GlobalTlsf_ok S R f m A" and x: "(ptr, l) \<in> A" and nz: "0 < ptr"
  obtains f' m' where "free f m ptr = Some (f', m')" and "agree m m' (region ` (A - {(ptr, l)}))" and "GlobalTlsf_ok S R f' m' (A - {(ptr, l)})"
proof (rule dealloc_ok [OF Q x])
  fix f' m' assume "flex_deallocate_unknown_align global_cfg f m ptr = Some (f', m')" "agree m m' (region ` (A - {(ptr, l)}))"
    "GlobalTlsf_ok S R f' m' (A - {(ptr, l)})"
  then show thesis using nz by (intro that) (simp_all add: free_def to_ptr_def CAlloc_deallocate_def)
qed

text \<open>Allocations are not null.\<close>

lemma live_not_null:
  assumes "GlobalTlsf_ok S R f m A" and "(ptr, l) \<in> A"
  shows "0 < ptr"
proof -
  obtain ps As where F: "flex_inv global_cfg S R f m ps As" "live ps = triple ` A" using assms(1) by (auto simp: GlobalTlsf_ok_def)
  then have "(ptr, lalign l, lsize l) \<in> live ps" using assms(2) by force
  then show ?thesis using F(1) live_facts(1) by (auto simp: flex_inv_def)
qed

end

text \<open>The pointer a delete operator is called on.\<close>

primrec deleted :: "cxx_delete \<Rightarrow> usize" where
  "deleted (ZdaPvmSt11align_val_t p) = p"
| "deleted (ZdaPvSt11align_val_tRKSt9nothrow_t p) = p"
| "deleted (ZdaPvSt11align_val_t p) = p"
| "deleted (ZdlPvmSt11align_val_t p) = p"
| "deleted (ZdlPvSt11align_val_tRKSt9nothrow_t p) = p"
| "deleted (ZdlPvSt11align_val_t p) = p"
| "deleted (ZdaPvm p) = p"
| "deleted (ZdlPvm p) = p"
| "deleted (ZdaPvRKSt9nothrow_t p) = p"
| "deleted (ZdlPvRKSt9nothrow_t p) = p"
| "deleted (ZdaPv p) = p"
| "deleted (ZdlPv p) = p"

lemma operator_delete_free: "operator_delete f m d = free f m (deleted d)"
  by (cases d) simp_all

lemma operator_new_impl: "\<exists>sz align is_noexcept. operator_new arch S f m n = cpp_new_impl arch S f m sz align is_noexcept"
  by (cases n) auto

lemma agree_trans: "agree m m1 A \<Longrightarrow> agree m1 m2 B \<Longrightarrow> A \<subseteq> B \<Longrightarrow> agree m m2 A"
  unfolding agree_def by (metis subsetD)

context global_tlsf
begin

lemma cpp_new_ok:
  assumes Q: "GlobalTlsf_ok S R f m A"
  obtains p f' m' where "cpp_new_impl arch S f m sz align is_noexcept = (if \<not> is_noexcept \<and> p = 0 then None else Some (p, f', m'))"
    and "allocated S R m A (if align = 0 then malloc_MIN_ALIGN arch else align) sz p f' m'"
  by (rule aligned_alloc_ok [OF Q, of "if align = 0 then malloc_MIN_ALIGN arch else align" sz])
    (auto simp: cpp_new_impl_def malloc_def intro: that split: if_splits)

lemma new_delete:
  assumes Q: "GlobalTlsf_ok S R f m A" and n: "operator_new arch S f m n = Some (p, f1, m1)" and d: "deleted d = p"
  shows "\<exists>f' m'. operator_delete f1 m1 d = Some (f', m') \<and> GlobalTlsf_ok S R f' m' A \<and> agree m m' (region ` A)"
proof -
  obtain sz align b where i: "operator_new arch S f m n = cpp_new_impl arch S f m sz align b" using operator_new_impl by blast
  let ?l = "\<lparr>lsize = sz, lalign = if align = 0 then malloc_MIN_ALIGN arch else align\<rparr>"
  have a: "allocated S R m A (lalign ?l) sz p f1 m1"
    by (rule cpp_new_ok [OF Q, of arch sz align b]) (use n i in \<open>auto split: if_splits\<close>)
  show ?thesis
  proof (cases "p = 0")
    case True
    then show ?thesis using a d by (simp add: operator_delete_free free_def to_ptr_def allocated_def)
  next
    case False
    have q: "agree m m1 (region ` A)" "(p, ?l) \<notin> A" "GlobalTlsf_ok S R f1 m1 (insert (p, ?l) A)" using a False by (simp_all add: allocated_def)
    obtain f' m' where "free f1 m1 p = Some (f', m')" "agree m1 m' (region ` (insert (p, ?l) A - {(p, ?l)}))"
        "GlobalTlsf_ok S R f' m' (insert (p, ?l) A - {(p, ?l)})"
      by (rule c_free_ok [OF q(3) insertI1]) (use False in simp_all)
    moreover have "insert (p, ?l) A - {(p, ?l)} = A" using q(2) by blast
    ultimately show ?thesis using d agree_trans [OF q(1)] by (simp add: operator_delete_free)
  qed
qed

text \<open>A cell of the program outside the heap, on the stack or in a static.\<close>

lemma foreign_write_ok:
  assumes Q: "GlobalTlsf_ok S R f m A" and a: "foreign_cell R a"
  shows "m a \<noteq> None" and "GlobalTlsf_ok S R f (m(a \<mapsto> v)) A"
proof -
  obtain ps As where F: "flex_inv global_cfg S R f m ps As" and lv: "live ps = triple ` A" using Q by (auto simp: GlobalTlsf_ok_def)
  have I: "tlsf_inv global_cfg (tlsf_of f) m ps" and B: "blocks_ok S m As" and sub: "pool_bytes ps \<subseteq> \<Union>(blk_range ` set As)"
    and RA: "R (source f) m (set As)" using F by (simp_all add: flex_inv_def)
  show mapped: "m a \<noteq> None" using a RA unfolding foreign_cell_def by blast
  have out: "a \<notin> \<Union>(blk_range ` set As)" and R': "R (source f) (m(a \<mapsto> v)) (set As)" using a RA unfolding foreign_cell_def by blast+
  have dm: "dom (m(a \<mapsto> v)) = dom m" using mapped by auto
  have "tlsf_inv global_cfg (tlsf_of f) (m(a \<mapsto> v)) ps" using sub out by (intro tlsf_inv_frame [OF I]) auto
  moreover have "footers S (m(a \<mapsto> v)) ps As" if "src_supports_dealloc S"
    by (rule footers_frame [of S m ps As]) (use F that out in \<open>auto simp: flex_inv_def\<close>)
  ultimately have "flex_inv global_cfg S R f (m(a \<mapsto> v)) ps As" using F R' blocks_ok_dom [OF B dm] unfolding flex_inv_def by simp
  then show "GlobalTlsf_ok S R f (m(a \<mapsto> v)) A" using lv unfolding GlobalTlsf_ok_def by blast
qed

lemma caller_write_ok:
  assumes Q: "GlobalTlsf_ok S R f m A" and a: "caller_cell R A a"
  shows "m a \<noteq> None" and "GlobalTlsf_ok S R f (m(a \<mapsto> v)) A"
proof (atomize (full), cases "foreign_cell R a")
  case True
  then show "m a \<noteq> None \<and> GlobalTlsf_ok S R f (m(a \<mapsto> v)) A" using foreign_write_ok [OF Q True] by simp
next
  case False
  then obtain p l where x: "(p, l) \<in> A" "p \<le> a" "a < p + lsize l" and al: "8 dvd a" using a by (auto simp: caller_cell_def)
  obtain ps As where F: "flex_inv global_cfg S R f m ps As" "live ps = triple ` A" using Q unfolding GlobalTlsf_ok_def by blast
  have "(p, lalign l, lsize l) \<in> live ps" using x(1) F(2) by force
  then have "mapped_blk m (p, lsize l)" using F(1) live_facts(5) by (auto simp: flex_inv_def)
  then have mapped: "m a \<noteq> None" using x al by (simp add: mapped_blk_def blk_range_def)
  have "a \<in> blk_range (region (p, l))" using x by (simp add: region_def blk_range_def)
  then have "a \<in> \<Union>(blk_range ` region ` A)" using x(1) by blast
  then have "GlobalTlsf_ok S R f (m(a \<mapsto> v)) A" using mapped by (intro write_ok [OF Q]) auto
  with mapped show "m a \<noteq> None \<and> GlobalTlsf_ok S R f (m(a \<mapsto> v)) A" by blast
qed

lemma posix_memalign_ok:
  assumes Q: "GlobalTlsf_ok S R f m A" and o: "caller_cell R A out_ptr"
  obtains p f' m1 where "posix_memalign S f m out_ptr alignment sz = Some (if p = 0 then ENOMEM else 0, f', m1(out_ptr \<mapsto> p))"
    and "allocated S R m A alignment sz p f' m1"
    and "GlobalTlsf_ok S R f' (m1(out_ptr \<mapsto> p)) (if p = 0 then A else insert (p, \<lparr>lsize = sz, lalign = alignment\<rparr>) A)"
proof (rule aligned_alloc_ok [OF Q, of alignment sz])
  fix p f' m1 assume c: "aligned_alloc S f m alignment sz = Some (p, f', m1)" and al: "allocated S R m A alignment sz p f' m1"
  let ?A = "if p = 0 then A else insert (p, \<lparr>lsize = sz, lalign = alignment\<rparr>) A"
  have Q1: "GlobalTlsf_ok S R f' m1 ?A" using al by (simp add: allocated_def split: if_splits)
  have o1: "caller_cell R ?A out_ptr" using o by (auto simp: caller_cell_def)
  note w = caller_write_ok [OF Q1 o1]
  have "posix_memalign S f m out_ptr alignment sz = Some (if p = 0 then ENOMEM else 0, f', m1(out_ptr \<mapsto> p))"
    using c w(1) o by (simp add: posix_memalign_def store_def mod_eq_0_iff_dvd caller_cell_def)
  then show thesis using al w(2) that by blast
qed

end

section \<open>The functions for programs\<close>

text \<open>C24: \<open>aligned_alloc\<close>, and with it \<open>malloc\<close>, \<open>memalign\<close> and \<open>valloc\<close>, never faults for any alignment and size: it
  returns null, or new memory of the size and alignment apart from all allocations, whose memory it does not
  change. An alignment that is not a power of two or a size above \<open>isize::MAX\<close> gives null.\<close>

theorem aligned_alloc_spec:
  assumes "flex_allocator S R global_cfg" and "GlobalTlsf_ok S R f m A"
  shows "\<exists>p f' m'. aligned_alloc S f m alignment sz = Some (p, f', m') \<and> allocated S R m A alignment sz p f' m' \<and>
    (\<not> layout_ok \<lparr>lsize = sz, lalign = alignment\<rparr> \<longrightarrow> p = 0)"
proof (rule global_tlsf.aligned_alloc_ok [OF global_tlsf.intro [OF assms(1)] assms(2)])
  fix p f' m' assume "aligned_alloc S f m alignment sz = Some (p, f', m')" "allocated S R m A alignment sz p f' m'"
  then show ?thesis by (auto simp: allocated_def split: if_splits)
qed

theorem aligned_alloc_spec_witness:
  "\<exists>p f' m'. aligned_alloc demo_source (GlobalTlsf_new 4096) (\<lambda>_. None) 64 100 = Some (p, f', m') \<and>
    allocated demo_source demo_blocks (\<lambda>_. None) {} 64 100 p f' m'"
  using aligned_alloc_spec [OF demo_flex.flex_allocator_axioms demo_global_new] by blast

text \<open>C26: \<open>calloc\<close> returns null when the product of its arguments overflows; otherwise null or new memory for the
  product, every byte of which is zero.\<close>

theorem calloc_spec:
  assumes "flex_allocator S R global_cfg" and "GlobalTlsf_ok S R f m A"
  shows "\<exists>p f' m'. calloc arch S f m number sz = Some (p, f', m') \<and> allocated S R m A (malloc_MIN_ALIGN arch) (sz * number) p f' m' \<and>
    (USIZE_LIM \<le> sz * number \<longrightarrow> p = 0) \<and> (p \<noteq> 0 \<longrightarrow> (\<forall>i < sz * number. load_byte m' (p + i) = Some 0))"
  by (rule global_tlsf.calloc_ok [OF global_tlsf.intro [OF assms(1)] assms(2), of arch number sz]) auto

theorem calloc_spec_witness:
  "\<exists>p f' m'. calloc x86_64 demo_source (GlobalTlsf_new 4096) (\<lambda>_. None) 10 12 = Some (p, f', m') \<and>
    (p \<noteq> 0 \<longrightarrow> (\<forall>i < 120. load_byte m' (p + i) = Some 0))"
  using calloc_spec [OF demo_flex.flex_allocator_axioms demo_global_new, of x86_64 10 12] by auto

text \<open>C25: \<open>realloc\<close> of a null pointer is \<open>malloc\<close>; of an allocation, made with any alignment, it returns null and keeps
  everything, or an allocation of the new size with the alignment of \<open>malloc\<close> that starts with the bytes of the
  old one, up to its usable size; all other allocations keep their contents.\<close>

theorem realloc_spec:
  assumes "flex_allocator S R global_cfg" and "GlobalTlsf_ok S R f m A"
  shows "realloc arch S f m 0 sz = malloc arch S f m sz \<and>
    ((ptr, l) \<in> A \<longrightarrow> (\<exists>n r f' m'. malloc_usable_size m ptr = Some n \<and> lsize l \<le> n \<and> realloc arch S f m ptr sz = Some (of_ptr r, f', m') \<and>
       replaced S R m A (ptr, l) \<lparr>lsize = sz, lalign = malloc_MIN_ALIGN arch\<rparr> (min sz n) r f' m'))"
  using global_tlsf.c_realloc_ok [OF global_tlsf.intro [OF assms(1)] assms(2)] global_tlsf.live_not_null [OF global_tlsf.intro [OF assms(1)] assms(2)]
  by (simp add: realloc_def to_ptr_def)

theorem realloc_spec_witness:
  "\<exists>f m ptr n r f' m'. GlobalTlsf_ok demo_source demo_blocks f m {(ptr, demo_layout)} \<and> malloc_usable_size m ptr = Some n \<and> 100 \<le> n \<and>
    realloc x86_64 demo_source f m ptr 50 = Some (of_ptr r, f', m')"
proof -
  obtain f m ptr where Q: "GlobalTlsf_ok demo_source demo_blocks f m {(ptr, demo_layout)}" using demo_global_used by blast
  obtain n r f' m' where "malloc_usable_size m ptr = Some n" "lsize demo_layout \<le> n" "realloc x86_64 demo_source f m ptr 50 = Some (of_ptr r, f', m')"
    using realloc_spec [OF demo_flex.flex_allocator_axioms Q, of x86_64 50 ptr demo_layout] by auto
  with Q show ?thesis
    by (intro exI [of _ f] exI [of _ m] exI [of _ ptr] exI [of _ n] exI [of _ r] exI [of _ f'] exI [of _ m']) (simp add: demo_layout_def)
qed

text \<open>C27: memory from any of the \<open>operator new\<close>, thrown away by any of the \<open>operator delete\<close> (also one of another alignment
  or for arrays), leaves the allocations and their memory as they were; deleting a null pointer does nothing.\<close>

theorem operator_new_delete:
  assumes "flex_allocator S R global_cfg" and "GlobalTlsf_ok S R f m A" and "operator_new arch S f m n = Some (p, f1, m1)" and "deleted d = p"
  shows "\<exists>f' m'. operator_delete f1 m1 d = Some (f', m') \<and> GlobalTlsf_ok S R f' m' A \<and> agree m m' (region ` A)"
  by (rule global_tlsf.new_delete [OF global_tlsf.intro [OF assms(1)] assms(2-4)])

theorem operator_new_delete_witness:
  "\<exists>p f1 m1 f' m'. operator_new x86_64 demo_source (GlobalTlsf_new 4096) (\<lambda>_. None) (ZnwmRKSt9nothrow_t 100) = Some (p, f1, m1) \<and>
    operator_delete f1 m1 (ZdaPvm p) = Some (f', m') \<and> GlobalTlsf_ok demo_source demo_blocks f' m' {}"
proof -
  obtain p f1 m1 where n: "operator_new x86_64 demo_source (GlobalTlsf_new 4096) (\<lambda>_. None) (ZnwmRKSt9nothrow_t 100) = Some (p, f1, m1)"
    by (rule demo_global.cpp_new_ok [OF demo_global_new, of x86_64 100 0 True]) auto
  with operator_new_delete [OF demo_flex.flex_allocator_axioms demo_global_new n, of "ZdaPvm p"] show ?thesis by auto
qed

text \<open>C28: \<open>posix_memalign\<close>, with its result pointer in a live allocation or in memory of the program outside the heap,
  never faults, stores the pointer there and returns 0 when it is not null, \<open>ENOMEM\<close> when it is, whatever the reason.
  The pointer is what \<open>aligned_alloc\<close> returns, and the heap is in order after the store.\<close>

theorem posix_memalign_spec:
  assumes "flex_allocator S R global_cfg" and "GlobalTlsf_ok S R f m A" and "caller_cell R A out_ptr"
  shows "\<exists>p f' m1. posix_memalign S f m out_ptr alignment sz = Some (if p = 0 then ENOMEM else 0, f', m1(out_ptr \<mapsto> p)) \<and>
    allocated S R m A alignment sz p f' m1 \<and>
    GlobalTlsf_ok S R f' (m1(out_ptr \<mapsto> p)) (if p = 0 then A else insert (p, \<lparr>lsize = sz, lalign = alignment\<rparr>) A)"
  by (rule global_tlsf.posix_memalign_ok [OF global_tlsf.intro [OF assms(1)] assms(2,3)]) blast

lemma demo_foreign: "foreign_cell (demo_cells {64}) 64"
  by (fastforce simp: foreign_cell_def demo_cells_def bump_ok_def bump_source.with_align_def blk_range_def)

theorem posix_memalign_spec_witness:
  "\<exists>p f' m1. posix_memalign demo_source (GlobalTlsf_new 4096) [64 \<mapsto> 0] 64 64 100 = Some (if p = 0 then ENOMEM else 0, f', m1(64 \<mapsto> p)) \<and>
    allocated demo_source (demo_cells {64}) [64 \<mapsto> 0] {} 64 100 p f' m1"
proof -
  have Q: "GlobalTlsf_ok demo_source (demo_cells {64}) (GlobalTlsf_new 4096) [64 \<mapsto> 0] {}"
    by (rule GlobalTlsf_new_ok) (simp add: demo_cells_def bump_ok_def)
  have "caller_cell (demo_cells {64}) {} 64" using demo_foreign by (simp add: caller_cell_def)
  from posix_memalign_spec [OF demo_flex.flex_allocator_axioms Q this] show ?thesis by blast
qed

end
