(* ===== verification/C_Program.thy ===== *)
theory C_Program
  imports Override
begin

text \<open>
  What C programs see of the allocator: the functions of \<open>rlsf_override\<close> and accesses to bytes as operations on an
  abstract heap, a map from the addresses of allocations to their sizes and a store of bytes. Every legal operation
  runs without a fault and follows the specification of the heap.
\<close>

section \<open>Operations\<close>

datatype c_op = Malloc usize | Calloc usize usize | Aligned_alloc usize usize | Realloc usize usize | Free usize | Put usize usize | Get usize

fun c_run :: "target_arch \<Rightarrow> 'x FlexSource \<Rightarrow> 'x TheTlsf \<Rightarrow> mem \<Rightarrow> c_op \<Rightarrow> (usize \<times> 'x TheTlsf \<times> mem) option" where
  "c_run arch S f m (Malloc n) = malloc arch S f m n"
| "c_run arch S f m (Calloc k n) = calloc arch S f m k n"
| "c_run arch S f m (Aligned_alloc al n) = aligned_alloc S f m al n"
| "c_run arch S f m (Realloc p n) = realloc arch S f m p n"
| "c_run arch S f m (Free p) = map_option (\<lambda>(f, m). (0, f, m)) (free f m p)"
| "c_run arch S f m (Put a v) = map_option (\<lambda>m. (0, f, m)) (store_byte m a v)"
| "c_run arch S f m (Get a) = map_option (\<lambda>v. (v, f, m)) (load_byte m a)"

section \<open>The abstract heap\<close>

record c_heap =
  sizes :: "usize \<rightharpoonup> usize"
  bytes :: "usize \<Rightarrow> usize"

definition in_heap :: "(usize \<rightharpoonup> usize) \<Rightarrow> usize \<Rightarrow> bool" where
  "in_heap H a \<longleftrightarrow> (\<exists>p n. H p = Some n \<and> p \<le> a \<and> a < p + n)"

definition same_bytes :: "(usize \<rightharpoonup> usize) \<Rightarrow> (usize \<Rightarrow> usize) \<Rightarrow> (usize \<Rightarrow> usize) \<Rightarrow> bool" where
  "same_bytes H B B' \<longleftrightarrow> (\<forall>a. in_heap H a \<longrightarrow> B' a = B a)"

definition fresh_at :: "(usize \<rightharpoonup> usize) \<Rightarrow> usize \<Rightarrow> usize \<Rightarrow> usize \<Rightarrow> bool" where
  "fresh_at H al n p \<longleftrightarrow> 0 < p \<and> al dvd p \<and> p + n \<le> USIZE_LIM \<and> H p = None \<and> (\<forall>a. p \<le> a \<and> a < p + n \<longrightarrow> \<not> in_heap H a)"

definition new_block :: "usize \<Rightarrow> usize \<Rightarrow> c_heap \<Rightarrow> usize \<Rightarrow> c_heap \<Rightarrow> bool" where
  "new_block al n h r h' \<longleftrightarrow> same_bytes (sizes h) (bytes h) (bytes h') \<and>
     (if r = 0 then sizes h' = sizes h else fresh_at (sizes h) al n r \<and> sizes h' = (sizes h)(r \<mapsto> n))"

fun c_legal :: "c_heap \<Rightarrow> c_op \<Rightarrow> bool" where
  "c_legal h (Realloc p n) \<longleftrightarrow> p = 0 \<or> sizes h p \<noteq> None"
| "c_legal h (Free p) \<longleftrightarrow> p = 0 \<or> sizes h p \<noteq> None"
| "c_legal h (Put a v) \<longleftrightarrow> in_heap (sizes h) a"
| "c_legal h (Get a) \<longleftrightarrow> in_heap (sizes h) a"
| "c_legal h _ \<longleftrightarrow> True"

fun c_spec :: "target_arch \<Rightarrow> c_heap \<Rightarrow> c_op \<Rightarrow> usize \<Rightarrow> c_heap \<Rightarrow> bool" where
  "c_spec arch h (Malloc n) r h' \<longleftrightarrow> new_block (malloc_MIN_ALIGN arch) n h r h'"
| "c_spec arch h (Calloc k n) r h' \<longleftrightarrow> new_block (malloc_MIN_ALIGN arch) (n * k) h r h' \<and> (r \<noteq> 0 \<longrightarrow> (\<forall>i < n * k. bytes h' (r + i) = 0))"
| "c_spec arch h (Aligned_alloc al n) r h' \<longleftrightarrow> new_block al n h r h'"
| "c_spec arch h (Realloc p n) r h' \<longleftrightarrow> (case sizes h p of
     None \<Rightarrow> new_block (malloc_MIN_ALIGN arch) n h r h'
   | Some k \<Rightarrow> if r = 0 then sizes h' = sizes h \<and> same_bytes (sizes h) (bytes h) (bytes h')
       else new_block (malloc_MIN_ALIGN arch) n (h\<lparr>sizes := (sizes h)(p := None)\<rparr>) r h' \<and>
         (\<forall>i < min k n. bytes h' (r + i) = bytes h (p + i)))"
| "c_spec arch h (Free p) r h' \<longleftrightarrow> r = 0 \<and> sizes h' = (sizes h)(p := None) \<and> same_bytes (sizes h') (bytes h) (bytes h')"
| "c_spec arch h (Put a v) r h' \<longleftrightarrow> r = 0 \<and> sizes h' = sizes h \<and> same_bytes (sizes h) ((bytes h)(a := v mod 256)) (bytes h')"
| "c_spec arch h (Get a) r h' \<longleftrightarrow> r = bytes h a \<and> h' = h"

section \<open>The relation between the two\<close>

definition sizes_of :: "(usize \<times> layout) set \<Rightarrow> (usize \<rightharpoonup> usize) \<Rightarrow> bool" where
  "sizes_of A H \<longleftrightarrow> (\<forall>p n. H p = Some n \<longleftrightarrow> (\<exists>l. (p, l) \<in> A \<and> lsize l = n))"

definition c_rel ::
  "'x FlexSource \<Rightarrow> ('x \<Rightarrow> mem \<Rightarrow> (usize \<times> usize) set \<Rightarrow> bool) \<Rightarrow> 'x TheTlsf \<Rightarrow> mem \<Rightarrow> c_heap \<Rightarrow> bool" where
  "c_rel S R f m h \<longleftrightarrow> (\<exists>A. GlobalTlsf_ok S R f m A \<and> sizes_of A (sizes h)) \<and>
     (\<forall>a. in_heap (sizes h) a \<longrightarrow> load_byte m a = Some (bytes h a))"

text \<open>The heap after an operation, with the bytes read from the memory.\<close>

definition heap_at :: "(usize \<rightharpoonup> usize) \<Rightarrow> mem \<Rightarrow> c_heap" where
  "heap_at H m = \<lparr>sizes = H, bytes = (\<lambda>a. case load_byte m a of Some v \<Rightarrow> v | None \<Rightarrow> 0)\<rparr>"

lemma sizes_of_in_heap: "sizes_of A H \<Longrightarrow> in_heap H a \<longleftrightarrow> (\<exists>p l. (p, l) \<in> A \<and> p \<le> a \<and> a < p + lsize l)"
  unfolding sizes_of_def in_heap_def by metis

lemma apart_not_in_heap:
  assumes "sizes_of A H" and "apart (p, n) (region ` A)" and a: "p \<le> a" "a < p + n"
  shows "\<not> in_heap H a"
proof
  assume "in_heap H a"
  then obtain q l where q: "(q, l) \<in> A" "q \<le> a" "a < q + lsize l" using sizes_of_in_heap [OF assms(1)] by blast
  then have "a \<in> blk_range (p, n) \<inter> blk_range (region (q, l))" using a by (simp add: region_def blk_range_def)
  then show False using assms(2) q(1) unfolding apart_def by blast
qed

context global_tlsf
begin

lemma ok_live:
  assumes "GlobalTlsf_ok S R f m A"
  obtains ps where "tlsf_inv global_cfg (tlsf_of f) m ps" and "live ps = triple ` A"
  using assms unfolding GlobalTlsf_ok_def flex_inv_def by blast

lemma bytes_mapped:
  assumes Q: "GlobalTlsf_ok S R f m A" and x: "(p, l) \<in> A" "p \<le> a" "a < p + lsize l"
  shows "load_byte m a \<noteq> None"
proof -
  obtain ps where I: "tlsf_inv global_cfg (tlsf_of f) m ps" "live ps = triple ` A" by (rule ok_live [OF Q])
  have "(p, lalign l, lsize l) \<in> live ps" using I(2) x(1) by force
  note f = live_facts [OF I(1) this]
  have "m (a - a mod 8) \<noteq> None"
    using f(5) cell_of_byte [OF f(2) x(2)] x(3) unfolding mapped_blk_def blk_range_def by (auto simp: minus_mod_eq_mult_div)
  then show ?thesis by (auto simp: load_byte_def)
qed

lemma ok_bound:
  assumes Q: "GlobalTlsf_ok S R f m A" and x: "(p, l) \<in> A"
  shows "p + lsize l \<le> USIZE_LIM"
proof -
  obtain ps where I: "tlsf_inv global_cfg (tlsf_of f) m ps" "live ps = triple ` A" by (rule ok_live [OF Q])
  have "(p, lalign l, lsize l) \<in> live ps" using I(2) x by force
  then show ?thesis by (rule live_facts(3) [OF I(1)])
qed

lemma one_layout:
  assumes Q: "GlobalTlsf_ok S R f m A" and x: "(p, l) \<in> A" "(p, l') \<in> A"
  shows "l = l'"
proof (rule ccontr)
  assume ne: "l \<noteq> l'"
  obtain ps where I: "tlsf_inv global_cfg (tlsf_of f) m ps" "live ps = triple ` A" by (rule ok_live [OF Q])
  have "triple (p, l) \<in> live ps" "triple (p, l') \<in> live ps" using I(2) x by blast+
  moreover have "triple (p, l) \<noteq> triple (p, l')" using ne triple_inj by blast
  ultimately have "separate (triple (p, l)) (triple (p, l'))" by (rule live_separate [OF I(1)])
  then show False by (simp add: separate_def)
qed

lemma kept_same_bytes:
  assumes Q: "GlobalTlsf_ok S R f m A" and B: "B \<subseteq> A" "sizes_of B H" and k: "contents_kept m m' (triple ` B)"
    and h: "\<forall>a. in_heap H a \<longrightarrow> load_byte m a = Some (D a)"
  shows "same_bytes H D (bytes (heap_at H' m'))"
  unfolding same_bytes_def
proof (intro allI impI)
  fix a assume a: "in_heap H a"
  then obtain p l where x: "(p, l) \<in> B" "p \<le> a" "a < p + lsize l" using sizes_of_in_heap [OF B(2)] by blast
  have "(p, lalign l, lsize l) \<in> triple ` B" using x(1) by force
  then have "load_byte m' a = load_byte m a" using k x(2,3) unfolding contents_kept_def by blast
  then show "bytes (heap_at H' m') a = D a" using h a by (simp add: heap_at_def)
qed

lemma agree_contents:
  assumes Q: "GlobalTlsf_ok S R f m A" and B: "B \<subseteq> A" and ag: "agree m m' (region ` B)"
  shows "contents_kept m m' (triple ` B)"
proof -
  obtain ps where I: "tlsf_inv global_cfg (tlsf_of f) m ps" "live ps = triple ` A" by (rule ok_live [OF Q])
  have "cells_kept m m' (triple ` B)" using ag unfolding cells_kept_def agree_def region_def blk_range_def triple_def by force
  then show ?thesis by (rule cells_kept_contents [OF I(1)]) (use I(2) B in blast)
qed

lemma rel_heap_at:
  assumes Q: "GlobalTlsf_ok S R f m A" and "sizes_of A H"
  shows "c_rel S R f m (heap_at H m)"
proof -
  have "load_byte m a = Some (bytes (heap_at H m) a)" if "in_heap H a" for a
  proof -
    have "\<exists>p l. (p, l) \<in> A \<and> p \<le> a \<and> a < p + lsize l" using that sizes_of_in_heap [OF assms(2), of a] by (rule iffD1 [rotated])
    then obtain p l where "(p, l) \<in> A" "p \<le> a" "a < p + lsize l" by blast
    then obtain v where "load_byte m a = Some v" using bytes_mapped [OF Q, of p l a] by auto
    then show ?thesis by (simp add: heap_at_def)
  qed
  then show ?thesis using assms unfolding c_rel_def by (auto simp: heap_at_def)
qed

lemma new_block_rel:
  assumes Q: "GlobalTlsf_ok S R f m A" and H: "sizes_of A (sizes h)" and B: "\<forall>a. in_heap (sizes h) a \<longrightarrow> load_byte m a = Some (bytes h a)"
    and al: "allocated S R m A al n p f' m'"
  obtains h' where "c_rel S R f' m' h'" and "new_block al n h p h'" and "h' = heap_at (sizes h') m'"
proof -
  have ag: "agree m m' (region ` A)" using al by (simp add: allocated_def)
  have same: "same_bytes (sizes h) (bytes h) (bytes (heap_at H' m'))" for H'
    by (rule kept_same_bytes [OF Q subset_refl H agree_contents [OF Q subset_refl ag] B])
  show thesis
  proof (cases "p = 0")
    case True
    then have "c_rel S R f' m' (heap_at (sizes h) m')" using al rel_heap_at [OF _ H] by (simp add: allocated_def)
    then show thesis using same True by (intro that [of "heap_at (sizes h) m'"]) (simp_all add: new_block_def heap_at_def)
  next
    case False
    let ?l = "\<lparr>lsize = n, lalign = al\<rparr>" and ?H = "(sizes h)(p \<mapsto> n)"
    have q: "al dvd p" "p + n \<le> USIZE_LIM" "apart (p, n) (region ` A)" "(p, ?l) \<notin> A" "GlobalTlsf_ok S R f' m' (insert (p, ?l) A)"
      using al False by (simp_all add: allocated_def)
    have fr: "(p, l) \<notin> A" for l using one_layout [OF q(5), of p l ?l] q(4) by auto
    then have none: "sizes h p = None" using H unfolding sizes_of_def by (cases "sizes h p") blast+
    have "sizes_of (insert (p, ?l) A) ?H" using H fr unfolding sizes_of_def by auto
    then have "c_rel S R f' m' (heap_at ?H m')" by (rule rel_heap_at [OF q(5)])
    moreover have "fresh_at (sizes h) al n p" using q(1,2) none False apart_not_in_heap [OF H q(3)] by (simp add: fresh_at_def)
    ultimately show thesis using same False by (intro that [of "heap_at ?H m'"]) (simp_all add: new_block_def heap_at_def)
  qed
qed

lemma removed_sizes:
  assumes Q: "GlobalTlsf_ok S R f m A" and H: "sizes_of A H" and x: "(p, l) \<in> A"
  shows "sizes_of (A - {(p, l)}) (H(p := None))"
  unfolding sizes_of_def
proof (intro allI)
  fix q n
  show "(H(p := None)) q = Some n \<longleftrightarrow> (\<exists>l'. (q, l') \<in> A - {(p, l)} \<and> lsize l' = n)"
    using H one_layout [OF Q x] unfolding sizes_of_def by (cases "q = p") auto
qed

text \<open>Reallocation: the old block is given up and a new one appears that holds its bytes.\<close>

lemma realloc_rel:
  assumes Q: "GlobalTlsf_ok S R f m A" and H: "sizes_of A (sizes h)" and B: "\<forall>a. in_heap (sizes h) a \<longrightarrow> load_byte m a = Some (bytes h a)"
    and k: "sizes h p = Some k"
  obtains r f' m' h' where "realloc arch S f m p n = Some (r, f', m')" and "c_rel S R f' m' h'" and "c_spec arch h (Realloc p n) r h'"
proof -
  let ?l = "\<lparr>lsize = n, lalign = malloc_MIN_ALIGN arch\<rparr>" and ?H = "(sizes h)(p := None)"
  obtain l where x: "(p, l) \<in> A" "lsize l = k" using H k unfolding sizes_of_def by blast
  obtain c r f' m' where r: "k \<le> c" "realloc arch S f m p n = Some (of_ptr r, f', m')" "replaced S R m A (p, l) ?l (min n c) r f' m'"
    using c_realloc_ok [OF Q x(1) live_not_null [OF Q x(1)], of arch n] x(2) by blast
  show thesis
  proof (cases r)
    case None
    have r': "GlobalTlsf_ok S R f' m' A" "contents_kept m m' (triple ` A)" using r(3) None by (simp_all add: replaced_def)
    have "c_spec arch h (Realloc p n) 0 (heap_at (sizes h) m')"
      using kept_same_bytes [OF Q subset_refl H r'(2) B, of "sizes h"] k by (simp add: heap_at_def)
    then show thesis using r(2) None rel_heap_at [OF r'(1) H] by (intro that [of 0]) (simp_all add: of_ptr_def)
  next
    case (Some q)
    have r': "0 < q" "malloc_MIN_ALIGN arch dvd q" "apart (q, n) (region ` (A - {(p, l)}))" "(q, ?l) \<notin> A - {(p, l)}"
        "GlobalTlsf_ok S R f' m' (insert (q, ?l) (A - {(p, l)}))" "contents_kept m m' (triple ` (A - {(p, l)}))"
        "\<forall>i < min n c. load_byte m' (q + i) = load_byte m (p + i)" using r(3) Some by (simp_all add: replaced_def)
    note H1 = removed_sizes [OF Q H x(1)]
    have fr: "(q, l') \<notin> A - {(p, l)}" for l' using one_layout [OF r'(5), of q l' ?l] r'(4) by auto
    have none: "?H q = None" using H1 fr unfolding sizes_of_def by (cases "?H q") blast+
    have H2: "sizes_of (insert (q, ?l) (A - {(p, l)})) (?H(q \<mapsto> n))" using H1 fr unfolding sizes_of_def by auto
    let ?h = "heap_at (?H(q \<mapsto> n)) m'"
    have "q + n \<le> USIZE_LIM" using ok_bound [OF r'(5) insertI1] by simp
    then have "fresh_at ?H (malloc_MIN_ALIGN arch) n q" using r'(1,2) none apart_not_in_heap [OF H1 r'(3)] by (simp add: fresh_at_def)
    moreover have "same_bytes ?H (bytes h) (bytes ?h)"
      by (rule kept_same_bytes [OF Q Diff_subset H1 r'(6)]) (use B in \<open>auto simp: in_heap_def split: if_splits\<close>)
    moreover have "bytes ?h (q + i) = bytes h (p + i)" if "i < min k n" for i
    proof -
      have "in_heap (sizes h) (p + i)" unfolding in_heap_def using k that by (intro exI [of _ p] exI [of _ k]) simp
      then show ?thesis using r'(7) B that r(1) by (simp add: heap_at_def)
    qed
    ultimately have "c_spec arch h (Realloc p n) q ?h" using k r'(1) by (simp add: new_block_def heap_at_def)
    then show thesis using r(2) Some rel_heap_at [OF r'(5) H2] by (intro that [of q]) (simp_all add: of_ptr_def)
  qed
qed

lemma free_rel:
  assumes Q: "GlobalTlsf_ok S R f m A" and H: "sizes_of A (sizes h)" and B: "\<forall>a. in_heap (sizes h) a \<longrightarrow> load_byte m a = Some (bytes h a)"
    and p: "p = 0 \<or> sizes h p \<noteq> None"
  obtains f' m' h' where "free f m p = Some (f', m')" and "c_rel S R f' m' h'" and "c_spec arch h (Free p) 0 h'"
proof (cases "p = 0")
  case True
  have "sizes h 0 = None" using H live_not_null [OF Q] unfolding sizes_of_def by (metis not_less_zero option.exhaust)
  then have "(sizes h)(0 := None) = sizes h" by auto
  then have "c_spec arch h (Free p) 0 h" using True by (simp add: same_bytes_def)
  moreover have "c_rel S R f m h" using Q H B unfolding c_rel_def by blast
  ultimately show thesis using True by (intro that [of f m h]) (simp_all add: free_def to_ptr_def)
next
  case False
  then obtain k where k: "sizes h p = Some k" using p by auto
  obtain l where x: "(p, l) \<in> A" using H k unfolding sizes_of_def by blast
  obtain f' m' where r: "free f m p = Some (f', m')" "agree m m' (region ` (A - {(p, l)}))" "GlobalTlsf_ok S R f' m' (A - {(p, l)})"
    by (rule c_free_ok [OF Q x live_not_null [OF Q x]])
  let ?H = "(sizes h)(p := None)"
  note H1 = removed_sizes [OF Q H x]
  have "same_bytes ?H (bytes h) (bytes (heap_at ?H m'))"
    by (rule kept_same_bytes [OF Q Diff_subset H1 agree_contents [OF Q Diff_subset r(2)]]) (use B in \<open>auto simp: in_heap_def split: if_splits\<close>)
  then have "c_spec arch h (Free p) 0 (heap_at ?H m')" by (simp add: heap_at_def)
  then show thesis by (rule that [OF r(1) rel_heap_at [OF r(3) H1]])
qed

lemma put_rel:
  assumes Q: "GlobalTlsf_ok S R f m A" and H: "sizes_of A (sizes h)" and B: "\<forall>a. in_heap (sizes h) a \<longrightarrow> load_byte m a = Some (bytes h a)"
    and a: "in_heap (sizes h) a"
  obtains m' h' where "store_byte m a v = Some m'" and "c_rel S R f m' h'" and "c_spec arch h (Put a v) 0 h'"
proof -
  obtain p l where x: "(p, l) \<in> A" "p \<le> a" "a < p + lsize l" using iffD1 [OF sizes_of_in_heap [OF H] a] by blast
  obtain ps where I: "tlsf_inv global_cfg (tlsf_of f) m ps" "live ps = triple ` A" by (rule ok_live [OF Q])
  have "(p, lalign l, lsize l) \<in> live ps" using I(2) x by force
  note c = cell_of_byte [OF live_facts(2) [OF I(1) this] x(2)]
  have "m (a - a mod 8) \<noteq> None" using bytes_mapped [OF Q x] by (auto simp: load_byte_def)
  then obtain m' where m': "store_byte m a v = Some m'" "changes_only m m' {a - a mod 8}"
      "\<And>b. load_byte m' b = (if b = a then Some (v mod 256) else load_byte m b)" by (rule store_byte_obtain [of m a v]) blast
  have "a - a mod 8 \<in> blk_range (region (p, l))" using c x(3) by (simp add: region_def blk_range_def)
  then have cell: "a - a mod 8 \<in> \<Union>(blk_range ` region ` A)" using x(1) by (intro UnionI [OF imageI [OF imageI]])
  have "m' y = m y" if "y \<notin> \<Union>(blk_range ` region ` A)" for y
  proof -
    have "y \<noteq> a - a mod 8" using cell that by metis
    then show ?thesis using m'(2) by (simp add: changes_only_def)
  qed
  then have "GlobalTlsf_ok S R f m' A" using m'(2) by (intro write_ok [OF Q]) (simp_all add: changes_only_def)
  then have rel: "c_rel S R f m' (heap_at (sizes h) m')" by (rule rel_heap_at) (rule H)
  have "c_spec arch h (Put a v) 0 (heap_at (sizes h) m')" using m'(3) B by (simp add: same_bytes_def heap_at_def)
  then show thesis by (rule that [OF m'(1) rel])
qed

lemma c_rel_facts:
  assumes "c_rel S R f m h"
  obtains A where "GlobalTlsf_ok S R f m A" and "sizes_of A (sizes h)" and "\<forall>a. in_heap (sizes h) a \<longrightarrow> load_byte m a = Some (bytes h a)"
  using assms unfolding c_rel_def by blast

lemma step_ok:
  assumes rel: "c_rel S R f m h" and legal: "c_legal h op"
  shows "\<exists>r f' m' h'. c_run arch S f m op = Some (r, f', m') \<and> c_rel S R f' m' h' \<and> c_spec arch h op r h'"
proof (rule c_rel_facts [OF rel])
  fix A assume Q: "GlobalTlsf_ok S R f m A" and H: "sizes_of A (sizes h)" and B: "\<forall>a. in_heap (sizes h) a \<longrightarrow> load_byte m a = Some (bytes h a)"
  note nb = new_block_rel [OF Q H B]
  have aa: "\<exists>r f' m' h'. aligned_alloc S f m al n = Some (r, f', m') \<and> c_rel S R f' m' h' \<and> new_block al n h r h'" for al n
    by (rule aligned_alloc_ok [OF Q, of al n]) (metis nb)
  show ?thesis
  proof (cases op)
    case (Malloc n)
    then show ?thesis using aa by (simp add: malloc_def)
  next
    case (Calloc k n)
    obtain r f' m' where c: "calloc arch S f m k n = Some (r, f', m')" "allocated S R m A (malloc_MIN_ALIGN arch) (n * k) r f' m'"
        "r \<noteq> 0 \<longrightarrow> (\<forall>i < n * k. load_byte m' (r + i) = Some 0)" by (rule calloc_ok [OF Q, of arch k n]) blast
    obtain h' where h: "c_rel S R f' m' h'" "new_block (malloc_MIN_ALIGN arch) (n * k) h r h'" "h' = heap_at (sizes h') m'" by (rule nb [OF c(2)])
    have "bytes h' a = 0" if "load_byte m' a = Some 0" for a using that by (subst h(3)) (simp add: heap_at_def)
    then show ?thesis using c h(1,2) Calloc by (intro exI [of _ r] exI [of _ f'] exI [of _ m'] exI [of _ h']) simp
  next
    case (Aligned_alloc al n)
    then show ?thesis using aa by simp
  next
    case (Realloc p n)
    show ?thesis
    proof (cases "sizes h p")
      case None
      then have "realloc arch S f m p n = malloc arch S f m n" using legal Realloc by (simp add: realloc_def to_ptr_def)
      then show ?thesis using aa None Realloc by (simp add: malloc_def)
    next
      case (Some k)
      obtain r f' m' h' where "realloc arch S f m p n = Some (r, f', m')" "c_rel S R f' m' h'" "c_spec arch h (Realloc p n) r h'"
        by (rule realloc_rel [OF Q H B Some])
      then show ?thesis unfolding Realloc by (intro exI [of _ r] exI [of _ f'] exI [of _ m'] exI [of _ h']) simp
    qed
  next
    case (Free p)
    have "p = 0 \<or> sizes h p \<noteq> None" using legal Free by simp
    then obtain f' m' h' where "free f m p = Some (f', m')" "c_rel S R f' m' h'" "c_spec arch h (Free p) 0 h'" by (rule free_rel [OF Q H B])
    then show ?thesis unfolding Free by (intro exI [of _ 0] exI [of _ f'] exI [of _ m'] exI [of _ h']) auto
  next
    case (Put a v)
    have "in_heap (sizes h) a" using legal Put by simp
    then obtain m' h' where "store_byte m a v = Some m'" "c_rel S R f m' h'" "c_spec arch h (Put a v) 0 h'" by (rule put_rel [OF Q H B])
    then show ?thesis unfolding Put by (intro exI [of _ 0] exI [of _ f] exI [of _ m'] exI [of _ h']) simp
  next
    case (Get a)
    then show ?thesis using rel legal B by simp
  qed
qed

end

section \<open>Programs\<close>

text \<open>The states a program reaches that performs legal operations, chosen by what it has seen so far, together with the
  abstract heaps that the specification allows.\<close>

inductive c_reach ::
  "target_arch \<Rightarrow> 'x FlexSource \<Rightarrow> ('x \<Rightarrow> mem \<Rightarrow> (usize \<times> usize) set \<Rightarrow> bool) \<Rightarrow> 'x TheTlsf \<Rightarrow> mem \<Rightarrow> 'x TheTlsf \<Rightarrow> mem \<Rightarrow> c_heap \<Rightarrow> bool"
  for arch S R f0 m0 where
  start: "c_reach arch S R f0 m0 f0 m0 \<lparr>sizes = Map.empty, bytes = (\<lambda>a. 0)\<rparr>"
| call: "c_reach arch S R f0 m0 f m h \<Longrightarrow> c_legal h op \<Longrightarrow> c_run arch S f m op = Some (r, f', m') \<Longrightarrow>
    c_spec arch h op r h' \<Longrightarrow> c_rel S R f' m' h' \<Longrightarrow> c_reach arch S R f0 m0 f' m' h'"

lemma new_rel: "GlobalTlsf_ok S R f m {} \<Longrightarrow> c_rel S R f m \<lparr>sizes = Map.empty, bytes = (\<lambda>a. 0)\<rparr>"
  by (auto simp: c_rel_def sizes_of_def in_heap_def)

lemma reach_rel: "c_reach arch S R f0 m0 f m h \<Longrightarrow> GlobalTlsf_ok S R f0 m0 {} \<Longrightarrow> c_rel S R f m h"
  by (induction rule: c_reach.induct) (simp_all add: new_rel)

end
