(* ===== verification/Wasm_Source.thy ===== *)
theory Wasm_Source
  imports Global
begin

text \<open>
  The source of memory of the global allocator on WebAssembly (crates/rlsf/src/global/wasm32.rs). The target
  has 32-bit addresses, so this theory has its own integers; the rest of the allocator is modelled for 64 bits.
  The instructions \<open>memory.size\<close> and \<open>memory.grow\<close> are a parameter, with what the specification of WebAssembly says
  of them as the locale \<open>wasm_memory\<close>. The result \<open>None\<close> of a function is a trap.
\<close>

section \<open>Machine integers and instructions\<close>

type_synonym usize32 = nat

definition USIZE32_LIM :: usize32 where
  "USIZE32_LIM = 2 ^ 32"

definition checked_add32 :: "usize32 \<Rightarrow> usize32 \<Rightarrow> usize32 option" where
  "checked_add32 a b = (if a + b < USIZE32_LIM then Some (a + b) else None)"

definition mul32 :: "usize32 \<Rightarrow> usize32 \<Rightarrow> usize32 option" where
  "mul32 a b = (if a * b < USIZE32_LIM then Some (a * b) else None)"

definition sub32 :: "usize32 \<Rightarrow> usize32 \<Rightarrow> usize32 option" where
  "sub32 a b = (if b \<le> a then Some (a - b) else None)"

record 'w wasm =
  memory_size :: "'w \<Rightarrow> usize32"
  memory_grow :: "'w \<Rightarrow> usize32 \<Rightarrow> usize32 \<times> 'w"

section \<open>Source\<close>

definition PAGE_SIZE_LOG2 :: nat where
  "PAGE_SIZE_LOG2 = 16"

definition PAGE_SIZE :: usize32 where
  "PAGE_SIZE = 2 ^ PAGE_SIZE_LOG2"

definition wasm_alloc :: "'w wasm \<Rightarrow> 'w \<Rightarrow> usize32 \<Rightarrow> ((usize32 \<times> usize32) option \<times> 'w) option" where
  "wasm_alloc W w min_size = (case checked_add32 min_size (PAGE_SIZE - 1) of
     None \<Rightarrow> Some (None, w)
   | Some s \<Rightarrow> do {
       let num_pages = s div PAGE_SIZE;
       num_bytes \<leftarrow> mul32 num_pages PAGE_SIZE;
       let (old_num_pages, w) = memory_grow W w num_pages;
       if old_num_pages = USIZE32_LIM - 1 then Some (None, w)
       else do {
         p \<leftarrow> mul32 old_num_pages PAGE_SIZE;
         if p = 0 then None else Some (Some (p, num_bytes), w)
       }
     })"

definition wasm_realloc_inplace_grow ::
  "'w wasm \<Rightarrow> GlobalTlsfOptions \<Rightarrow> 'w \<Rightarrow> usize32 \<times> usize32 \<Rightarrow> usize32 \<Rightarrow> (usize32 option \<times> 'w) option" where
  "wasm_realloc_inplace_grow W opts w ptr min_new_len = (
     if \<not> COALESCE_POOLS opts then Some (None, w)
     else let ptr_page = fst ptr div PAGE_SIZE
       in if ptr_page \<noteq> memory_size W w then Some (None, w)
       else case checked_add32 min_new_len (PAGE_SIZE - 1) of
         None \<Rightarrow> Some (None, w)
       | Some s \<Rightarrow> do {
           let new_num_pages = s div PAGE_SIZE;
           new_len \<leftarrow> mul32 new_num_pages PAGE_SIZE;
           d \<leftarrow> sub32 new_num_pages ptr_page;
           let (r, w) = memory_grow W w d;
           if r = USIZE32_LIM - 1 then Some (None, w) else Some (Some new_len, w)
         })"

definition wasm_supports_realloc_inplace_grow :: "GlobalTlsfOptions \<Rightarrow> bool" where
  "wasm_supports_realloc_inplace_grow opts = COALESCE_POOLS opts"

definition wasm_min_align :: usize32 where
  "wasm_min_align = PAGE_SIZE"

section \<open>The instructions\<close>

text \<open>A memory has at most 65536 pages; growing it returns its old size, or -1 and does nothing.\<close>

locale wasm_memory =
  fixes W :: "'w wasm"
  assumes size_law: "memory_size W w \<le> 2 ^ 16"
    and grow_law: "memory_grow W w n = (r, w') \<Longrightarrow>
      (if r = USIZE32_LIM - 1 then memory_size W w' = memory_size W w
       else r = memory_size W w \<and> memory_size W w' = memory_size W w + n)"

text \<open>What can happen to the memory: the allocator acquires a block or asks for one to be extended, and other code
  grows the memory.\<close>

inductive wasm_run :: "'w wasm \<Rightarrow> GlobalTlsfOptions \<Rightarrow> 'w \<Rightarrow> 'w \<Rightarrow> (usize32 \<times> usize32) set \<Rightarrow> bool" for W opts w0 where
  init: "wasm_run W opts w0 w0 {}"
| alloc: "wasm_run W opts w0 w A \<Longrightarrow> 0 < n \<Longrightarrow> wasm_alloc W w n = Some (r, w') \<Longrightarrow>
    wasm_run W opts w0 w' (case r of None \<Rightarrow> A | Some blk \<Rightarrow> insert blk A)"
| extend: "wasm_run W opts w0 w A \<Longrightarrow> blk \<in> A \<Longrightarrow> wasm_realloc_inplace_grow W opts w blk n = Some (r, w') \<Longrightarrow>
    wasm_run W opts w0 w' (case r of None \<Rightarrow> A | Some k \<Rightarrow> insert (fst blk, k) (A - {blk}))"
| other: "wasm_run W opts w0 w A \<Longrightarrow> memory_grow W w n = (r, w') \<Longrightarrow> wasm_run W opts w0 w' A"

definition wasm_blocks :: "'w wasm \<Rightarrow> 'w \<Rightarrow> (usize32 \<times> usize32) set \<Rightarrow> bool" where
  "wasm_blocks W w A \<longleftrightarrow> 0 < memory_size W w \<and> (\<forall>blk \<in> A. 0 < fst blk \<and> 0 < snd blk \<and> PAGE_SIZE dvd fst blk \<and> PAGE_SIZE dvd snd blk \<and>
     fst blk + snd blk \<le> memory_size W w * PAGE_SIZE \<and> apart blk (A - {blk}))"

lemma PAGE_SIZE_val: "PAGE_SIZE = 65536" "0 < PAGE_SIZE"
  by (simp_all add: PAGE_SIZE_def PAGE_SIZE_LOG2_def)

lemma wasm_blocks_mono:
  assumes "wasm_blocks W w A" and "memory_size W w \<le> memory_size W w'"
  shows "wasm_blocks W w' A"
proof -
  have "memory_size W w * PAGE_SIZE \<le> memory_size W w' * PAGE_SIZE" using assms(2) by (rule mult_le_mono1)
  then show ?thesis using assms unfolding wasm_blocks_def by (meson le_trans less_le_trans)
qed

lemma wasm_blocks_insert:
  assumes B: "wasm_blocks W w A" and "PAGE_SIZE dvd s" "PAGE_SIZE dvd k" "0 < s" "0 < k" "s + k \<le> memory_size W w * PAGE_SIZE"
    and below: "\<And>b. b \<in> A \<Longrightarrow> fst b + snd b \<le> s"
  shows "wasm_blocks W w (insert (s, k) A)"
proof -
  have ap: "blk_range (s, k) \<inter> blk_range b = {}" if "b \<in> A" for b using below [OF that] by (auto simp: blk_range_def)
  then have "apart (s, k) (insert (s, k) A - {(s, k)})" by (auto simp: apart_def)
  moreover have "apart b (insert (s, k) A - {b})" if "b \<in> A" for b
  proof -
    have "apart b (A - {b})" using B that by (simp add: wasm_blocks_def)
    then show ?thesis using ap [OF that] unfolding apart_def by blast
  qed
  ultimately show ?thesis using assms(2-6) B unfolding wasm_blocks_def by simp
qed

context wasm_memory
begin

lemma grow_mono: "memory_grow W w n = (r, w') \<Longrightarrow> memory_size W w \<le> memory_size W w'"
  using grow_law [of w n r w'] by (auto split: if_splits)

lemma alloc_served:
  assumes "0 < memory_size W w" and "0 < n"
  obtains w' where "wasm_alloc W w n = Some (None, w')" and "memory_size W w' = memory_size W w"
  | k w' where "wasm_alloc W w n = Some (Some (memory_size W w * PAGE_SIZE, k), w')" and "n \<le> k" and "PAGE_SIZE dvd k"
    and "memory_size W w * PAGE_SIZE + k = memory_size W w' * PAGE_SIZE"
proof (cases "n + (PAGE_SIZE - 1) < USIZE32_LIM")
  case False
  then show thesis by (intro that(1) [of w]) (simp_all add: wasm_alloc_def checked_add32_def)
next
  case True
  let ?p = "(n + (PAGE_SIZE - 1)) div PAGE_SIZE"
  obtain r w' where g: "memory_grow W w ?p = (r, w')" by (metis surj_pair)
  note law = grow_law [OF g]
  have "?p * PAGE_SIZE = round_up PAGE_SIZE n" by (simp add: round_up_def minus_mod_eq_div_mult)
  moreover have "?p * PAGE_SIZE \<le> n + (PAGE_SIZE - 1)" by simp
  ultimately have b: "mul32 ?p PAGE_SIZE = Some (?p * PAGE_SIZE)" "n \<le> ?p * PAGE_SIZE" "0 < ?p"
    using True round_up_ge [of PAGE_SIZE n] PAGE_SIZE_val assms(2) by (auto simp: mul32_def intro: Nat.gr0I)
  show thesis
  proof (cases "r = USIZE32_LIM - 1")
    case True
    then show thesis using law g b(1) \<open>n + (PAGE_SIZE - 1) < USIZE32_LIM\<close>
      by (intro that(1) [of w']) (simp_all add: wasm_alloc_def checked_add32_def)
  next
    case False
    have s: "r = memory_size W w" "memory_size W w' = memory_size W w + ?p" using law False by simp_all
    have "memory_size W w < 2 ^ 16" using size_law [of w'] s(2) b(3) by linarith
    then have m: "mul32 r PAGE_SIZE = Some (memory_size W w * PAGE_SIZE)" by (simp add: mul32_def s(1) PAGE_SIZE_val USIZE32_LIM_def)
    show thesis
      by (rule that(2) [of "?p * PAGE_SIZE" w'])
        (use b m g False s assms(1) \<open>n + (PAGE_SIZE - 1) < USIZE32_LIM\<close> PAGE_SIZE_val(2) in \<open>simp_all add: wasm_alloc_def checked_add32_def Let_def add_mult_distrib\<close>)
  qed
qed

text \<open>A block lies below the end of the memory, so its first page is not the page after the end.\<close>

lemma grow_refused:
  assumes "wasm_blocks W w A" and "blk \<in> A"
  shows "wasm_realloc_inplace_grow W opts w blk n = Some (None, w)"
proof -
  have "fst blk < memory_size W w * PAGE_SIZE" using assms unfolding wasm_blocks_def by fastforce
  then have "fst blk div PAGE_SIZE < memory_size W w" by (simp add: less_mult_imp_div_less)
  then show ?thesis by (simp add: wasm_realloc_inplace_grow_def Let_def)
qed

lemma run_blocks:
  assumes "wasm_run W opts w0 w A" and "0 < memory_size W w0"
  shows "wasm_blocks W w A"
  using assms
proof (induction rule: wasm_run.induct)
  case init
  then show ?case by (simp add: wasm_blocks_def)
next
  case (alloc w A n r w')
  have B: "wasm_blocks W w A" by (rule alloc.IH [OF alloc.prems])
  then have pos: "0 < memory_size W w" by (simp add: wasm_blocks_def)
  show ?case
  proof (rule alloc_served [OF pos alloc.hyps(2)])
    fix w1 assume "wasm_alloc W w n = Some (None, w1)" "memory_size W w1 = memory_size W w"
    then show ?case using alloc.hyps(3) wasm_blocks_mono [OF B, of w1] by simp
  next
    fix k w1 assume a: "wasm_alloc W w n = Some (Some (memory_size W w * PAGE_SIZE, k), w1)" "n \<le> k" "PAGE_SIZE dvd k"
      "memory_size W w * PAGE_SIZE + k = memory_size W w1 * PAGE_SIZE"
    then have "memory_size W w * PAGE_SIZE \<le> memory_size W w1 * PAGE_SIZE" by linarith
    then have "wasm_blocks W w1 A" using PAGE_SIZE_val by (intro wasm_blocks_mono [OF B]) simp
    moreover have "fst b + snd b \<le> memory_size W w * PAGE_SIZE" if "b \<in> A" for b using B that by (simp add: wasm_blocks_def)
    ultimately have "wasm_blocks W w1 (insert (memory_size W w * PAGE_SIZE, k) A)"
      using a alloc.hyps(2) pos PAGE_SIZE_val by (intro wasm_blocks_insert) simp_all
    then show ?case using alloc.hyps(3) a(1) by auto
  qed
next
  case (extend w A blk n r w')
  have B: "wasm_blocks W w A" by (rule extend.IH [OF extend.prems])
  have "r = None" "w' = w" using extend.hyps grow_refused [OF B, of blk opts n] by simp_all
  then show ?case using B by simp
next
  case (other w A n r w')
  show ?case by (rule wasm_blocks_mono [OF other.IH [OF other.prems] grow_mono [OF other.hyps(2)]])
qed

end

section \<open>The source on WebAssembly\<close>

text \<open>A memory of at most 100 pages, for the examples.\<close>

definition wasm_demo :: "nat wasm" where
  "wasm_demo = \<lparr>memory_size = (\<lambda>w. min w 100), memory_grow = (\<lambda>w n. if min w 100 + n \<le> 100 then (min w 100, min w 100 + n) else (USIZE32_LIM - 1, w))\<rparr>"

interpretation wasm_demo: wasm_memory wasm_demo
  by unfold_locales (auto simp: wasm_demo_def USIZE32_LIM_def split: if_splits)

text \<open>C29: \<open>alloc\<close> on WebAssembly never traps on a memory that is not empty: it fails and does nothing, or appends enough whole
  pages to the memory and returns exactly these; sizes whose rounding overflows are refused.\<close>

theorem wasm_alloc_spec:
  assumes "wasm_memory W" and "0 < memory_size W w" and "0 < n"
  shows "\<exists>r w'. wasm_alloc W w n = Some (r, w') \<and> (USIZE32_LIM \<le> n + (PAGE_SIZE - 1) \<longrightarrow> r = None) \<and>
    (case r of None \<Rightarrow> memory_size W w' = memory_size W w
     | Some blk \<Rightarrow> fst blk = memory_size W w * wasm_min_align \<and> n \<le> snd blk \<and> fst blk + snd blk = memory_size W w' * PAGE_SIZE)"
proof (cases "USIZE32_LIM \<le> n + (PAGE_SIZE - 1)")
  case True
  then show ?thesis by (simp add: wasm_alloc_def checked_add32_def)
next
  case False
  show ?thesis
  proof (rule wasm_memory.alloc_served [OF assms])
    fix w' assume "wasm_alloc W w n = Some (None, w')" "memory_size W w' = memory_size W w"
    then show ?thesis by simp
  next
    fix k w' assume "wasm_alloc W w n = Some (Some (memory_size W w * PAGE_SIZE, k), w')" "n \<le> k"
      "memory_size W w * PAGE_SIZE + k = memory_size W w' * PAGE_SIZE"
    then show ?thesis using False by (simp add: wasm_min_align_def)
  qed
qed

theorem wasm_alloc_spec_witness:
  "\<exists>r w'. wasm_alloc wasm_demo 3 70000 = Some (r, w') \<and> r = Some (3 * 65536, 2 * 65536) \<and> memory_size wasm_demo w' = 5"
proof -
  have "wasm_alloc wasm_demo 3 70000 = Some (Some (3 * 65536, 2 * 65536), 5)"
    by (simp add: wasm_alloc_def wasm_demo_def checked_add32_def mul32_def PAGE_SIZE_val USIZE32_LIM_def)
  with wasm_alloc_spec [OF wasm_demo.wasm_memory_axioms, of 3 70000] show ?thesis by (simp add: wasm_demo_def PAGE_SIZE_val)
qed

text \<open>C30: whatever the allocator and other code do to a memory that is not empty, the blocks acquired are disjoint whole pages within the
  memory, and \<open>realloc_inplace_grow\<close> refuses to extend each of them: it compares the first page of the block, not the page after
  its end, with the size of the memory. With pools to be coalesced the source still reports that it supports the operation.\<close>

theorem wasm_never_extends:
  assumes "wasm_memory W" and "0 < memory_size W w0" and "wasm_run W opts w0 w A" and "blk \<in> A"
  shows "wasm_realloc_inplace_grow W opts w blk n = Some (None, w) \<and> fst blk + snd blk \<le> memory_size W w * PAGE_SIZE \<and>
    apart blk (A - {blk}) \<and> wasm_supports_realloc_inplace_grow default_options"
  using wasm_memory.grow_refused [OF assms(1) wasm_memory.run_blocks [OF assms(1,3,2)] assms(4)]
    wasm_memory.run_blocks [OF assms(1,3,2)] assms(4)
  by (simp add: wasm_blocks_def wasm_supports_realloc_inplace_grow_def default_options_def)

theorem wasm_never_extends_witness:
  "\<exists>w A blk. wasm_run wasm_demo default_options 3 w A \<and> blk \<in> A \<and> wasm_realloc_inplace_grow wasm_demo default_options w blk 200000 = Some (None, w)"
proof -
  have "wasm_alloc wasm_demo 3 70000 = Some (Some (3 * 65536, 2 * 65536), 5)"
    by (simp add: wasm_alloc_def wasm_demo_def checked_add32_def mul32_def PAGE_SIZE_val USIZE32_LIM_def)
  from wasm_run.alloc [OF wasm_run.init _ this] have r: "wasm_run wasm_demo default_options 3 5 {(3 * 65536, 2 * 65536)}" by simp
  then show ?thesis using wasm_never_extends [OF wasm_demo.wasm_memory_axioms _ r, of "(3 * 65536, 2 * 65536)" 200000]
    by (intro exI [of _ 5] exI [of _ "{(3 * 65536, 2 * 65536)}"] exI [of _ "(3 * 65536, 2 * 65536)"]) (simp add: wasm_demo_def)
qed

end
