(* ===== verification/Tlsf_Iter.thy ===== *)
theory Tlsf_Iter
  imports Allocator
begin

text \<open>
  Enumerating the blocks of a memory pool (crates/rlsf/src/tlsf.rs, feature \<open>unstable\<close>):
  \<open>Tlsf::iter_blocks\<close> and \<open>BlockInfo\<close>.

  The closure of \<open>core::iter::from_fn\<close> is \<open>iter_next\<close>, a step on the cursor
  (\<open>start\<close>, \<open>len\<close>); running the iterator to its end is the partial function
  \<open>iter_collect\<close>, which is \<^const>\<open>None\<close> on a fault and where the iterator never ends (a header
  of size zero does not advance it). A \<open>BlockInfo\<close> is the address of its header.
\<close>

unbundle bit_operations_syntax

section \<open>Operations\<close>

definition iter_next :: "mem \<Rightarrow> usize \<Rightarrow> usize \<Rightarrow> (usize option \<times> usize \<times> usize) fallible" where
  "iter_next m start len =
     (if len = 0 then Some (None, start, len)
      else do {
        size_and_flags \<leftarrow> read_size m start;
        let block_size = size_and_flags AND SIZE_SIZE_MASK;
        len \<leftarrow> sub_usize len block_size;
        Some (Some start, wrapping_add start block_size, len)
      })"

partial_function (option) iter_collect :: "mem \<Rightarrow> usize \<Rightarrow> usize \<Rightarrow> usize list option" where
  "iter_collect m start len = do {
     x \<leftarrow> iter_next m start len;
     if fst x = None then Some []
     else do {
       flags \<leftarrow> read_size m (the (fst x));
       bs \<leftarrow> iter_collect m (fst (snd x)) (snd (snd x));
       Some (if flags AND SIZE_SENTINEL = 0 then the (fst x) # bs else bs)
     }
   }"

definition iter_blocks :: "mem \<Rightarrow> usize \<times> usize \<Rightarrow> usize list option" where
  "iter_blocks m pool =
     (let len = nonnull_slice_len pool;
          unaligned_start = nonnull_slice_start pool;
          start = wrapping_add unaligned_start (GRANULARITY - 1) AND not_usize (GRANULARITY - 1);
          len = saturating_sub len (wrapping_sub start unaligned_start)
      in iter_collect m start len)"

definition block_size_of :: "mem \<Rightarrow> usize \<Rightarrow> usize fallible" where
  "block_size_of m block_hdr = do {
     size_and_flags \<leftarrow> read_size m block_hdr;
     Some (size_and_flags AND SIZE_SIZE_MASK)
   }"

definition max_payload_size :: "mem \<Rightarrow> usize \<Rightarrow> usize fallible" where
  "max_payload_size m block_hdr = do {
     sz \<leftarrow> block_size_of m block_hdr;
     sub_usize sz (GRANULARITY div 2)
   }"

definition as_ptr :: "mem \<Rightarrow> usize \<Rightarrow> (usize \<times> usize) fallible" where
  "as_ptr m block_hdr = do {
     sz \<leftarrow> block_size_of m block_hdr;
     Some (block_hdr, sz)
   }"

definition as_ptr_range :: "mem \<Rightarrow> usize \<Rightarrow> (usize \<times> usize) fallible" where
  "as_ptr_range m block_hdr = do {
     sz \<leftarrow> block_size_of m block_hdr;
     Some (block_hdr, wrapping_add block_hdr sz)
   }"

definition is_occupied :: "mem \<Rightarrow> usize \<Rightarrow> bool fallible" where
  "is_occupied m block_hdr = do {
     size_and_flags \<leftarrow> read_size m block_hdr;
     Some (size_and_flags AND SIZE_USED \<noteq> 0)
   }"

section \<open>Size words\<close>

lemma size_word_mask:
  assumes "32 dvd z" and "z < USIZE_LIM"
  shows "size_word z k AND SIZE_SIZE_MASK = z"
proof (cases k)
  case Sentinel
  have m: "SIZE_SIZE_MASK = not_usize 31" by (simp add: SIZE_SIZE_MASK_def)
  have "z + 32 \<le> USIZE_LIM" by (rule dvd_less_add_le) (use assms in simp_all)
  then have "(z + 3) AND SIZE_SIZE_MASK = z + 3 - (z + 3) mod 32" unfolding m by (intro and_not_31) linarith
  moreover have "(z + 3) mod 32 = 3" using assms(1) by (auto elim!: dvdE)
  ultimately show ?thesis using Sentinel by (simp add: size_word_def)
qed (use assms in \<open>simp_all add: size_word_def mem_simps\<close>)

lemma size_word_sentinel:
  assumes "32 dvd z"
  shows "size_word z k AND SIZE_SENTINEL = 0 \<longleftrightarrow> k \<noteq> Sentinel"
proof (cases k)
  case Sentinel
  obtain j where "z = 32 * j" using assms by (rule dvdE)
  then have "(z + 3) div 2 = 16 * j + 1" by simp
  then have "odd ((z + 3) div 2)" by simp
  then show ?thesis using Sentinel and_2_eq_0 [of "z + 3"] by (simp add: size_word_def SIZE_SENTINEL_def)
qed (use assms in \<open>simp_all add: size_word_def mem_simps\<close>)

section \<open>The blocks enumerated\<close>

text \<open>A region filled by one call of \<open>insert_free_block_ptr\<close> and the calls of
  \<open>append_free_block_ptr\<close> that extended it is a sequence of adjacent pools.\<close>

fun adjacent :: "usize \<Rightarrow> pool list \<Rightarrow> bool" where
  "adjacent a [] \<longleftrightarrow> True"
| "adjacent a ((s, xs) # ps) \<longleftrightarrow> s = a \<and> adjacent (a + extent xs) ps"

definition region_len :: "pool list \<Rightarrow> nat" where
  "region_len qs = sum_list (map (extent \<circ> snd) qs)"

definition no_sentinels :: "entry list \<Rightarrow> usize list" where
  "no_sentinels es = map fst (filter (\<lambda>(b, z, k, q). k \<noteq> Sentinel) es)"

fun consecutive :: "usize \<Rightarrow> nat \<Rightarrow> entry list \<Rightarrow> bool" where
  "consecutive a n [] \<longleftrightarrow> n = 0"
| "consecutive a n ((b, z, k, q) # es) \<longleftrightarrow> b = a \<and> z \<le> n \<and> consecutive (a + z) (n - z) es"

lemma consecutive_append:
  "consecutive a n (es @ es') \<longleftrightarrow> (\<exists>k \<le> n. consecutive a k es \<and> consecutive (a + k) (n - k) es')"
proof (induction a n es rule: consecutive.induct)
  case (2 a n b z k q es)
  show ?case
  proof
    assume "consecutive a n (((b, z, k, q) # es) @ es')"
    with 2 obtain j where "b = a" "z \<le> n" "j \<le> n - z" "consecutive (a + z) j es" "consecutive (a + z + j) (n - z - j) es'" by auto
    then show "\<exists>k' \<le> n. consecutive a k' ((b, z, k, q) # es) \<and> consecutive (a + k') (n - k') es'"
      by (intro exI [of _ "z + j"]) (auto simp: add.assoc)
  next
    assume "\<exists>k' \<le> n. consecutive a k' ((b, z, k, q) # es) \<and> consecutive (a + k') (n - k') es'"
    then obtain j where j: "j \<le> n" "b = a" "z \<le> j" "consecutive (a + z) (j - z) es" "consecutive (a + j) (n - j) es'" by auto
    have "\<exists>k \<le> n - z. consecutive (a + z) k es \<and> consecutive (a + z + k) (n - z - k) es'"
      using j by (intro exI [of _ "j - z"]) auto
    with 2 j show "consecutive a n (((b, z, k, q) # es) @ es')" by auto
  qed
qed simp

lemma entries_consecutive: "consecutive b (extent xs) (entries p b xs)"
  by (induction p b xs rule: entries.induct) simp_all

lemma adjacent_consecutive: "adjacent a qs \<Longrightarrow> consecutive a (region_len qs) (all_entries qs)"
proof (induction a qs rule: adjacent.induct)
  case (2 a s xs ps)
  have "consecutive a (extent xs) (entries None a xs)" by (rule entries_consecutive)
  with 2 show ?case by (auto simp: consecutive_append region_len_def intro!: exI [of _ "extent xs"])
qed (simp add: region_len_def)

lemma iter_collect_entries:
  assumes I: "tlsf_inv c t m ps" and "set es \<subseteq> set (all_entries ps)" and "consecutive a n es"
  shows "iter_collect m (a mod USIZE_LIM) n = Some (no_sentinels es)"
  using assms(2,3)
proof (induction a n es rule: consecutive.induct)
  case (1 a n)
  then show ?case by (subst iter_collect.simps) (simp add: iter_next_def no_sentinels_def)
next
  case (2 a n b z k q es)
  have e: "(a, z, k, q) \<in> set (all_entries ps)" and c: "z \<le> n" "consecutive (a + z) (n - z) es" "b = a" using 2(2,3) by auto
  note f = entry_facts [OF inv_pools_ok [OF I] e]
  have lim: "a < USIZE_LIM" "z < USIZE_LIM" "a mod USIZE_LIM = a" using f by auto
  have rs: "read_size m a = Some (size_word z k)" by (rule entry_read(1) [OF I e]) simp
  have "iter_next m a n = Some (Some a, (a + z) mod USIZE_LIM, n - z)"
    using c(1) f rs lim size_word_mask [of z k] by (simp add: iter_next_def sub_usize_def wrapping_add_def)
  moreover have "iter_collect m ((a + z) mod USIZE_LIM) (n - z) = Some (no_sentinels es)"
    by (rule 2(1)) (use 2(2) c(2) in auto)
  ultimately show ?case unfolding lim(3)
    using rs f size_word_sentinel [of z k] c(3) by (subst iter_collect.simps) (simp add: no_sentinels_def)
qed

lemma iter_start:
  assumes "p + 31 < USIZE_LIM"
  shows "iter_blocks m (p, n) = iter_collect m (round_up 32 p) (n - (round_up 32 p - p))"
proof -
  have "wrapping_add p (GRANULARITY - 1) AND not_usize (GRANULARITY - 1) = round_up 32 p"
    using assms by (simp add: wrapping_add_exact and_not_31_round_up)
  moreover have "wrapping_sub (round_up 32 p) p = round_up 32 p - p"
    using assms round_up_32 [of p] by (simp add: wrapping_sub_exact)
  ultimately show ?thesis by (simp add: iter_blocks_def saturating_sub_def Let_def)
qed

lemma all_entries_mono: "set qs \<subseteq> set ps \<Longrightarrow> set (all_entries qs) \<subseteq> set (all_entries ps)"
proof -
  have "set (all_entries rs) = (\<Union>p \<in> set rs. set (entries None (fst p) (snd p)))" for rs
    by (induction rs rule: all_entries.induct) auto
  then show "set qs \<subseteq> set ps \<Longrightarrow> set (all_entries qs) \<subseteq> set (all_entries ps)" by auto
qed

text \<open>C31: \<open>iter_blocks\<close> on a region of the allocator (the aligned start and the total length of one or
  more adjacent pools, as \<open>insert_free_block_ptr\<close> reports them) terminates without a fault and
  enumerates exactly the blocks of the region in address order, the sentinels left out.\<close>

theorem iter_blocks_spec:
  fixes t :: "('f::len word, 's::len word) tlsf"
  assumes "tlsf_inv c t m ps" and "set qs \<subseteq> set ps" and "qs \<noteq> []" and "adjacent (round_up 32 p) qs"
    and "n = (round_up 32 p - p) + region_len qs"
  shows "iter_blocks m (p, n) = Some (no_sentinels (all_entries qs))"
proof -
  obtain xs qs' where qs: "qs = (round_up 32 p, xs) # qs'" using assms(3,4) by (cases qs) auto
  then have "pool_ok c (round_up 32 p, xs)" using assms(1,2) by (auto simp: tlsf_inv_def list_all_iff)
  then have "round_up 32 p + 32 \<le> USIZE_LIM" using pool_ok_extent [of c "round_up 32 p" xs] by (auto simp: pool_ok_def)
  then have lim: "p + 31 < USIZE_LIM" "round_up 32 p mod USIZE_LIM = round_up 32 p" using round_up_32(1) [of p] by simp_all
  from iter_collect_entries [OF assms(1) all_entries_mono [OF assms(2)] adjacent_consecutive [OF assms(4)]]
  show ?thesis using assms(5) by (simp add: iter_start [OF lim(1)] lim(2))
qed

theorem iter_blocks_spec_witness:
  "\<exists>(t :: (16 word, 16 word) tlsf) m. tlsf_inv demo_cfg t m demo_pools \<and> iter_blocks m (4080, 4112) = Some [4096]"
proof -
  obtain t :: "(16 word, 16 word) tlsf" and m where I: "tlsf_inv demo_cfg t m demo_pools" using demo_inv by blast
  have "iter_blocks m (4080, 4112) = Some (no_sentinels (all_entries demo_pools))"
    by (rule iter_blocks_spec [OF I]) (simp_all add: demo_pools_def region_len_def round_up_def)
  then show ?thesis using I by (auto simp: demo_pools_def no_sentinels_def)
qed

text \<open>\<open>BlockInfo\<close> describes the block it refers to: its size, the size of the largest payload of
  small alignment, its address range and whether it is in use.\<close>

theorem block_info_spec:
  fixes t :: "('f::len word, 's::len word) tlsf"
  assumes I: "tlsf_inv c t m ps" and e: "(b, z, k, q) \<in> set (all_entries ps)" and k: "k \<noteq> Sentinel"
  shows "block_size_of m b = Some z \<and> max_payload_size m b = Some (z - 16) \<and> as_ptr m b = Some (b, z) \<and>
    as_ptr_range m b = Some (b, b + z) \<and> is_occupied m b = Some (k \<noteq> Free)"
proof -
  note f = entry_facts [OF inv_pools_ok [OF I] e]
  obtain P s xs ys Q where d: "ps = plug P s xs [(z, k)] ys Q" "b = s + extent xs" by (rule all_entries_split [OF e])
  obtain zn where "b + z + zn \<le> USIZE_LIM" "32 \<le> zn"
    using next_entry [OF inv_pools_ok [OF I, unfolded d(1)]] f d(2) k by (auto simp: blk_ok_def)
  then have lim: "b + z < USIZE_LIM" "z < USIZE_LIM" by linarith+
  have rs: "read_size m b = Some (size_word z k)" by (rule entry_read(1) [OF I e]) simp
  show ?thesis using rs f lim size_word_mask [of z k]
    by (simp add: block_size_of_def max_payload_size_def as_ptr_def as_ptr_range_def is_occupied_def sub_usize_def
        wrapping_add_exact mem_simps)
qed

theorem block_info_spec_witness:
  "\<exists>(t :: (16 word, 16 word) tlsf) m. tlsf_inv demo_cfg t m demo_pools \<and> as_ptr m 4096 = Some (4096, 4064) \<and>
    is_occupied m 4096 = Some False"
proof -
  obtain t :: "(16 word, 16 word) tlsf" and m where I: "tlsf_inv demo_cfg t m demo_pools" using demo_inv by blast
  have e: "(4096, 4064, Free, None) \<in> set (all_entries demo_pools)" by (simp add: demo_pools_def)
  show ?thesis using I block_info_spec [OF I e] by auto
qed

end
