(* ===== verification/Spec2Isabelle.thy ===== *)
theory Spec2Isabelle
  imports Client Global_Lock C_Program Wasm_Source Tlsf_Iter
begin

text \<open>
  \<^bold>\<open>A verified model of rlsf\<close>

  \<open>rlsf\<close> is a two-level segregated fit (TLSF) memory allocator in Rust. The core, \<open>Tlsf\<close>, manages pools of memory it is
  given; \<open>FlexTlsf\<close> acquires pools from a source when it needs them; \<open>GlobalTlsf\<close> puts a \<open>FlexTlsf\<close> over the memory of
  the operating system behind a mutex and offers it as a Rust global allocator and through a C-like interface;
  \<open>rlsf_override\<close> exports that interface as \<open>malloc\<close>, \<open>free\<close> and the C++ operators. All paths below are under
  src/crates/.

  \<^bold>\<open>Conventions.\<close> The target has 64-bit \<open>usize\<close> (the WebAssembly source has its own 32-bit integers). A \<open>usize\<close> is a natural
  number with the bound \<open>USIZE_LIM\<close> and with checked, wrapping and saturating operations written out; bitmaps and the
  integers of int.rs are words. Programs are functions into \<open>option\<close> with the monad syntax: \<open>None\<close> is a panic (arithmetic
  overflow, a failed \<open>debug_assert!\<close>, an index out of range), an access to memory that is not mapped or is misaligned, a
  wrong argument of an unsafe function, or an abort. Theorems of the form \<open>f x = Some y\<close> therefore show that none of these
  happens. Memory is one partial map from addresses to cells of 8 bytes, with bytes as parts of cells, so that headers,
  payloads and copies share one store. Pointers are addresses, null is 0.

  \<^bold>\<open>Theories and code.\<close>
  \<^item> \<open>Prelude\<close>: machine integers, the option monad, rounding, bit lengths; the collections \<open>usize_simps\<close> and \<open>run_simps\<close> that run
    programs.
  \<^item> \<open>Bin_Integer\<close> (rlsf/src/int.rs): the methods of \<open>BinInteger\<close> on words.
  \<^item> \<open>Size_Class\<close> (rlsf/src/tlsf.rs): \<open>map_floor\<close>, \<open>map_ceil\<close>, \<open>map_ceil_and_unmap\<close>, the constants and the compile-time checks of
    the list lengths (\<open>cfg_ok\<close>), for all list lengths.
  \<^item> \<open>Memory\<close>, \<open>Byte_Copy\<close>: cells, bytes, \<open>BlockHdr\<close>, \<open>FreeBlockHdr\<close>, \<open>UsedBlockPad\<close>, \<open>ptr::copy\<close>.
  \<^item> \<open>Free_List\<close>: the struct \<open>Tlsf\<close>, linking and unlinking of free blocks, the bitmap search.
  \<^item> \<open>Tlsf_Layout\<close>: the invariant \<open>tlsf_inv c t m ps\<close>; the ghost \<open>ps\<close> lists the pools with their blocks (free, used with payload
    pointer, alignment and size, sentinel).
  \<^item> \<open>Tlsf_Alloc\<close>, \<open>Tlsf_Pool\<close>, \<open>Tlsf_Dealloc\<close>, \<open>Tlsf_Realloc\<close>: \<open>allocate\<close>, the pool functions, \<open>deallocate\<close> and the size queries,
    \<open>reallocate\<close>, each definition whole and with every branch, and the lemmas that they keep the invariant.
  \<^item> \<open>Allocator\<close>, \<open>Allocator_Pool\<close>, \<open>Allocator_Realloc\<close>: the same operations as functions on the set of live allocations
    (\<open>live ps\<close>): what they return, what they leave unchanged, and that they cannot fault.
  \<^item> \<open>Tlsf_Iter\<close>: \<open>iter_blocks\<close> and \<open>BlockInfo\<close>.
  \<^item> \<open>Client\<close>: clients of \<open>Tlsf\<close> as a specification of an abstract heap, and reachable states.
  \<^item> \<open>Flex_Source\<close> (rlsf/src/flex.rs): the trait \<open>FlexSource\<close> as a record of operations, its contract as the locale \<open>flex_source\<close>,
    the contract of \<open>GlobalAlloc\<close> as the locale \<open>global_allocator\<close>, and \<open>GlobalAllocAsFlexSource\<close>, for which a sublocale derives the
    first from the second.
  \<^item> \<open>Flex\<close>, \<open>Flex_Spec\<close>, \<open>Flex_Client\<close>: \<open>FlexTlsf\<close>, its invariant \<open>flex_inv\<close> (the blocks acquired, the growable pool, the footers
    that link the blocks) and its operations over every source that keeps the contract. \<open>alloc_panics\<close> says when the debug
    assertion after an extension fails; the locale \<open>flex_allocator\<close> has the sources with which it never does.
  \<^item> \<open>Global\<close> (rlsf/src/global.rs): \<open>GlobalTlsf\<close> as \<open>GlobalAlloc\<close> and \<open>CAlloc\<close>; the sublocale \<open>global_tlsf\<close> shows that it keeps the
    contract of \<open>GlobalAlloc\<close>, so that it may again be the source of a \<open>FlexTlsf\<close>.
  \<^item> \<open>Global_Lock\<close>: \<open>lock_inner\<close> and the mutex; threads as the step relation \<open>tstep\<close>.
  \<^item> \<open>Unix_Source\<close> (rlsf/src/global/unix.rs): the source over \<open>mmap\<close>; what the kernel promises is the locale \<open>unix_kernel\<close>.
  \<^item> \<open>Wasm_Source\<close> (rlsf/src/global/wasm32.rs): the source over \<open>memory.grow\<close>; what the instructions do is the locale \<open>wasm_memory\<close>.
  \<^item> \<open>Override\<close>, \<open>C_Program\<close> (rlsf_override/src/lib.rs): the exported C and C++ functions, and C programs against an abstract heap.

  \<^bold>\<open>What is shown.\<close> Bit operations and size classes meet their specifications for all widths and list lengths. Linking and
  unlinking implement insertion into and deletion from a map of free blocks. Every operation of \<open>Tlsf\<close>, \<open>FlexTlsf\<close>, \<open>GlobalTlsf\<close>
  and of the C interface, called as documented, cannot fault (\<open>FlexTlsf\<close> up to the debug assertion below), keeps the invariant, keeps the contents of all other
  allocations and returns what it should: aligned memory inside the pools and apart from all live allocations, moved bytes
  after a reallocation, zeroes from \<open>calloc\<close>. \<open>FlexTlsf\<close> fails to allocate exactly when it cannot ask for memory or
  the source refuses it. Iteration and \<open>drop\<close> terminate.
  When a client of \<open>Tlsf\<close> has freed everything, every pool is one free block again.
  Locales carry the interfaces: the results on \<open>FlexTlsf\<close> hold for every source, those on \<open>GlobalTlsf\<close> for every source of the
  locale \<open>flex_allocator\<close>, of which the source on Unix is one with every kernel. Threads exclude each other and do not deadlock.

  \<^bold>\<open>Loops.\<close> No definition has fuel. The loop of \<open>insert_free_block_ptr_aligned\<close> recurses on the remaining length; \<open>iter_blocks\<close> and the
  loop of \<open>drop\<close> are partial functions in the option monad, and their theorems show that they return.

  \<^bold>\<open>Assumptions.\<close> \<open>flex_source\<close> is the documented contract of a source, with \<open>min_align\<close> read as the code reads it: up to a granule it is the
  alignment of both ends of a block. After an extension \<open>FlexTlsf\<close> subtracts, in a debug assertion, the length of the block from the
  length of the pool, which panics unless they are equal; the theorems on \<open>FlexTlsf\<close> say exactly when. The theorems on \<open>GlobalTlsf\<close> and on
  what is built on it exclude that case by \<open>flex_allocator\<close>: pools have no maximum size (as in \<open>GlobalTlsf\<close>) where blocks are extended, and
  an extension that is asked to end at a granule ends at one. In \<open>tstep\<close> the body of a call is one step, so that accesses of other threads
  to their own allocations come before or after it, and the mutex does what \<open>pthread_mutex_lock\<close> and \<open>pthread_mutex_unlock\<close> document.
  The kernel's page size is a power of two and at least a granule, which the code checks only for the allocation unit.

  \<^bold>\<open>Not modelled.\<close> The \<open>Debug\<close> formatting of \<open>BlockInfo\<close>; the \<open>Default\<close> and \<open>ConstDefault\<close> instances, which call \<open>new\<close>; \<open>Tlsf\<close> on 32-bit
  targets; the mutex on WebAssembly, whose operations are empty; the re-exports and configuration of lib.rs; tests, benchmarks and examples.
\<close>

section \<open>C programs on Unix\<close>

text \<open>C12: on every kernel that keeps its promises, from the initial statics on, a C program that performs legal operations (it frees,
  resizes and accesses only what it allocated) never sees a fault: every further legal operation returns and follows the
  specification of the abstract heap, whatever the operations before it.\<close>

theorem c_programs_on_unix:
  assumes K: "unix_kernel K mapped" and own: "mapped k m0 {}"
    and run: "c_reach arch (unix_source K linux opts) (unix_blocks K mapped) (GlobalTlsf_new (unix_new k)) m0 f m h" and legal: "c_legal h op"
  shows "\<exists>r f' m' h'. c_run arch (unix_source K linux opts) f m op = Some (r, f', m') \<and> c_spec arch h op r h' \<and>
    c_reach arch (unix_source K linux opts) (unix_blocks K mapped) (GlobalTlsf_new (unix_new k)) m0 f' m' h'"
proof -
  let ?S = "unix_source K linux opts" and ?R = "unix_blocks K mapped"
  have "GlobalTlsf_ok ?S ?R (GlobalTlsf_new (unix_new k)) m0 {}" by (rule GlobalTlsf_new_ok [of ?R, OF unix_kernel.unix_new_blocks [OF K own]])
  then have rel: "c_rel ?S ?R f m h" by (rule reach_rel [OF run])
  obtain r f' m' h' where s: "c_run arch ?S f m op = Some (r, f', m')" "c_rel ?S ?R f' m' h'" "c_spec arch h op r h'"
    using global_tlsf.step_ok [OF global_tlsf.intro [OF unix_kernel.unix_allocator [OF K]] rel legal] by blast
  then show ?thesis using c_reach.call [OF run legal s(1,3,2)] by blast
qed

theorem c_programs_on_unix_witness:
  "\<exists>r f' m' (h' :: c_heap). c_run x86_64 (unix_source bump_kernel True default_options) (GlobalTlsf_new (unix_new 65536)) (\<lambda>_. None) (Calloc 10 12) = Some (r, f', m') \<and>
    (r \<noteq> 0 \<longrightarrow> sizes h' r = Some 120 \<and> (\<forall>i < 120. bytes h' (r + i) = 0))"
proof -
  let ?S = "unix_source bump_kernel True default_options"
  have own: "bump_owned 65536 (\<lambda>_. None) {}" by (simp add: bump_owned_def)
  obtain r f' m' h' where "c_run x86_64 ?S (GlobalTlsf_new (unix_new 65536)) (\<lambda>_. None) (Calloc 10 12) = Some (r, f', m')"
      "c_spec x86_64 \<lparr>sizes = Map.empty, bytes = (\<lambda>a. 0)\<rparr> (Calloc 10 12) r h'"
    using c_programs_on_unix [OF bump_unix.unix_kernel_axioms own c_reach.start, of "Calloc 10 12" x86_64 True default_options] by auto
  then show ?thesis by (intro exI [of _ r] exI [of _ f'] exI [of _ m'] exI [of _ h'] conjI) (auto simp: new_block_def)
qed

end
